(* ===== verification/Prelude.thy ===== *)
theory Prelude
  imports Main "HOL-Library.Multiset"
begin

text \<open>
  What every component of the library shares: the outcome type of an operation that works on
  files (\<open>io\<close>), its sequencing, and the theory of \<^emph>\<open>linked segments\<close>: a store that maps
  pointers to records, a field that holds the next pointer, and the list of records met from one
  pointer to another.  The sequential file's record chain, the duplicate chains of the indexes
  and the free list of the AVL file are all linked segments.
\<close>

named_theorems io_simps \<open>evaluation of the sequencing of file operations\<close>
named_theorems seg_intros \<open>introduction of linked segments\<close>

section \<open>Outcomes of file operations\<close>

text \<open>
  \<open>RuntimeError\<close> is a thrown \<open>std::runtime_error\<close> (every handler of the source catches
  one and throws another, so the text is not kept); \<open>InvalidArgument\<close> and \<open>OutOfRange\<close> are the exceptions of
  the library functions (\<open>std::stoi\<close>, \<open>vector::at\<close>) that the engine lets through, and so is \<open>BadVariantAccess\<close>
  (\<open>std::get\<close> of another alternative); \<open>Terminated\<close> is one of them in a thread, which ends the
  program.  \<open>EndOfFile\<close> is a read or a seek outside the
  file: the stream goes into its failed state and leaves the variable unread.  \<open>Misaligned\<close> is an
  access inside the file that is not at a record boundary, so that its result depends on the
  bytes of the record layout.  \<open>Uninitialised\<close> is the use of a default-constructed record that
  was never read, or of memory outside an object.  \<open>OutOfFuel\<close> is a loop that did not end within its bound.  None but
  the exceptions is a defined result of the source: a theorem that an operation returns
  \<open>Inr\<close> says that none of them happens.
\<close>

datatype io_error = RuntimeError | InvalidArgument | OutOfRange | EndOfFile | Misaligned | Uninitialised | OutOfFuel | BadVariantAccess | Terminated

type_synonym 'a io = "io_error + 'a"

definition bind_io :: "'a io \<Rightarrow> ('a \<Rightarrow> 'b io) \<Rightarrow> 'b io" where
  "bind_io m f = (case m of Inl e \<Rightarrow> Inl e | Inr x \<Rightarrow> f x)"

text \<open>The value of a variable that is default-constructed until it is assigned.\<close>

definition init_value :: "'a option \<Rightarrow> 'a io" where
  "init_value v = (case v of None \<Rightarrow> Inl Uninitialised | Some x \<Rightarrow> Inr x)"

lemma bind_io_Inr [simp, io_simps]: "bind_io (Inr x) f = f x"
  by (simp add: bind_io_def)

lemma bind_io_Inl [simp, io_simps]: "bind_io (Inl e) f = Inl e"
  by (simp add: bind_io_def)

lemma init_value_Some [simp, io_simps]: "init_value (Some x) = Inr x"
  by (simp add: init_value_def)

lemma init_value_None [simp, io_simps]: "init_value None = Inl Uninitialised"
  by (simp add: init_value_def)

lemma bind_io_eq_Inr [io_simps]: "bind_io m f = Inr y \<longleftrightarrow> (\<exists>x. m = Inr x \<and> f x = Inr y)"
  by (cases m) auto

lemma bind_io_cong [fundef_cong]:
  "m = m' \<Longrightarrow> (\<And>x. m' = Inr x \<Longrightarrow> f x = g x) \<Longrightarrow> bind_io m f = bind_io m' g"
  by (cases m') auto

lemma bind_io_assoc: "bind_io (bind_io m f) g = bind_io m (\<lambda>x. bind_io (f x) g)"
  by (cases m) auto

text \<open>The value of an operation that returned, as an option: the store of the segments below.\<close>

definition io_value :: "'a io \<Rightarrow> 'a option" where
  "io_value m = (case m of Inl e \<Rightarrow> None | Inr x \<Rightarrow> Some x)"

lemma io_value_simps [simp]: "io_value (Inr x) = Some x" "io_value (Inl e) = None"
  by (simp_all add: io_value_def)

lemma io_value_eq_Some [simp]: "io_value m = Some x \<longleftrightarrow> m = Inr x"
  by (cases m) auto

lemma io_value_eq_None: "io_value m = None \<longleftrightarrow> (\<exists>e. m = Inl e)"
  by (cases m) auto

section \<open>Linked segments\<close>

text \<open>
  \<open>lseg f nx p rs q\<close>: starting at pointer \<open>p\<close>, fetching with \<open>f\<close> and following \<open>nx\<close>, one meets
  the records \<open>rs\<close> and arrives at pointer \<open>q\<close>.
\<close>

fun lseg :: "('p \<Rightarrow> 'r option) \<Rightarrow> ('r \<Rightarrow> 'p) \<Rightarrow> 'p \<Rightarrow> 'r list \<Rightarrow> 'p \<Rightarrow> bool" where
  "lseg f nx p [] q \<longleftrightarrow> p = q"
| "lseg f nx p (r # rs) q \<longleftrightarrow> f p = Some r \<and> lseg f nx (nx r) rs q"

lemma lseg_append: "lseg f nx p (rs @ ss) q \<longleftrightarrow> (\<exists>m. lseg f nx p rs m \<and> lseg f nx m ss q)"
  by (induction rs arbitrary: p) auto

lemma lseg_appendI [seg_intros]: "lseg f nx p rs m \<Longrightarrow> lseg f nx m ss q \<Longrightarrow> lseg f nx p (rs @ ss) q"
  unfolding lseg_append by blast

lemma lseg_target: "lseg f nx p rs q \<Longrightarrow> rs \<noteq> [] \<Longrightarrow> q = nx (last rs)"
  by (induction rs arbitrary: p) (auto split: if_splits)

lemma lseg_start_None: "f p = None \<Longrightarrow> lseg f nx p rs q \<longleftrightarrow> rs = [] \<and> p = q"
  by (cases rs) auto

text \<open>A segment that ends where nothing can be fetched is determined by its start.\<close>

lemma lseg_unique:
  "lseg f nx p rs e \<Longrightarrow> lseg f nx p ss e \<Longrightarrow> f e = None \<Longrightarrow> rs = ss"
proof (induction rs arbitrary: p ss)
  case Nil
  then show ?case by (auto simp: lseg_start_None)
next
  case (Cons r rs)
  then show ?case by (cases ss) auto
qed

text \<open>Records that lie at numbered places and point from each to the next form a segment.\<close>

lemma lseg_nth:
  "(\<And>i. i < length rs \<Longrightarrow> f (P i) = Some (rs ! i)) \<Longrightarrow>
   (\<And>i. i < length rs \<Longrightarrow> nx (rs ! i) = (if Suc i = length rs then e else P (Suc i))) \<Longrightarrow> rs \<noteq> [] \<Longrightarrow>
     lseg f nx (P 0) rs e"
proof (induction rs arbitrary: P)
  case (Cons r rs)
  have "f (P 0) = Some r" using Cons.prems(1)[of 0] by simp
  moreover have "lseg f nx (nx r) rs e"
  proof (cases "rs = []")
    case True
    then show ?thesis using Cons.prems(2)[of 0] by simp
  next
    case False
    have "lseg f nx (P (Suc 0)) rs e"
      using Cons.prems(1)[of "Suc i" for i] Cons.prems(2)[of "Suc i" for i] False
      by (intro Cons.IH[of "\<lambda>i. P (Suc i)"]) auto
    then show ?thesis using Cons.prems(2)[of 0] False by simp
  qed
  ultimately show ?case by simp
qed simp

text \<open>
  Frame rules: a store that agrees on the pointers of the segment has the same segment.  \<open>cur\<close>
  gives the pointer a record was fetched from (the source stores it in every record).
\<close>

lemma lseg_frame:
  assumes "lseg f nx p rs q" and "\<And>r s. f s = Some r \<Longrightarrow> cur r = s"
    and "\<And>r. r \<in> set rs \<Longrightarrow> g (cur r) = f (cur r)"
  shows "lseg g nx p rs q"
  using assms(1,3)
proof (induction rs arbitrary: p)
  case (Cons r rs)
  then have "cur r = p" using assms(2) by auto
  with Cons show ?case by auto
qed simp

lemma lseg_mono:
  "lseg f nx p rs q \<Longrightarrow> (\<And>s r. f s = Some r \<Longrightarrow> g s = Some r) \<Longrightarrow> lseg g nx p rs q"
  by (induction rs arbitrary: p) auto

lemma lseg_fetch: "lseg f nx p rs q \<Longrightarrow> r \<in> set rs \<Longrightarrow> \<exists>s. f s = Some r"
  by (induction rs arbitrary: p) auto

lemma lseg_hd:
  assumes "lseg f nx p rs q" "rs \<noteq> []" and "\<And>r s. f s = Some r \<Longrightarrow> cur r = s"
  shows "p = cur (hd rs)"
  using assms by (cases rs) auto

text \<open>The pointers a segment is fetched from.\<close>

fun lptrs :: "('r \<Rightarrow> 'p) \<Rightarrow> 'p \<Rightarrow> 'r list \<Rightarrow> 'p list" where
  "lptrs nx p [] = []"
| "lptrs nx p (r # rs) = p # lptrs nx (nx r) rs"

lemma length_lptrs [simp]: "length (lptrs nx p rs) = length rs"
  by (induction rs arbitrary: p) auto

lemma lptrs_in_split:
  "lseg f nx p rs q \<Longrightarrow> s \<in> set (lptrs nx p rs) \<Longrightarrow> \<exists>us vs. rs = us @ vs \<and> vs \<noteq> [] \<and> lseg f nx s vs q"
proof (induction rs arbitrary: p)
  case (Cons r rs)
  show ?case
  proof (cases "s = p")
    case True
    with Cons.prems show ?thesis by (intro exI[of _ "[]"] exI[of _ "r # rs"]) simp
  next
    case False
    with Cons.prems have "lseg f nx (nx r) rs q" "s \<in> set (lptrs nx (nx r) rs)" by auto
    with Cons.IH obtain us vs where "rs = us @ vs" "vs \<noteq> []" "lseg f nx s vs q" by blast
    then show ?thesis by (intro exI[of _ "r # us"] exI[of _ vs]) simp
  qed
qed simp

lemma lseg_distinct_ptrs:
  assumes seg: "lseg f nx p rs e" and stop: "f e = None"
  shows "distinct (lptrs nx p rs)"
  using seg
proof (induction rs arbitrary: p)
  case (Cons r rs)
  then have tail: "lseg f nx (nx r) rs e" by simp
  have "p \<notin> set (lptrs nx (nx r) rs)"
  proof
    assume "p \<in> set (lptrs nx (nx r) rs)"
    then obtain us vs where vs: "rs = us @ vs" "lseg f nx p vs e"
      using lptrs_in_split[OF tail] by blast
    then have "r # rs = vs" using Cons.prems stop lseg_unique by metis
    with vs(1) show False by (metis append_is_Nil_conv append_self_conv2 impossible_Cons
          length_append linorder_linear not_Cons_self2 trans_le_add2)
  qed
  with Cons.IH[OF tail] show ?case by simp
qed simp

lemma lptrs_dom: "lseg f nx p rs q \<Longrightarrow> set (lptrs nx p rs) \<subseteq> dom f"
  by (induction rs arbitrary: p) auto

lemma lseg_length:
  assumes seg: "lseg f nx p rs e" and stop: "f e = None" and dom: "dom f \<subseteq> S" "finite S"
  shows "length rs \<le> card S"
proof -
  have "card (set (lptrs nx p rs)) \<le> card S"
    using lptrs_dom[OF seg] dom by (meson card_mono order_trans)
  then show ?thesis using distinct_card[OF lseg_distinct_ptrs[OF seg stop]] by simp
qed

lemma lptrs_cur:
  assumes "lseg f nx p rs q" and "\<And>r s. f s = Some r \<Longrightarrow> cur r = s"
  shows "lptrs nx p rs = map cur rs"
  using assms(1) by (induction rs arbitrary: p) (auto dest: assms(2))

lemma lseg_distinct:
  assumes "lseg f nx p rs e" "f e = None" and "\<And>r s. f s = Some r \<Longrightarrow> cur r = s"
  shows "distinct (map cur rs)"
  using lseg_distinct_ptrs[OF assms(1,2)] lptrs_cur[OF assms(1,3)] by simp

section \<open>Lists\<close>

text \<open>
  Cutting a list at an element of one of its sublists: \<open>P\<close> selects the records of the index
  file among all records of a chain.
\<close>

lemma filter_eq_split:
  assumes "filter P L = xs" "j < length xs"
  shows "\<exists>U V. L = U @ xs ! j # V \<and> filter P U = take j xs \<and> filter P V = drop (Suc j) xs"
  using assms
proof (induction L arbitrary: xs j)
  case (Cons a L)
  show ?case
  proof (cases "P a")
    case True
    then obtain ys where xs: "xs = a # ys" "filter P L = ys" using Cons.prems by auto
    show ?thesis
    proof (cases j)
      case 0
      with xs show ?thesis by (intro exI[of _ "[]"] exI[of _ L]) simp
    next
      case (Suc i)
      with Cons.IH[OF xs(2), of i] Cons.prems xs obtain U V where
        "L = U @ ys ! i # V" "filter P U = take i ys" "filter P V = drop (Suc i) ys" by auto
      with Suc xs True show ?thesis by (intro exI[of _ "a # U"] exI[of _ V]) simp
    qed
  next
    case False
    with Cons obtain U V where
      "L = U @ xs ! j # V" "filter P U = take j xs" "filter P V = drop (Suc j) xs" by fastforce
    with False show ?thesis by (intro exI[of _ "a # U"] exI[of _ V]) simp
  qed
qed simp

lemma prefix_not_P: "\<exists>A V. L = A @ V \<and> (\<forall>a\<in>set A. \<not> P a) \<and> (V = [] \<or> P (hd V))"
proof (intro exI conjI)
  show "L = takeWhile (\<lambda>x. \<not> P x) L @ dropWhile (\<lambda>x. \<not> P x) L" by simp
  show "\<forall>a\<in>set (takeWhile (\<lambda>x. \<not> P x) L). \<not> P a" by (auto dest: set_takeWhileD)
  show "dropWhile (\<lambda>x. \<not> P x) L = [] \<or> P (hd (dropWhile (\<lambda>x. \<not> P x) L))"
    using hd_dropWhile by blast
qed

lemma sorted_wrt_map_append_less:
  "sorted_wrt (<) (map k (A @ B)) \<longleftrightarrow>
     sorted_wrt (<) (map k A) \<and> sorted_wrt (<) (map k B) \<and> (\<forall>a\<in>set A. \<forall>b\<in>set B. k a < k b)"
  by (auto simp: sorted_wrt_append)

lemma sorted_wrt_less_nth:
  "sorted_wrt (<) (xs :: 'a :: linorder list) \<Longrightarrow> i < length xs \<Longrightarrow> j < length xs \<Longrightarrow>
     xs ! i < xs ! j \<longleftrightarrow> i < j"
  by (metis linorder_less_linear order_less_asym sorted_wrt_nth_less)

end
