(* ===== verification/RecordFile.thy ===== *)
theory RecordFile
  imports Prelude
begin

text \<open>
  The binary files of the indexes and the file operations of the class template \<open>Index\<close>
  (\<open>libs/Indexes/index.tpp\<close>): reading and writing the fixed-size records of a file at a
  byte position.  A file is the list of its records; the record in slot \<open>i\<close> occupies the bytes
  from \<open>base + i * sz\<close> on, where \<open>base\<close> is the size of the file's header (0 for a file without
  one).  The second part is the base class \<open>Index::Record\<close> and the duplicate file, which
  every index keeps: each record of an index starts a chain of records in the duplicate file that
  hold the further positions of its key.
\<close>

section \<open>Positions and records\<close>

text \<open>\<open>using physical_pos = std::streampos\<close>: a byte offset, \<open>-1\<close> where there is none.\<close>

type_synonym physical_pos = int

text \<open>\<open>tellp()\<close> at the end of a file, and the position of a slot.\<close>

definition slot_pos :: "int \<Rightarrow> int \<Rightarrow> nat \<Rightarrow> physical_pos" where
  "slot_pos base sz i = base + int i * sz"

definition end_pos :: "int \<Rightarrow> int \<Rightarrow> 'r list \<Rightarrow> physical_pos" where
  "end_pos base sz rs = slot_pos base sz (length rs)"

definition moveReadRecord :: "int \<Rightarrow> int \<Rightarrow> 'r list \<Rightarrow> physical_pos \<Rightarrow> 'r io" where
  "moveReadRecord base sz rs pos =
     (if pos < 0 then Inl EndOfFile
      else if pos < base \<or> (pos - base) mod sz \<noteq> 0 then Inl Misaligned
      else if nat ((pos - base) div sz) < length rs then Inr (rs ! nat ((pos - base) div sz))
      else Inl EndOfFile)"

text \<open>
  A write at the end of the file appends; a write beyond it would leave a gap of unwritten bytes,
  which is not a list of records.
\<close>

definition moveWriteRecord :: "int \<Rightarrow> int \<Rightarrow> 'r list \<Rightarrow> physical_pos \<Rightarrow> 'r \<Rightarrow> 'r list io" where
  "moveWriteRecord base sz rs pos r =
     (if pos < 0 then Inl EndOfFile
      else if pos < base \<or> (pos - base) mod sz \<noteq> 0 then Inl Misaligned
      else if nat ((pos - base) div sz) < length rs
        then Inr (rs[nat ((pos - base) div sz) := r])
      else if nat ((pos - base) div sz) = length rs then Inr (rs @ [r])
      else Inl Misaligned)"

text \<open>\<open>numberRecords\<close> and \<open>numberRecordsWithHeader\<close>: the file size over the record size.\<close>

definition file_size :: "int \<Rightarrow> int \<Rightarrow> 'r list \<Rightarrow> int" where
  "file_size base sz rs = base + int (length rs) * sz"

definition numberRecords :: "int \<Rightarrow> 'r list \<Rightarrow> int" where
  "numberRecords sz rs = file_size 0 sz rs div sz"

definition numberRecordsWithHeader :: "int \<Rightarrow> int \<Rightarrow> 'r list \<Rightarrow> int" where
  "numberRecordsWithHeader base sz rs = (file_size base sz rs - base) div sz"

lemma slot_pos_div_mod [simp]:
  assumes "0 < sz"
  shows "(slot_pos base sz i - base) mod sz = 0"
    and "(slot_pos base sz i - base) div sz = int i"
  using assms by (simp_all add: slot_pos_def)

lemma slot_pos_ge: "0 \<le> base \<Longrightarrow> 0 < sz \<Longrightarrow> base \<le> slot_pos base sz i"
  by (simp add: slot_pos_def)

lemma slot_pos_nonneg: "0 \<le> base \<Longrightarrow> 0 < sz \<Longrightarrow> 0 \<le> slot_pos base sz i"
  by (simp add: slot_pos_def)

lemma slot_pos_inject [simp]: "0 < sz \<Longrightarrow> slot_pos base sz i = slot_pos base sz j \<longleftrightarrow> i = j"
  by (simp add: slot_pos_def)

lemma slot_pos_not_neg1 [simp]:
  "0 \<le> base \<Longrightarrow> 0 < sz \<Longrightarrow> slot_pos base sz i \<noteq> - 1"
  "0 \<le> base \<Longrightarrow> 0 < sz \<Longrightarrow> - 1 \<noteq> slot_pos base sz i"
  using slot_pos_nonneg[of base sz i] by auto

lemma end_pos_not_neg1 [simp]: "0 \<le> base \<Longrightarrow> 0 < sz \<Longrightarrow> end_pos base sz rs \<noteq> - 1"
  by (simp add: end_pos_def)

lemma numberRecords_eq [simp]: "0 < sz \<Longrightarrow> numberRecords sz rs = int (length rs)"
  by (simp add: numberRecords_def file_size_def)

lemma numberRecordsWithHeader_eq [simp]:
  "0 < sz \<Longrightarrow> numberRecordsWithHeader base sz rs = int (length rs)"
  by (simp add: numberRecordsWithHeader_def file_size_def)

section \<open>Reading and writing at a slot\<close>

lemma moveReadRecord_slot:
  "0 \<le> base \<Longrightarrow> 0 < sz \<Longrightarrow> i < length rs \<Longrightarrow>
     moveReadRecord base sz rs (slot_pos base sz i) = Inr (rs ! i)"
  using slot_pos_nonneg[of base sz i] slot_pos_ge[of base sz i]
  by (simp add: moveReadRecord_def)

lemma moveReadRecord_Inr:
  assumes "moveReadRecord base sz rs p = Inr r" "0 < sz"
  shows "\<exists>i<length rs. p = slot_pos base sz i \<and> r = rs ! i"
proof (intro exI conjI)
  let ?i = "nat ((p - base) div sz)"
  from assms have p: "0 \<le> p" "base \<le> p" "(p - base) mod sz = 0" and i: "?i < length rs" "r = rs ! ?i"
    by (auto simp: moveReadRecord_def split: if_splits)
  then show "?i < length rs" "r = rs ! ?i" by auto
  have "0 \<le> (p - base) div sz" using p assms(2) by (simp add: pos_imp_zdiv_nonneg_iff)
  then have "int ?i * sz = p - base" using p(3) by (metis dvd_div_mult_self int_nat_eq mod_eq_0_iff_dvd)
  then show "p = slot_pos base sz ?i" by (simp add: slot_pos_def)
qed

lemma moveReadRecord_neg1 [simp]: "moveReadRecord base sz rs (- 1) = Inl EndOfFile"
  by (simp add: moveReadRecord_def)

lemma moveReadRecord_append:
  "moveReadRecord base sz rs p = Inr r \<Longrightarrow> moveReadRecord base sz (rs @ ss) p = Inr r"
  by (auto simp: moveReadRecord_def nth_append split: if_splits)

lemma moveReadRecord_end:
  "0 \<le> base \<Longrightarrow> 0 < sz \<Longrightarrow> moveReadRecord base sz (rs @ [r]) (end_pos base sz rs) = Inr r"
  by (simp add: end_pos_def moveReadRecord_slot)

lemma moveWriteRecord_slot:
  "0 \<le> base \<Longrightarrow> 0 < sz \<Longrightarrow> i < length rs \<Longrightarrow>
     moveWriteRecord base sz rs (slot_pos base sz i) r = Inr (rs[i := r])"
  using slot_pos_nonneg[of base sz i] slot_pos_ge[of base sz i]
  by (simp add: moveWriteRecord_def)

lemma moveWriteRecord_end:
  "0 \<le> base \<Longrightarrow> 0 < sz \<Longrightarrow> moveWriteRecord base sz rs (end_pos base sz rs) r = Inr (rs @ [r])"
  using slot_pos_nonneg[of base sz "length rs"] slot_pos_ge[of base sz "length rs"]
  by (simp add: moveWriteRecord_def end_pos_def)

text \<open>An aligned position is that of a slot, so an append changes what is read at the end only.\<close>

lemma aligned_slot_pos:
  "0 < sz \<Longrightarrow> base \<le> p \<Longrightarrow> (p - base) mod sz = 0 \<Longrightarrow> p = slot_pos base sz (nat ((p - base) div sz))"
  by (auto simp: slot_pos_def pos_imp_zdiv_nonneg_iff mod_eq_0_iff_dvd)

lemma moveReadRecord_snoc:
  assumes "0 \<le> base" "0 < sz"
  shows "moveReadRecord base sz (rs @ [r]) p =
     (if p = end_pos base sz rs then Inr r else moveReadRecord base sz rs p)"
proof (cases "base \<le> p \<and> (p - base) mod sz = 0")
  case True
  then have "p = slot_pos base sz (nat ((p - base) div sz))" using assms(2) by (intro aligned_slot_pos) auto
  then obtain i where p: "p = slot_pos base sz i" ..
  have "\<not> slot_pos base sz i < base" "\<not> slot_pos base sz i < 0"
    using slot_pos_ge[OF assms] slot_pos_nonneg[OF assms] by (simp_all add: not_less)
  then show ?thesis using assms(2) by (simp add: p moveReadRecord_def end_pos_def nth_append)
next
  case False
  then have "p \<noteq> end_pos base sz rs" using assms slot_pos_ge[OF assms] by (auto simp: end_pos_def)
  with False show ?thesis by (auto simp: moveReadRecord_def)
qed

text \<open>What a reader sees after a write: the interface the indexes rest on.\<close>

locale record_store =
  fixes rd :: "'f \<Rightarrow> physical_pos \<Rightarrow> 'r io"
    and upd :: "'f \<Rightarrow> physical_pos \<Rightarrow> 'r \<Rightarrow> 'f io"
    and app :: "'f \<Rightarrow> 'r \<Rightarrow> 'f"
    and eof_pos :: "'f \<Rightarrow> physical_pos"
  assumes no_record_at_neg1: "rd f (- 1) = Inl EndOfFile"
    and write_defined: "rd f p = Inr r \<Longrightarrow> \<exists>f'. upd f p r' = Inr f'"
    and read_written: "rd f p = Inr r \<Longrightarrow> upd f p r' = Inr f' \<Longrightarrow> rd f' p = Inr r'"
    and read_unwritten: "rd f p = Inr r \<Longrightarrow> upd f p r' = Inr f' \<Longrightarrow> q \<noteq> p \<Longrightarrow> rd f' q = rd f q"
    and read_appended: "rd (app f r) (eof_pos f) = Inr r"
    and read_not_appended: "rd f p = Inr r \<Longrightarrow> rd (app f r') p = Inr r"
    and eof_unread: "\<nexists>r. rd f (eof_pos f) = Inr r"
begin

lemma fetch_stop: "io_value (rd f (- 1)) = None"
  by (simp add: no_record_at_neg1)

text \<open>A chain of records survives an append, and the appended record can be put in front of it.\<close>

lemma chain_append: "lseg (\<lambda>p. io_value (rd f p)) nx p rs q \<Longrightarrow> lseg (\<lambda>p. io_value (rd (app f r) p)) nx p rs q"
  by (erule lseg_mono) (simp add: read_not_appended)

lemma chain_cons:
  "lseg (\<lambda>p. io_value (rd f p)) nx p rs q \<Longrightarrow> nx r = p \<Longrightarrow>
     lseg (\<lambda>p. io_value (rd (app f r) p)) nx (eof_pos f) (r # rs) q"
  by (simp add: read_appended chain_append)

end

lemma moveReadRecord_aligned:
  assumes "0 \<le> base" "0 < sz" "moveReadRecord base sz rs p = Inr r" "moveWriteRecord base sz rs p r' = Inr rs'"
  shows "\<exists>i<length rs. p = slot_pos base sz i \<and> rs' = rs[i := r']"
  using moveReadRecord_Inr[OF assms(3,2)] assms by (auto simp: moveWriteRecord_slot)

lemma record_file_store:
  assumes "0 \<le> base" "0 < sz"
  shows "record_store (moveReadRecord base sz) (moveWriteRecord base sz)
           (\<lambda>rs r. rs @ [r]) (end_pos base sz)"
proof
  fix f :: "'a list" and p q :: physical_pos and r r' :: 'a and f' :: "'a list"
  show "moveReadRecord base sz f (- 1) = Inl EndOfFile" by simp
  show "moveReadRecord base sz (f @ [r]) (end_pos base sz f) = Inr r"
    using assms by (simp add: moveReadRecord_end)
  show "moveReadRecord base sz f p = Inr r \<Longrightarrow> moveReadRecord base sz (f @ [r']) p = Inr r"
    by (rule moveReadRecord_append)
  show "moveReadRecord base sz f p = Inr r \<Longrightarrow> \<exists>f'. moveWriteRecord base sz f p r' = Inr f'"
    using moveReadRecord_Inr[OF _ assms(2)] assms by (fastforce simp: moveWriteRecord_slot)
  show "\<nexists>r. moveReadRecord base sz f (end_pos base sz f) = Inr r"
    using moveReadRecord_Inr[OF _ assms(2)] assms by (fastforce simp: end_pos_def)
  assume rd: "moveReadRecord base sz f p = Inr r" and wr: "moveWriteRecord base sz f p r' = Inr f'"
  from moveReadRecord_aligned[OF assms rd wr]
  obtain i where i: "i < length f" "p = slot_pos base sz i" "f' = f[i := r']" by auto
  then show "moveReadRecord base sz f' p = Inr r'"
    using assms by (simp add: moveReadRecord_slot)
  assume "q \<noteq> p"
  have "q = slot_pos base sz (nat ((q - base) div sz))"
    if "0 \<le> q" "base \<le> q" "(q - base) mod sz = 0"
    using that assms by (intro aligned_slot_pos) auto
  with \<open>q \<noteq> p\<close> i show "moveReadRecord base sz f' q = moveReadRecord base sz f q"
    by (auto simp: moveReadRecord_def nth_list_update)
qed

end
