(* ===== verification/IndexBase.thy ===== *)
theory IndexBase
  imports RecordFile
begin

text \<open>
  The base classes of the indexes: \<open>Index::Record\<close> (\<open>libs/Indexes/record.hpp\<close>) and
  the duplicate file of \<open>Index::Index\<close> (\<open>libs/Indexes/index.tpp\<close>).  The class
  templates take any record type with the fields of \<open>Index::Record\<close>; here they are
  functions on any extension of its record type.
\<close>

record 'k index_record =
  data :: 'k
  raw_pos :: physical_pos
  dup_pos :: physical_pos

text \<open>The position that stands for no position, \<open>END_OF_FILE\<close> in the sequential index.\<close>

abbreviation END_OF_FILE :: physical_pos where
  "END_OF_FILE \<equiv> - 1"

section \<open>Operations on the duplicate file\<close>

text \<open>
  \<open>getAllRawCurrentRecords\<close>: the positions of a record and of all its duplicates.  A read
  at the end of the file or beyond leaves the variable \<open>sir\<close> as it was, so the loop goes on with
  the same record.  The loop only reads, so a run that makes more steps than the file has records
  meets a record twice and never ends: the bound \<open>length dups + 1\<close> loses no run that returns.
\<close>

fun rawRecords_loop ::
  "nat \<Rightarrow> int \<Rightarrow> ('k, 'z) index_record_scheme list \<Rightarrow> ('k, 'z) index_record_scheme \<Rightarrow>
     physical_pos list \<Rightarrow> physical_pos list io" where
  "rawRecords_loop 0 sz dups sir records = Inl OutOfFuel"
| "rawRecords_loop (Suc n) sz dups sir records =
     (if dup_pos sir \<noteq> - 1 then
        (case moveReadRecord 0 sz dups (dup_pos sir) of
           Inr sir' \<Rightarrow> rawRecords_loop n sz dups sir' (records @ [raw_pos sir'])
         | Inl EndOfFile \<Rightarrow> rawRecords_loop n sz dups sir (records @ [raw_pos sir])
         | Inl e \<Rightarrow> Inl e)
      else Inr records)"

definition getAllRawCurrentRecords ::
  "int \<Rightarrow> ('k, 'z) index_record_scheme list \<Rightarrow> ('k, 'z) index_record_scheme \<Rightarrow>
     physical_pos list \<Rightarrow> physical_pos list io" where
  "getAllRawCurrentRecords sz dups sir records =
     rawRecords_loop (Suc (length dups)) sz dups sir (records @ [raw_pos sir])"

definition insertDuplicateFile ::
  "int \<Rightarrow> 'r list \<Rightarrow> 'r \<Rightarrow> 'r list \<times> physical_pos" where
  "insertDuplicateFile sz dups rec = (dups @ [rec], end_pos 0 sz dups)"

text \<open>
  \<open>insertDuplicate\<close>: the duplicate is put in front of the chain of \<open>rec\<close>, and \<open>rec\<close> is
  written back to its own file at its \<open>current_pos\<close>.  Returns that file, the duplicate file
  and the record as left in the caller's variable.
\<close>

definition insertDuplicate ::
  "int \<Rightarrow> int \<Rightarrow> (('k, 'z) index_record_scheme \<Rightarrow> physical_pos) \<Rightarrow>
     ('k, 'z) index_record_scheme list \<Rightarrow> ('k, 'z) index_record_scheme list \<Rightarrow>
     ('k, 'z) index_record_scheme \<Rightarrow> ('k, 'z) index_record_scheme \<Rightarrow>
     (('k, 'z) index_record_scheme list \<times> ('k, 'z) index_record_scheme list
       \<times> ('k, 'z) index_record_scheme) io" where
  "insertDuplicate base sz current file dups rec rec_dup =
     (let rec_dup' = rec_dup\<lparr>dup_pos := dup_pos rec\<rparr>;
          (dups', duplicate_position) = insertDuplicateFile sz dups rec_dup';
          rec' = rec\<lparr>dup_pos := duplicate_position\<rparr>
      in bind_io (moveWriteRecord base sz file (current rec) rec')
           (\<lambda>file'. Inr (file', dups', rec')))"

section \<open>Duplicate chains\<close>

text \<open>\<open>dup_chain sz dups p ds\<close>: the records of the duplicate file reached from position \<open>p\<close>.\<close>

definition dup_chain ::
  "int \<Rightarrow> ('k, 'z) index_record_scheme list \<Rightarrow> physical_pos \<Rightarrow>
     ('k, 'z) index_record_scheme list \<Rightarrow> bool" where
  "dup_chain sz dups p ds \<longleftrightarrow> lseg (\<lambda>q. io_value (moveReadRecord 0 sz dups q)) dup_pos p ds (- 1)"

lemma dup_chain_Nil [simp]: "dup_chain sz dups p [] \<longleftrightarrow> p = - 1"
  by (simp add: dup_chain_def)

lemma dup_chain_Cons [simp]:
  "dup_chain sz dups p (d # ds) \<longleftrightarrow>
     moveReadRecord 0 sz dups p = Inr d \<and> dup_chain sz dups (dup_pos d) ds"
  by (simp add: dup_chain_def)

lemma dup_chain_neg1 [simp]: "dup_chain sz dups (- 1) ds \<longleftrightarrow> ds = []"
  by (cases ds) auto

lemma dup_chain_append: "dup_chain sz dups p ds \<Longrightarrow> dup_chain sz (dups @ es) p ds"
  unfolding dup_chain_def by (erule lseg_mono) (simp add: moveReadRecord_append)

lemma dup_chain_unique: "dup_chain sz dups p ds \<Longrightarrow> dup_chain sz dups p es \<Longrightarrow> ds = es"
  unfolding dup_chain_def by (erule lseg_unique) simp_all

lemma dup_chain_length:
  assumes "dup_chain sz dups p ds" "0 < sz"
  shows "length ds \<le> length dups"
proof -
  let ?S = "slot_pos 0 sz ` {..<length dups}"
  have "dom (\<lambda>q. io_value (moveReadRecord 0 sz dups q)) \<subseteq> ?S"
    using moveReadRecord_Inr[OF _ assms(2)] by (fastforce simp: dom_def)
  then have "length ds \<le> card ?S"
    using assms(1) unfolding dup_chain_def by (intro lseg_length) auto
  also have "\<dots> \<le> length dups"
    by (metis card_image_le card_lessThan finite_lessThan)
  finally show ?thesis .
qed

lemma rawRecords_loop_chain:
  "dup_chain sz dups (dup_pos r) ds \<Longrightarrow> length ds < n \<Longrightarrow>
     rawRecords_loop n sz dups r acc = Inr (acc @ map raw_pos ds)"
proof (induction ds arbitrary: n r acc)
  case Nil
  then show ?case by (cases n) auto
next
  case (Cons d ds)
  then obtain m where "n = Suc m" "length ds < m" by (cases n) auto
  with Cons show ?case by auto
qed

lemma getAllRawCurrentRecords_chain:
  "dup_chain sz dups (dup_pos r) ds \<Longrightarrow> 0 < sz \<Longrightarrow>
     getAllRawCurrentRecords sz dups r acc = Inr (acc @ raw_pos r # map raw_pos ds)"
  unfolding getAllRawCurrentRecords_def
  by (subst rawRecords_loop_chain) (auto dest: dup_chain_length)

text \<open>The chain after \<open>insertDuplicate\<close>: the new record, then the old chain.\<close>

lemma dup_chain_insert:
  assumes "dup_chain sz dups (dup_pos r) ds" "0 < sz"
  shows "dup_chain sz (dups @ [d\<lparr>dup_pos := dup_pos r\<rparr>]) (end_pos 0 sz dups)
           (d\<lparr>dup_pos := dup_pos r\<rparr> # ds)"
  using assms moveReadRecord_end[of 0 sz dups] by (simp add: dup_chain_append)

lemma insertDuplicate_eq:
  assumes "moveReadRecord base sz file (current rec) = Inr r0" "0 \<le> base" "0 < sz"
  shows "\<exists>file'. insertDuplicate base sz current file dups rec d =
           Inr (file', dups @ [d\<lparr>dup_pos := dup_pos rec\<rparr>], rec\<lparr>dup_pos := end_pos 0 sz dups\<rparr>) \<and>
         moveWriteRecord base sz file (current rec) (rec\<lparr>dup_pos := end_pos 0 sz dups\<rparr>) = Inr file'"
proof -
  obtain file' where
    "moveWriteRecord base sz file (current rec) (rec\<lparr>dup_pos := end_pos 0 sz dups\<rparr>) = Inr file'"
    using record_store.write_defined[OF record_file_store[OF assms(2,3)] assms(1)] by blast
  then show ?thesis by (simp add: insertDuplicate_def insertDuplicateFile_def Let_def)
qed

end
