(* ===== verification/SeqModel.thy ===== *)
theory SeqModel
  imports IndexBase
begin

text \<open>
  The sequential index (\<open>libs/Indexes/Sequential\<close>), as written: an index file whose records
  are sorted by key, an auxiliary file of records added since, and the duplicate file.  The records
  of the first two files are linked in key order from the header on; a link is a position and the
  tag of the file it is a position in.  \<open>PK\<close> says that the index is one of a primary key.
\<close>

section \<open>Data\<close>

type_synonym file_pos = char

abbreviation INDEXFILE :: file_pos where "INDEXFILE \<equiv> CHR ''f''"
abbreviation AUXFILE :: file_pos where "AUXFILE \<equiv> CHR ''a''"
abbreviation DUPFILE :: file_pos where "DUPFILE \<equiv> CHR ''d''"

record seq_header =
  sih_next_pos :: physical_pos
  sih_next_file :: file_pos

record 'k seq_record = "'k index_record" +
  current_pos :: physical_pos
  current_file :: file_pos
  next_pos :: physical_pos
  next_file :: file_pos

text \<open>The sizes for \<open>KEY_TYPE = int\<close> on x86-64; the lemmas use only that they are positive.\<close>

definition sizeof_sih :: int where "sizeof_sih = 24"
definition sizeof_sir :: int where "sizeof_sir = 88"

lemma sizeof_pos [simp]: "0 \<le> sizeof_sih" "0 < sizeof_sir" "sizeof_sir \<noteq> 0"
  by (simp_all add: sizeof_sih_def sizeof_sir_def)

text \<open>The files of the index are record stores: with a header, and without one.\<close>

interpretation index_records:
  record_store "moveReadRecord sizeof_sih sizeof_sir" "moveWriteRecord sizeof_sih sizeof_sir"
    "\<lambda>rs r. rs @ [r]" "end_pos sizeof_sih sizeof_sir"
  by (rule record_file_store) simp_all

interpretation aux_records:
  record_store "moveReadRecord 0 sizeof_sir" "moveWriteRecord 0 sizeof_sir"
    "\<lambda>rs r. rs @ [r]" "end_pos 0 sizeof_sir"
  by (rule record_file_store) simp_all

datatype status = EMPTY_FILE | REC_PREV | REC_CUR | REC_NEXT

text \<open>\<open>BinarySearchResponse\<close>; a record that was never read is \<open>None\<close>.\<close>

record 'k bsr =
  location :: status
  header :: bool
  sih :: seq_header
  sir_prev :: "'k seq_record option"
  sir_cur :: "'k seq_record option"
  sir_next :: "'k seq_record option"

record 'k seq_index =
  index_header :: seq_header
  index_file :: "'k seq_record list"
  aux_file :: "'k seq_record list"
  duplicates_file :: "'k seq_record list"

definition seq_setNext :: "'k seq_record \<Rightarrow> physical_pos \<Rightarrow> file_pos \<Rightarrow> 'k seq_record" where
  "seq_setNext r p f = r\<lparr>next_pos := p, next_file := f\<rparr>"

definition seq_setCurrent :: "'k seq_record \<Rightarrow> physical_pos \<Rightarrow> file_pos \<Rightarrow> 'k seq_record" where
  "seq_setCurrent r p f = r\<lparr>current_pos := p, current_file := f\<rparr>"

text \<open>A default-constructed record with data, raw position and no duplicates, as \<open>add\<close> makes it.\<close>

definition new_seq_record :: "'k \<Rightarrow> physical_pos \<Rightarrow> 'k seq_record" where
  "new_seq_record d raw =
     \<lparr>data = d, raw_pos = raw, dup_pos = END_OF_FILE, current_pos = 0, current_file = CHR 0x00,
      next_pos = 0, next_file = CHR 0x00\<rparr>"

text \<open>\<open>createFile\<close>: an index file with only a header, and two empty files.\<close>

definition createFile :: "'k seq_index" where
  "createFile = \<lparr>index_header = \<lparr>sih_next_pos = END_OF_FILE, sih_next_file = INDEXFILE\<rparr>,
     index_file = [], aux_file = [], duplicates_file = []\<rparr>"

section \<open>Access to the files\<close>

definition read_index :: "'k seq_index \<Rightarrow> physical_pos \<Rightarrow> 'k seq_record io" where
  "read_index s p = moveReadRecord sizeof_sih sizeof_sir (index_file s) p"

definition read_aux :: "'k seq_index \<Rightarrow> physical_pos \<Rightarrow> 'k seq_record io" where
  "read_aux s p = moveReadRecord 0 sizeof_sir (aux_file s) p"

definition write_index :: "'k seq_index \<Rightarrow> physical_pos \<Rightarrow> 'k seq_record \<Rightarrow> 'k seq_index io" where
  "write_index s p r =
     bind_io (moveWriteRecord sizeof_sih sizeof_sir (index_file s) p r)
       (\<lambda>xs. Inr (s\<lparr>index_file := xs\<rparr>))"

definition write_aux :: "'k seq_index \<Rightarrow> physical_pos \<Rightarrow> 'k seq_record \<Rightarrow> 'k seq_index io" where
  "write_aux s p r =
     bind_io (moveWriteRecord 0 sizeof_sir (aux_file s) p r) (\<lambda>xs. Inr (s\<lparr>aux_file := xs\<rparr>))"

text \<open>\<open>if (file == INDEXFILE) \<dots> indexFile \<dots> else \<dots> auxFile\<close>, as the code branches on a tag.\<close>

definition read_tagged :: "'k seq_index \<Rightarrow> file_pos \<Rightarrow> physical_pos \<Rightarrow> 'k seq_record io" where
  "read_tagged s f p = (if f = INDEXFILE then read_index s p else read_aux s p)"

definition write_tagged ::
  "'k seq_index \<Rightarrow> file_pos \<Rightarrow> physical_pos \<Rightarrow> 'k seq_record \<Rightarrow> 'k seq_index io" where
  "write_tagged s f p r = (if f = INDEXFILE then write_index s p r else write_aux s p r)"

text \<open>
  \<open>writeHeader\<close> on one of the two files.  The auxiliary file has no header: the bytes go over
  the front of its first record.  What that record reads as afterwards depends on the layout of
  the two structures; \<open>ov\<close> is that function of the written header and the old record.
\<close>

definition writeHeader_tagged ::
  "(seq_header \<Rightarrow> 'k seq_record \<Rightarrow> 'k seq_record) \<Rightarrow> 'k seq_index \<Rightarrow> file_pos \<Rightarrow> seq_header \<Rightarrow>
     'k seq_index io" where
  "writeHeader_tagged ov s f h =
     (if f = INDEXFILE then Inr (s\<lparr>index_header := h\<rparr>)
      else (case aux_file s of
              [] \<Rightarrow> Inl Misaligned
            | r # rs \<Rightarrow> Inr (s\<lparr>aux_file := ov h r # rs\<rparr>)))"

definition seq_raw_records ::
  "'k seq_index \<Rightarrow> 'k seq_record \<Rightarrow> physical_pos list \<Rightarrow> physical_pos list io" where
  "seq_raw_records s r records = getAllRawCurrentRecords sizeof_sir (duplicates_file s) r records"

text \<open>\<open>insertDuplicate\<close> with the file a tag names; the record's chain grows at its front.\<close>

definition seq_insertDuplicate ::
  "'k seq_index \<Rightarrow> file_pos \<Rightarrow> 'k seq_record \<Rightarrow> 'k seq_record \<Rightarrow>
     ('k seq_index \<times> 'k seq_record) io" where
  "seq_insertDuplicate s f rec rec_dup =
     (if f = INDEXFILE then
        bind_io (insertDuplicate sizeof_sih sizeof_sir current_pos (index_file s)
                   (duplicates_file s) rec rec_dup)
          (\<lambda>(xs, ds, rec'). Inr (s\<lparr>index_file := xs, duplicates_file := ds\<rparr>, rec'))
      else
        bind_io (insertDuplicate 0 sizeof_sir current_pos (aux_file s)
                   (duplicates_file s) rec rec_dup)
          (\<lambda>(xs, ds, rec'). Inr (s\<lparr>aux_file := xs, duplicates_file := ds\<rparr>, rec')))"

end
