(* ===== verification/SeqBinarySearch.thy ===== *)
theory SeqBinarySearch
  imports SeqModel
begin

text \<open>
  \<open>SequentialIndex::binarySearch\<close>: the binary search of the index file, and its
  specification.  The source searches with a right end one past the last record and stops at the
  record it looks for or at a gap between neighbours; the lemmas show that it always stops there,
  never reads outside the file and never looks at a record it has not read.
\<close>

section \<open>The search\<close>

text \<open>What one round reads: the record in the middle and its neighbours in the file.\<close>

definition binarySearch_read ::
  "'k seq_index \<Rightarrow> int \<Rightarrow> seq_header \<Rightarrow> 'k seq_record option \<Rightarrow> 'k seq_record option \<Rightarrow>
     (seq_header \<times> 'k seq_record option \<times> 'k seq_record \<times> 'k seq_record option) io" where
  "binarySearch_read s mid h prev nxt =
     (let physical_mid = sizeof_sih + mid * sizeof_sir;
          physical_last = end_pos sizeof_sih sizeof_sir (index_file s)
      in bind_io (read_index s physical_mid) (\<lambda>cur.
           bind_io (if current_pos cur \<noteq> sizeof_sih
                    then bind_io (read_index s (physical_mid + sizeof_sir - 2 * sizeof_sir))
                           (\<lambda>p. Inr (h, Some p, physical_mid))
                    else Inr (index_header s, prev, sizeof_sih)) (\<lambda>(h', prev', stream_pos).
           bind_io (if current_pos cur + sizeof_sir \<noteq> physical_last
                    then bind_io (read_index s (stream_pos + sizeof_sir)) (\<lambda>n. Inr (Some n))
                    else Inr nxt) (\<lambda>nxt'.
           Inr (h', prev', cur, nxt')))))"

function binarySearch_loop ::
  "'k :: linorder seq_index \<Rightarrow> 'k \<Rightarrow> int \<Rightarrow> int \<Rightarrow> seq_header \<Rightarrow> 'k seq_record option \<Rightarrow>
     'k seq_record option \<Rightarrow> 'k seq_record option \<Rightarrow> 'k bsr io" where
  "binarySearch_loop s d left right h prev cur nxt =
     (if left \<le> right then
        bind_io (binarySearch_read s ((left + right) div 2) h prev nxt) (\<lambda>(h', prev', cur', nxt').
        let physical_last = end_pos sizeof_sih sizeof_sir (index_file s);
            found = (\<lambda>l. \<lparr>location = l, header = False, sih = \<lparr>sih_next_pos = END_OF_FILE, sih_next_file = INDEXFILE\<rparr>,
                       sir_prev = prev', sir_cur = Some cur', sir_next = nxt'\<rparr>)
        in if data cur' = d then Inr (found REC_CUR)
           else if current_pos cur' + sizeof_sir = physical_last \<and> data cur' < d
             then Inr (found REC_NEXT)
           else if current_pos cur' = sizeof_sih \<and> d < data cur'
             then Inr ((found REC_PREV)\<lparr>header := True, sih := h'\<rparr>)
           else bind_io (init_value prev') (\<lambda>p.
             if data p < d \<and> d < data cur' then Inr (found REC_PREV)
             else if data cur' < d then
               bind_io (init_value nxt') (\<lambda>n.
                 if d < data n then Inr (found REC_NEXT)
                 else binarySearch_loop s d ((left + right) div 2 + 1) right h' prev' (Some cur') nxt')
             else binarySearch_loop s d left ((left + right) div 2 - 1) h' prev' (Some cur') nxt'))
      else Inr \<lparr>location = EMPTY_FILE, header = False, sih = \<lparr>sih_next_pos = END_OF_FILE, sih_next_file = INDEXFILE\<rparr>,
             sir_prev = prev, sir_cur = cur, sir_next = nxt\<rparr>)"
  by pat_completeness auto
termination
  by (relation "measure (\<lambda>(s, d, left, right, _). nat (right - left + 1))") auto

declare binarySearch_loop.simps [simp del]

definition binarySearch :: "'k :: linorder seq_index \<Rightarrow> 'k \<Rightarrow> 'k bsr io" where
  "binarySearch s d =
     (let physical_last = end_pos sizeof_sih sizeof_sir (index_file s);
          sih0 = \<lparr>sih_next_pos = END_OF_FILE, sih_next_file = INDEXFILE\<rparr>
      in if physical_last = sizeof_sih
         then Inr \<lparr>location = EMPTY_FILE, header = False, sih = sih0,
                sir_prev = None, sir_cur = None, sir_next = None\<rparr>
         else binarySearch_loop s d 0 ((physical_last - sizeof_sih) div sizeof_sir) sih0 None None None)"

section \<open>What it finds\<close>

text \<open>
  The records of the index file say where they are, and their keys increase.
\<close>

definition index_sorted :: "'k :: linorder seq_record list \<Rightarrow> bool" where
  "index_sorted xs \<longleftrightarrow> sorted_wrt (<) (map data xs) \<and>
     (\<forall>i<length xs. current_pos (xs ! i) = slot_pos sizeof_sih sizeof_sir i)"

text \<open>
  The four ways a search ends: at the record with the key, in front of the first record, or in a
  gap, which it reports from the record after it (\<open>Prev\<close>) or before it (\<open>Next\<close>).  In front of the first record
  \<open>sir_prev\<close> is what an earlier round left there, which is some record of the file if it has more than one.
\<close>

inductive bs_found :: "'k :: linorder seq_record list \<Rightarrow> seq_header \<Rightarrow> 'k \<Rightarrow> 'k bsr \<Rightarrow> bool"
  for xs h d where
  Cur: "i < length xs \<Longrightarrow> location b = REC_CUR \<Longrightarrow> \<not> header b \<Longrightarrow> sir_cur b = Some (xs ! i) \<Longrightarrow>
    data (xs ! i) = d \<Longrightarrow> (0 < i \<longrightarrow> sir_prev b = Some (xs ! (i - 1))) \<Longrightarrow> bs_found xs h d b"
| Front: "xs \<noteq> [] \<Longrightarrow> location b = REC_PREV \<Longrightarrow> header b \<Longrightarrow> sih b = h \<Longrightarrow> sir_cur b = Some (xs ! 0) \<Longrightarrow>
    d < data (xs ! 0) \<Longrightarrow> (if length xs = 1 then sir_prev b = None else \<exists>r\<in>set xs. sir_prev b = Some r) \<Longrightarrow> bs_found xs h d b"
| Prev: "0 < i \<Longrightarrow> i < length xs \<Longrightarrow> location b = REC_PREV \<Longrightarrow> \<not> header b \<Longrightarrow>
    sir_prev b = Some (xs ! (i - 1)) \<Longrightarrow> sir_cur b = Some (xs ! i) \<Longrightarrow>
    data (xs ! (i - 1)) < d \<Longrightarrow> d < data (xs ! i) \<Longrightarrow> bs_found xs h d b"
| Next: "i < length xs \<Longrightarrow> location b = REC_NEXT \<Longrightarrow> \<not> header b \<Longrightarrow> sir_cur b = Some (xs ! i) \<Longrightarrow>
    data (xs ! i) < d \<Longrightarrow> (Suc i < length xs \<longrightarrow> d < data (xs ! Suc i)) \<Longrightarrow> bs_found xs h d b"

lemma read_index_slot:
  "i < length (index_file s) \<Longrightarrow> read_index s (slot_pos sizeof_sih sizeof_sir i) = Inr (index_file s ! i)"
  by (simp add: read_index_def moveReadRecord_slot)

lemma binarySearch_read_eq:
  assumes "index_sorted (index_file s)" "mid = int m" "m < length (index_file s)"
  shows "binarySearch_read s mid h prev nxt =
     Inr (if m = 0 then index_header s else h,
          if m = 0 then prev else Some (index_file s ! (m - 1)),
          index_file s ! m,
          if Suc m = length (index_file s) then nxt else Some (index_file s ! Suc m))"
proof -
  have mid: "sizeof_sih + mid * sizeof_sir = slot_pos sizeof_sih sizeof_sir m"
    using assms(2) by (simp add: slot_pos_def)
  have sz: "slot_pos sizeof_sih sizeof_sir i + sizeof_sir = slot_pos sizeof_sih sizeof_sir (Suc i)" for i
    by (simp add: slot_pos_def algebra_simps)
  have before: "slot_pos sizeof_sih sizeof_sir m + sizeof_sir - 2 * sizeof_sir =
      slot_pos sizeof_sih sizeof_sir (m - 1)" if "m \<noteq> 0"
    using that by (cases m) (simp_all add: slot_pos_def algebra_simps)
  have first: "slot_pos sizeof_sih sizeof_sir m = sizeof_sih \<longleftrightarrow> m = 0"
    using slot_pos_inject[of sizeof_sir sizeof_sih m 0] by (simp add: slot_pos_def)
  have last: "slot_pos sizeof_sih sizeof_sir (Suc m) =
      slot_pos sizeof_sih sizeof_sir (length (index_file s)) \<longleftrightarrow> Suc m = length (index_file s)"
    by (rule slot_pos_inject) simp
  have zero: "sizeof_sih + sizeof_sir = slot_pos sizeof_sih sizeof_sir (Suc 0)"
    by (simp add: slot_pos_def)
  show ?thesis
    using assms(1,3) before first last
    by (simp add: binarySearch_read_def Let_def mid read_index_slot index_sorted_def sz end_pos_def
        zero read_index_slot[of "m - 1"])
qed

text \<open>One round, once the reads are known to succeed.\<close>

lemma index_sorted_data:
  "index_sorted xs \<Longrightarrow> i < length xs \<Longrightarrow> j < length xs \<Longrightarrow> data (xs ! i) < data (xs ! j) \<longleftrightarrow> i < j"
  using sorted_wrt_less_nth[of "map data xs" i j] by (simp add: index_sorted_def)

lemma index_sorted_first:
  "index_sorted xs \<Longrightarrow> i < length xs \<Longrightarrow> current_pos (xs ! i) = sizeof_sih \<longleftrightarrow> i = 0"
  using slot_pos_inject[of sizeof_sir sizeof_sih i 0] by (simp add: index_sorted_def slot_pos_def)

lemma index_sorted_last:
  "index_sorted xs \<Longrightarrow> i < length xs \<Longrightarrow>
     current_pos (xs ! i) + sizeof_sir = end_pos sizeof_sih sizeof_sir xs \<longleftrightarrow> Suc i = length xs"
  using slot_pos_inject[of sizeof_sir sizeof_sih "Suc i" "length xs"]
  by (simp add: index_sorted_def end_pos_def slot_pos_def algebra_simps)

lemma half_between: "l \<le> r \<Longrightarrow> (int l + int r) div 2 = int ((l + r) div 2)"
  by (simp add: zdiv_int)

lemma binarySearch_loop_found:
  assumes sorted: "index_sorted (index_file s)" and ne: "index_file s \<noteq> []"
    and bounds: "l \<le> r" "r \<le> length (index_file s)"
    and left: "l = 0 \<or> l < length (index_file s) \<and> data (index_file s ! l) \<le> d"
    and right: "r = length (index_file s) \<or> r < length (index_file s) \<and> d \<le> data (index_file s ! r)"
    and prev: "prev \<noteq> None \<or> l = 0 \<and> r = length (index_file s)"
      "\<forall>p. prev = Some p \<longrightarrow> p \<in> set (index_file s) \<and> length (index_file s) \<noteq> 1"
  shows "\<exists>b. binarySearch_loop s d (int l) (int r) h prev cur nxt = Inr b \<and>
             bs_found (index_file s) (index_header s) d b"
  using bounds left right prev
proof (induction "r - l" arbitrary: l r h prev cur nxt rule: less_induct)
  case less
  let ?xs = "index_file s" and ?n = "length (index_file s)"
  define m where "m = (l + r) div 2"
  have m: "m < ?n" "l \<le> m" "m \<le> r" using less.prems ne by (auto simp: m_def)
  have mid: "(int l + int r) div 2 = int m"
    using less.prems(1) by (simp add: half_between m_def)
  define prev' where "prev' = (if m = 0 then prev else Some (?xs ! (m - 1)))"
  define h' where "h' = (if m = 0 then index_header s else h)"
  define nxt' where "nxt' = (if Suc m = ?n then nxt else Some (?xs ! Suc m))"
  note unfold = binarySearch_loop.simps[of s d "int l" "int r" h prev cur nxt]
  have rd: "binarySearch_read s (int m) h prev nxt = Inr (h', prev', ?xs ! m, nxt')"
    using binarySearch_read_eq[OF sorted refl m(1)] by (simp add: h'_def prev'_def nxt'_def)
  have prev'_in: "\<forall>p. prev' = Some p \<longrightarrow> p \<in> set ?xs \<and> ?n \<noteq> 1"
    using less.prems(6) m(1) by (auto simp: prev'_def)
  note first = index_sorted_first[OF sorted m(1)] and last = index_sorted_last[OF sorted m(1)]
  have prev'_init: "prev' \<noteq> None" if "Suc m \<noteq> ?n \<or> m \<noteq> 0"
  proof (cases "m = 0 \<and> prev = None")
    case True
    with less.prems(5) have "?n div 2 = 0" by (simp add: m_def)
    moreover have "0 < ?n" using ne by simp
    ultimately have "?n = 1" by linarith
    with True that show ?thesis by simp
  qed (auto simp: prev'_def)
  consider (here) "data (?xs ! m) = d" | (above) "data (?xs ! m) < d" | (below) "d < data (?xs ! m)"
    by force
  then show ?case
  proof cases
    case here
    then show ?thesis using less.prems(1) m
      by (auto simp: unfold mid rd Let_def prev'_def intro!: bs_found.Cur[of m])
  next
    case above
    show ?thesis
    proof (cases "Suc m = ?n")
      case True
      with above show ?thesis using less.prems(1) m last
        by (auto simp: unfold mid rd Let_def intro!: bs_found.Next[of m])
    next
      case inner: False
      then have nxt': "nxt' = Some (?xs ! Suc m)" and Sm: "Suc m < ?n" using m by (auto simp: nxt'_def)
      obtain p where p: "prev' = Some p" using prev'_init inner by auto
      show ?thesis
      proof (cases "d < data (?xs ! Suc m)")
        case True
        with above show ?thesis using less.prems(1) m last inner p nxt'
          by (auto simp: unfold mid rd Let_def intro!: bs_found.Next[of m])
      next
        case False
        have "m < r"
          using less.prems(4) Sm above m index_sorted_data[OF sorted m(1), of r] by auto
        then have "\<exists>b. binarySearch_loop s d (int (Suc m)) (int r) h' prev' (Some (?xs ! m)) nxt' = Inr b \<and>
             bs_found ?xs (index_header s) d b"
          using False Sm less.prems(2,4) p m prev'_in by (intro less.hyps) auto
        with above False show ?thesis using less.prems(1) last inner p nxt'
          by (auto simp: unfold mid rd Let_def add.commute)
      qed
    qed
  next
    case below
    show ?thesis
    proof (cases "m = 0")
      case True
      with below less.prems(1) first have "binarySearch_loop s d (int l) (int r) h prev cur nxt =
          Inr \<lparr>location = REC_PREV, header = True, sih = index_header s,
            sir_prev = prev', sir_cur = Some (?xs ! 0), sir_next = nxt'\<rparr>"
        by (subst unfold) (auto simp: mid rd[unfolded True] h'_def Let_def True simp del: of_nat_0)
      moreover have "if ?n = 1 then prev' = None else \<exists>r\<in>set ?xs. prev' = Some r"
      proof (cases prev')
        case None
        then have "Suc m = ?n" using prev'_init by blast
        with None True show ?thesis by simp
      qed (use prev'_in in simp)
      ultimately show ?thesis using True below ne by (auto intro!: bs_found.Front)
    next
      case inner: False
      then have p: "prev' = Some (?xs ! (m - 1))" by (simp add: prev'_def)
      show ?thesis
      proof (cases "data (?xs ! (m - 1)) < d")
        case True
        with below show ?thesis using less.prems(1) m first inner p
          by (auto simp: unfold mid rd Let_def intro!: bs_found.Prev[of m])
      next
        case False
        have "l < m"
          using less.prems(3) below m inner index_sorted_data[OF sorted _ m(1), of l] by auto
        then have "\<exists>b. binarySearch_loop s d (int l) (int (m - 1)) h' prev' (Some (?xs ! m)) nxt' = Inr b \<and>
             bs_found ?xs (index_header s) d b"
          using False less.prems(3) p m prev'_in by (intro less.hyps) auto
        with below False inner show ?thesis using less.prems(1) first p
          by (auto simp: unfold mid rd Let_def of_nat_diff)
      qed
    qed
  qed
qed

lemma binarySearch_found:
  assumes "index_sorted (index_file s)" "index_file s \<noteq> []"
  shows "\<exists>b. binarySearch s d = Inr b \<and> bs_found (index_file s) (index_header s) d b"
proof -
  have "end_pos sizeof_sih sizeof_sir (index_file s) \<noteq> sizeof_sih"
    using assms(2) by (simp add: end_pos_def slot_pos_def)
  moreover have "(end_pos sizeof_sih sizeof_sir (index_file s) - sizeof_sih) div sizeof_sir =
      int (length (index_file s))" by (simp add: end_pos_def)
  ultimately show ?thesis
    using binarySearch_loop_found[OF assms, of 0 "length (index_file s)"]
    by (simp add: binarySearch_def Let_def)
qed

lemma binarySearch_empty:
  "index_file s = [] \<Longrightarrow> \<exists>b. binarySearch s d = Inr b \<and> location b = EMPTY_FILE"
  by (simp add: binarySearch_def end_pos_def slot_pos_def)

end
