(* ===== verification/SeqOps.thy ===== *)
theory SeqOps
  imports SeqBinarySearch
begin

text \<open>
  The operations of the sequential index (\<open>sequential_index.tpp\<close>), one definition per
  member function and per loop of one.  The loops that follow links only read; a bound of one more
  than the number of records they can meet loses no run that returns.
\<close>

section \<open>Insertion\<close>

definition insertAuxFile :: "'k seq_index \<Rightarrow> 'k seq_record \<Rightarrow> 'k seq_index \<times> 'k seq_record" where
  "insertAuxFile s sir =
     (let sir' = seq_setCurrent sir (end_pos 0 sizeof_sir (aux_file s)) AUXFILE
      in (s\<lparr>aux_file := aux_file s @ [sir']\<rparr>, sir'))"

text \<open>\<open>file\<close> is the stream the predecessor (or the header) is written to.\<close>

definition insertAfterRecord ::
  "(seq_header \<Rightarrow> 'k seq_record \<Rightarrow> 'k seq_record) \<Rightarrow> 'k seq_index \<Rightarrow> file_pos \<Rightarrow>
     'k seq_record option \<Rightarrow> 'k seq_record \<Rightarrow> seq_header \<Rightarrow> bool \<Rightarrow> 'k seq_index io" where
  "insertAfterRecord ov s file prev sir h hdr =
     (if hdr then
        (let (s1, sir1) = insertAuxFile s (seq_setNext sir (sih_next_pos h) (sih_next_file h))
         in writeHeader_tagged ov s1 file
              \<lparr>sih_next_pos = current_pos sir1, sih_next_file = current_file sir1\<rparr>)
      else
        bind_io (init_value prev) (\<lambda>prev.
        let (s1, sir1) = insertAuxFile s (seq_setNext sir (next_pos prev) (next_file prev));
            prev' = seq_setNext prev (current_pos sir1) (current_file sir1)
        in write_tagged s1 file (current_pos prev') prev'))"

text \<open>\<open>insertAux\<close>: the duplicate case, with the check of the primary key.\<close>

definition insertAux_duplicate ::
  "bool \<Rightarrow> 'k seq_index \<Rightarrow> 'k seq_record \<Rightarrow> 'k seq_record \<Rightarrow> 'k seq_index io" where
  "insertAux_duplicate pk s cur sir =
     (if pk then Inl RuntimeError
      else bind_io (seq_insertDuplicate s AUXFILE cur sir) (\<lambda>(s', _). Inr s'))"

text \<open>
  The loop over the auxiliary records and the test after it.  The loop is left with \<open>break\<close> only
  where \<open>next_file cur \<noteq> INDEXFILE\<close>, so the test after it does nothing then.
\<close>

fun insertAux_loop ::
  "nat \<Rightarrow> (seq_header \<Rightarrow> 'k :: linorder seq_record \<Rightarrow> 'k seq_record) \<Rightarrow> bool \<Rightarrow> 'k seq_index \<Rightarrow>
     seq_header \<Rightarrow> 'k seq_record \<Rightarrow> 'k seq_record \<Rightarrow> 'k seq_record \<Rightarrow> 'k seq_index io" where
  "insertAux_loop 0 ov pk s h prev cur sir = Inl OutOfFuel"
| "insertAux_loop (Suc n) ov pk s h prev cur sir =
     (if next_file cur \<noteq> INDEXFILE then
        (if data cur = data sir then insertAux_duplicate pk s cur sir
         else if data prev < data sir \<and> data sir < data cur
           then insertAfterRecord ov s AUXFILE (Some prev) sir h False
         else bind_io (read_aux s (next_pos cur)) (\<lambda>cur'. insertAux_loop n ov pk s h cur cur' sir))
      else if data cur = data sir then insertAux_duplicate pk s cur sir
      else if data cur < data sir then insertAfterRecord ov s AUXFILE (Some cur) sir h False
      else insertAfterRecord ov s AUXFILE (Some prev) sir h False)"

definition insertAux ::
  "(seq_header \<Rightarrow> 'k :: linorder seq_record \<Rightarrow> 'k seq_record) \<Rightarrow> bool \<Rightarrow> 'k seq_index \<Rightarrow>
     'k seq_record option \<Rightarrow> 'k seq_record \<Rightarrow> 'k bsr \<Rightarrow> 'k seq_index io" where
  "insertAux ov pk s sir_init sir b =
     (let loop = insertAux_loop (Suc (length (aux_file s))) ov pk s (sih b)
      in if header b then
           bind_io (read_aux s (sih_next_pos (sih b))) (\<lambda>cur.
           if data sir < data cur then insertAfterRecord ov s AUXFILE sir_init sir (sih b) True
           else if data sir = data cur then insertAux_duplicate pk s cur sir
           else if next_file cur = INDEXFILE
             then insertAfterRecord ov s AUXFILE (Some cur) sir (sih b) False
           else bind_io (read_aux s (next_pos cur)) (\<lambda>cur'. loop cur cur' sir))
         else
           bind_io (init_value sir_init) (\<lambda>prev.
           bind_io (read_aux s (next_pos prev)) (\<lambda>cur.
           if data prev < data sir \<and> data sir < data cur
           then insertAfterRecord ov s INDEXFILE (Some prev) sir (sih b) False
           else loop prev cur sir)))"

section \<open>Rebuild\<close>

fun rebuild_dups ::
  "nat \<Rightarrow> 'k seq_record list \<Rightarrow> 'k seq_record list \<Rightarrow> 'k seq_record \<Rightarrow> 'k seq_record list io" where
  "rebuild_dups 0 dups new_dups sir_dup = Inl OutOfFuel"
| "rebuild_dups (Suc n) dups new_dups sir_dup =
     (let current_dup_pos = end_pos 0 sizeof_sir new_dups;
          sir_dup1 = seq_setCurrent sir_dup current_dup_pos DUPFILE;
          next_dup = dup_pos sir_dup1;
          sir_dup2 = (if next_dup = END_OF_FILE then sir_dup1\<lparr>dup_pos := END_OF_FILE\<rparr>
                      else sir_dup1\<lparr>dup_pos := current_dup_pos + sizeof_sir\<rparr>);
          new_dups' = new_dups @ [sir_dup2]
      in if next_dup = END_OF_FILE then Inr new_dups'
         else bind_io (moveReadRecord 0 sizeof_sir dups next_dup)
                (rebuild_dups n dups new_dups'))"

definition rebuild_chain ::
  "'k seq_record list \<Rightarrow> 'k seq_record list \<Rightarrow> 'k seq_record \<Rightarrow>
     ('k seq_record list \<times> 'k seq_record) io" where
  "rebuild_chain dups new_dups sir =
     (if dup_pos sir \<noteq> END_OF_FILE then
        bind_io (moveReadRecord 0 sizeof_sir dups (dup_pos sir)) (\<lambda>sir_dup.
        bind_io (rebuild_dups (Suc (length dups)) dups new_dups sir_dup) (\<lambda>new_dups'.
        Inr (new_dups', sir\<lparr>dup_pos := end_pos 0 sizeof_sir new_dups\<rparr>)))
      else Inr (new_dups, sir))"

fun rebuild_loop ::
  "nat \<Rightarrow> 'k seq_index \<Rightarrow> 'k seq_record list \<Rightarrow> 'k seq_record list \<Rightarrow> 'k seq_record \<Rightarrow>
     ('k seq_record list \<times> 'k seq_record list) io" where
  "rebuild_loop 0 s new_index new_dups sir = Inl OutOfFuel"
| "rebuild_loop (Suc n) s new_index new_dups sir =
     bind_io (rebuild_chain (duplicates_file s) new_dups sir) (\<lambda>(new_dups', sir1).
     let current = end_pos sizeof_sih sizeof_sir new_index;
         sir2 = seq_setCurrent sir1 current INDEXFILE;
         next_move = next_pos sir2;
         nxt_file = next_file sir2;
         sir3 = (if next_move = END_OF_FILE then seq_setNext sir2 END_OF_FILE INDEXFILE
                 else seq_setNext sir2 (current + sizeof_sir) INDEXFILE);
         new_index' = new_index @ [sir3]
     in if next_move = END_OF_FILE then Inr (new_index', new_dups')
        else bind_io (read_tagged s nxt_file next_move) (rebuild_loop n s new_index' new_dups'))"

definition rebuild :: "'k seq_index \<Rightarrow> 'k seq_index io" where
  "rebuild s =
     (if sih_next_pos (index_header s) \<noteq> END_OF_FILE then
        bind_io (read_tagged s (sih_next_file (index_header s)) (sih_next_pos (index_header s))) (\<lambda>sir.
        bind_io (rebuild_loop (Suc (length (index_file s) + length (aux_file s))) s [] [] sir)
          (\<lambda>(new_index, new_dups).
        Inr \<lparr>index_header = \<lparr>sih_next_pos = sizeof_sih, sih_next_file = INDEXFILE\<rparr>,
             index_file = new_index, aux_file = [], duplicates_file = new_dups\<rparr>))
      else
        Inr \<lparr>index_header = \<lparr>sih_next_pos = END_OF_FILE, sih_next_file = INDEXFILE\<rparr>,
             index_file = [], aux_file = [], duplicates_file = []\<rparr>)"

section \<open>Adding a key\<close>

text \<open>
  \<open>log2(indexRecords) >= auxRecords\<close>, on exact numbers: for no records of the index file the
  logarithm is minus infinity and the test fails.
\<close>

definition validNumberRecords :: "'k seq_index \<Rightarrow> bool" where
  "validNumberRecords s \<longleftrightarrow>
     2 ^ nat (numberRecords sizeof_sir (aux_file s)) \<le>
       numberRecordsWithHeader sizeof_sih sizeof_sir (index_file s)"

text \<open>The \<open>try\<close> block of \<open>add(data, raw_pos, rebuild)\<close>: the new files and the positions recorded.\<close>

definition add_place ::
  "(seq_header \<Rightarrow> 'k :: linorder seq_record \<Rightarrow> 'k seq_record) \<Rightarrow> bool \<Rightarrow> 'k seq_index \<Rightarrow> 'k \<Rightarrow>
     physical_pos \<Rightarrow> ('k seq_index \<times> physical_pos list) io" where
  "add_place ov pk s d raw =
     (let sir = new_seq_record d raw;
          no_records = (\<lambda>m. bind_io m (\<lambda>s'. Inr (s', [])))
      in bind_io (binarySearch s d) (\<lambda>b.
         if location b = EMPTY_FILE then
           (let sir' = seq_setNext (seq_setCurrent sir sizeof_sih INDEXFILE) END_OF_FILE INDEXFILE
            in bind_io (write_index (s\<lparr>index_header := \<lparr>sih_next_pos = sizeof_sih, sih_next_file = INDEXFILE\<rparr>\<rparr>)
                          sizeof_sih sir') (\<lambda>s'. Inr (s', [raw])))
         else if header b \<and> sih_next_file (sih b) = INDEXFILE then
           no_records (insertAfterRecord ov s INDEXFILE (sir_prev b) sir (sih b) (header b))
         else if header b then no_records (insertAux ov pk s (sir_prev b) sir b)
         else if location b = REC_PREV then
           bind_io (init_value (sir_prev b)) (\<lambda>p.
           if next_file p = INDEXFILE
           then no_records (insertAfterRecord ov s INDEXFILE (Some p) sir (sih b) (header b))
           else no_records (insertAux ov pk s (Some p) sir b))
         else bind_io (init_value (sir_cur b)) (\<lambda>c.
           if location b = REC_CUR then
             (if pk then Inl RuntimeError
              else bind_io (seq_insertDuplicate s INDEXFILE c sir) (\<lambda>(s', _). Inr (s', [])))
           else if next_file c = INDEXFILE
             then no_records (insertAfterRecord ov s INDEXFILE (Some c) sir (sih b) (header b))
           else no_records (insertAux ov pk s (Some c) sir b))))"

definition seq_add_rebuild ::
  "(seq_header \<Rightarrow> 'k :: linorder seq_record \<Rightarrow> 'k seq_record) \<Rightarrow> bool \<Rightarrow> bool \<Rightarrow> 'k seq_index \<Rightarrow>
     'k \<Rightarrow> physical_pos \<Rightarrow> ('k seq_index \<times> physical_pos list) io" where
  "seq_add_rebuild ov pk rebuild_flag s d raw =
     bind_io (add_place ov pk s d raw) (\<lambda>(s', records).
     if rebuild_flag \<and> \<not> validNumberRecords s'
     then bind_io (rebuild s') (\<lambda>s''. Inr (s'', records @ [raw]))
     else Inr (s', records @ [raw]))"

definition seq_add ::
  "(seq_header \<Rightarrow> 'k :: linorder seq_record \<Rightarrow> 'k seq_record) \<Rightarrow> bool \<Rightarrow> 'k seq_index \<Rightarrow> 'k \<Rightarrow>
     physical_pos \<Rightarrow> ('k seq_index \<times> physical_pos list) io" where
  "seq_add ov pk s d raw = seq_add_rebuild ov pk True s d raw"

definition seq_addNotRebuild ::
  "(seq_header \<Rightarrow> 'k :: linorder seq_record \<Rightarrow> 'k seq_record) \<Rightarrow> bool \<Rightarrow> 'k seq_index \<Rightarrow> 'k \<Rightarrow>
     physical_pos \<Rightarrow> ('k seq_index \<times> physical_pos list) io" where
  "seq_addNotRebuild ov pk s d raw = seq_add_rebuild ov pk False s d raw"

text \<open>\<open>loadRecords\<close>: adds every pair, then rebuilds once.\<close>

fun loadRecords_loop ::
  "(seq_header \<Rightarrow> 'k :: linorder seq_record \<Rightarrow> 'k seq_record) \<Rightarrow> bool \<Rightarrow> 'k seq_index \<Rightarrow>
     ('k \<times> physical_pos) list \<Rightarrow> 'k seq_index io" where
  "loadRecords_loop ov pk s [] = Inr s"
| "loadRecords_loop ov pk s ((d, raw) # xs) =
     bind_io (seq_addNotRebuild ov pk s d raw) (\<lambda>(s', _). loadRecords_loop ov pk s' xs)"

definition loadRecords ::
  "(seq_header \<Rightarrow> 'k :: linorder seq_record \<Rightarrow> 'k seq_record) \<Rightarrow> bool \<Rightarrow> 'k seq_index \<Rightarrow>
     ('k \<times> physical_pos) list \<Rightarrow> 'k seq_index io" where
  "loadRecords ov pk s xs = bind_io (loadRecords_loop ov pk s xs) rebuild"

end
