(* ===== verification/SeqQueries.thy ===== *)
theory SeqQueries
  imports SeqOps
begin

text \<open>
  The queries, the removal and the bulk insertion of the sequential index
  (\<open>sequential_index.tpp\<close>).
\<close>

section \<open>Search\<close>

fun searchAux_loop ::
  "nat \<Rightarrow> 'k :: linorder seq_index \<Rightarrow> 'k \<Rightarrow> physical_pos list \<Rightarrow> 'k seq_record \<Rightarrow>
     ('k seq_record \<times> physical_pos list) io" where
  "searchAux_loop 0 s d records sir = Inl OutOfFuel"
| "searchAux_loop (Suc n) s d records sir =
     (if d \<ge> data sir then
        (if data sir = d then
           bind_io (seq_raw_records s sir records) (\<lambda>records'. Inr (sir, records'))
         else if next_file sir = INDEXFILE \<or> next_pos sir = END_OF_FILE then Inr (sir, records)
         else bind_io (read_aux s (next_pos sir)) (searchAux_loop n s d records))
      else Inr (sir, records))"

definition searchAux_from ::
  "'k :: linorder seq_index \<Rightarrow> 'k \<Rightarrow> physical_pos list \<Rightarrow> physical_pos \<Rightarrow>
     ('k seq_record \<times> physical_pos list) io" where
  "searchAux_from s d records p =
     bind_io (read_aux s p) (searchAux_loop (Suc (length (aux_file s))) s d records)"

text \<open>\<open>searchAuxFile\<close>: also returns the record left in the variable \<open>sir\<close>.\<close>

definition searchAuxFile ::
  "'k :: linorder seq_index \<Rightarrow> 'k \<Rightarrow> 'k bsr \<Rightarrow> physical_pos list \<Rightarrow>
     ('k seq_record \<times> physical_pos list) io" where
  "searchAuxFile s d b records =
     (if header b then
        bind_io (init_value (sir_cur b)) (\<lambda>sir.
        if sih_next_file (sih b) = INDEXFILE then Inr (sir, records)
        else searchAux_from s d records (sih_next_pos (sih b)))
      else if location b = REC_PREV then
        bind_io (init_value (sir_prev b)) (\<lambda>sir.
        if next_file sir = INDEXFILE then Inr (sir, records)
        else searchAux_from s d records (next_pos sir))
      else if location b = REC_NEXT then
        bind_io (init_value (sir_cur b)) (\<lambda>sir.
        if next_file sir = INDEXFILE then Inr (sir, records)
        else searchAux_from s d records (next_pos sir))
      else searchAux_from s d records 0)"

definition seq_search :: "'k :: linorder seq_index \<Rightarrow> 'k \<Rightarrow> physical_pos list io" where
  "seq_search s d =
     bind_io (binarySearch s d) (\<lambda>b.
     if location b = EMPTY_FILE then Inr []
     else if location b = REC_CUR then
       bind_io (init_value (sir_cur b)) (\<lambda>sir. seq_raw_records s sir [])
     else bind_io (searchAuxFile s d b []) (\<lambda>(_, records). Inr records))"

section \<open>Range search\<close>

fun range_loop ::
  "nat \<Rightarrow> 'k :: linorder seq_index \<Rightarrow> 'k \<Rightarrow> physical_pos list \<Rightarrow> 'k seq_record \<Rightarrow>
     physical_pos list io" where
  "range_loop 0 s d_end records sir = Inl OutOfFuel"
| "range_loop (Suc n) s d_end records sir =
     (if data sir \<le> d_end then
        bind_io (seq_raw_records s sir records) (\<lambda>records'.
        if next_pos sir = END_OF_FILE then Inr records'
        else bind_io (read_tagged s (next_file sir) (next_pos sir)) (range_loop n s d_end records'))
      else Inr records)"

definition seq_range_search ::
  "'k :: linorder seq_index \<Rightarrow> 'k \<Rightarrow> 'k \<Rightarrow> physical_pos list io" where
  "seq_range_search s d_begin d_end =
     (if d_begin > d_end then Inr []
      else bind_io (binarySearch s d_begin) (\<lambda>b.
      if location b = EMPTY_FILE then Inr []
      else
        bind_io (if location b = REC_CUR then
                   bind_io (init_value (sir_cur b)) (\<lambda>sir.
                   bind_io (seq_raw_records s sir []) (\<lambda>records. Inr (sir, records)))
                 else searchAuxFile s d_begin b []) (\<lambda>(sir, records).
        let loop = range_loop (Suc (length (index_file s) + length (aux_file s))) s d_end records
        in if data sir \<le> d_begin then
             (if next_file sir = INDEXFILE then
                (if next_pos sir = END_OF_FILE then Inr records
                 else bind_io (read_index s (next_pos sir)) loop)
              else bind_io (read_aux s (next_pos sir)) loop)
           else loop sir)))"

section \<open>Removal\<close>

text \<open>\<open>while (sir_cur.next_file != INDEXFILE)\<close>: to the last record of a run of auxiliary records.\<close>

fun aux_last_loop :: "nat \<Rightarrow> 'k seq_index \<Rightarrow> 'k seq_record \<Rightarrow> 'k seq_record io" where
  "aux_last_loop 0 s cur = Inl OutOfFuel"
| "aux_last_loop (Suc n) s cur =
     (if next_file cur \<noteq> INDEXFILE then bind_io (read_aux s (next_pos cur)) (aux_last_loop n s)
      else Inr cur)"

definition aux_last :: "'k seq_index \<Rightarrow> physical_pos \<Rightarrow> 'k seq_record io" where
  "aux_last s p = bind_io (read_aux s p) (aux_last_loop (Suc (length (aux_file s))) s)"

text \<open>\<open>erase\<close> where the binary search found the record \<open>sir\<close> in the index file.\<close>

definition erase_found ::
  "'k seq_index \<Rightarrow> 'k seq_record \<Rightarrow> 'k seq_record option \<Rightarrow> ('k seq_index \<times> physical_pos list) io" where
  "erase_found s sir prev =
     (let erased = seq_setNext sir END_OF_FILE INDEXFILE
      in if current_pos sir = sizeof_sih then
           (if sih_next_file (index_header s) = INDEXFILE then
              bind_io (write_index
                  (s\<lparr>index_header := \<lparr>sih_next_pos = next_pos sir, sih_next_file = next_file sir\<rparr>\<rparr>)
                  (current_pos sir) erased) (\<lambda>s'. Inr (s', [raw_pos sir]))
            else
              bind_io (aux_last s (sih_next_pos (index_header s))) (\<lambda>cur.
              bind_io (write_aux s (current_pos cur) (seq_setNext cur (next_pos sir) (next_file sir)))
                (\<lambda>s'. Inr (s', [raw_pos sir]))))
         else
           bind_io (init_value prev) (\<lambda>prev.
           if next_file prev = INDEXFILE then
             bind_io (write_index s (current_pos prev) (seq_setNext prev (next_pos sir) (next_file sir)))
               (\<lambda>s1. bind_io (write_index s1 (current_pos sir) erased) (\<lambda>s'. Inr (s', [raw_pos sir])))
           else
             bind_io (aux_last s (next_pos prev)) (\<lambda>cur.
             bind_io (write_aux s (current_pos cur) (seq_setNext cur (next_pos sir) (next_file sir)))
               (\<lambda>s1. bind_io (write_index s1 (current_pos sir) erased) (\<lambda>s'. Inr (s', [raw_pos sir]))))))"

text \<open>\<open>while (true)\<close> over the auxiliary records after \<open>prev\<close>.\<close>

fun erase_aux_loop ::
  "nat \<Rightarrow> 'k :: linorder seq_index \<Rightarrow> 'k \<Rightarrow> 'k seq_record \<Rightarrow> 'k seq_record \<Rightarrow>
     ('k seq_index \<times> physical_pos list) io" where
  "erase_aux_loop 0 s d prev cur = Inl OutOfFuel"
| "erase_aux_loop (Suc n) s d prev cur =
     (if data cur = d then
        bind_io (write_tagged s (current_file prev) (current_pos prev)
                   (seq_setNext prev (next_pos cur) (next_file cur))) (\<lambda>s1.
        bind_io (write_aux s1 (current_pos cur) (seq_setNext cur END_OF_FILE INDEXFILE)) (\<lambda>s'.
        Inr (s', [raw_pos cur])))
      else if next_file cur = INDEXFILE \<or> next_pos cur = END_OF_FILE \<or> data cur > d then Inr (s, [])
      else bind_io (read_aux s (next_pos cur)) (erase_aux_loop n s d cur))"

definition erase_aux ::
  "'k :: linorder seq_index \<Rightarrow> 'k \<Rightarrow> 'k seq_record \<Rightarrow> ('k seq_index \<times> physical_pos list) io" where
  "erase_aux s d prev =
     bind_io (read_aux s (next_pos prev)) (erase_aux_loop (Suc (length (aux_file s))) s d prev)"

text \<open>
  \<open>erase\<close> where the search ended in front of the first record: the source reads the record the
  header points to from the index file, although its position is one of the auxiliary file.
\<close>

definition erase_front ::
  "'k :: linorder seq_index \<Rightarrow> 'k \<Rightarrow> seq_header \<Rightarrow> ('k seq_index \<times> physical_pos list) io" where
  "erase_front s d h =
     bind_io (read_index s (sih_next_pos h)) (\<lambda>cur.
     if data cur = d then
       bind_io (write_index
           (s\<lparr>index_header := \<lparr>sih_next_pos = next_pos cur, sih_next_file = next_file cur\<rparr>\<rparr>)
           (current_pos cur) (seq_setNext cur END_OF_FILE INDEXFILE)) (\<lambda>s'. Inr (s', []))
     else if next_file cur = INDEXFILE \<or> next_pos cur = END_OF_FILE \<or> data cur > d then Inr (s, [])
     else erase_aux s d cur)"

text \<open>
  "Record to delete is not in files": whether a record goes on to the index file or to the end.  \<open>sir_prev\<close> is also tested
  where the search ended in front of the first record, although it then is the record an earlier round of the search
  read, or, if there was none, the record of the default constructor, with a file that is neither of the two and
  position 0.
\<close>

definition ends_run :: "'k seq_record option \<Rightarrow> bool" where
  "ends_run prev = (case prev of None \<Rightarrow> False | Some r \<Rightarrow> next_file r = INDEXFILE \<or> next_pos r = END_OF_FILE)"

definition erase_absent :: "'k bsr \<Rightarrow> bool" where
  "erase_absent b \<longleftrightarrow>
     header b \<and> (sih_next_file (sih b) = INDEXFILE \<or> sih_next_pos (sih b) = END_OF_FILE) \<or>
     location b = REC_PREV \<and> ends_run (sir_prev b) \<or> location b = REC_NEXT \<and> ends_run (sir_cur b)"

definition seq_erase ::
  "'k :: linorder seq_index \<Rightarrow> 'k \<Rightarrow> ('k seq_index \<times> physical_pos list) io" where
  "seq_erase s d =
     bind_io (binarySearch s d) (\<lambda>b.
     if location b = EMPTY_FILE then Inr (s, [])
     else if location b = REC_CUR then
       bind_io (init_value (sir_cur b)) (\<lambda>sir. erase_found s sir (sir_prev b))
     else if erase_absent b then Inr (s, [])
     else if header b then erase_front s d (sih b)
     else if location b = REC_PREV then bind_io (init_value (sir_prev b)) (erase_aux s d)
     else bind_io (init_value (sir_cur b)) (erase_aux s d))"

definition seq_remove ::
  "'k :: linorder seq_index \<Rightarrow> 'k \<Rightarrow> ('k seq_index \<times> physical_pos list) io" where
  "seq_remove s d =
     bind_io (seq_erase s d) (\<lambda>(s', records).
     if records \<noteq> [] then bind_io (rebuild s') (\<lambda>s''. Inr (s'', records))
     else Inr (s', records))"

section \<open>Bulk insertion\<close>

text \<open>
  The variable \<open>sir_cur\<close> is one object for all rounds: a duplicate is written with the positions
  the previous round left in it.
\<close>

fun bulk_insert_loop ::
  "'k :: linorder seq_index \<Rightarrow> 'k seq_record \<Rightarrow> 'k seq_record \<Rightarrow> ('k \<times> physical_pos) list \<Rightarrow>
     physical_pos list \<Rightarrow> ('k seq_index \<times> physical_pos list) io" where
  "bulk_insert_loop s prev cur [] records = Inr (s, records)"
| "bulk_insert_loop s prev cur ((d, raw) # xs) records =
     (let cur1 = cur\<lparr>data := d, raw_pos := raw, dup_pos := END_OF_FILE\<rparr>
      in if data cur1 = data prev then
           bind_io (seq_insertDuplicate s INDEXFILE prev cur1) (\<lambda>(s', prev').
           bulk_insert_loop s' prev' (cur1\<lparr>dup_pos := dup_pos prev\<rparr>) xs (records @ [raw]))
         else
           (let cur2 = seq_setNext (seq_setCurrent cur1 (current_pos prev + sizeof_sir) INDEXFILE)
                         END_OF_FILE INDEXFILE;
                prev' = seq_setNext prev (current_pos cur2) (current_file cur2)
            in bind_io (write_index s (current_pos prev') prev') (\<lambda>s1.
               bind_io (write_index s1 (current_pos cur2) cur2) (\<lambda>s2.
               bulk_insert_loop s2 cur2 cur2 xs (records @ [raw])))))"

text \<open>
  \<open>srt\<close> is \<open>std::sort\<close> with the comparison of the keys, which leaves the order of pairs with equal
  keys open.  An index file that has records already is left as it is.
\<close>

definition seq_bulk_insert ::
  "(('k \<times> physical_pos) list \<Rightarrow> ('k \<times> physical_pos) list) \<Rightarrow> 'k :: linorder seq_index \<Rightarrow>
     ('k \<times> physical_pos) list \<Rightarrow> ('k seq_index \<times> physical_pos list \<times> bool list) io" where
  "seq_bulk_insert srt s records =
     (if records = [] then Inr (s, [], [])
      else if end_pos sizeof_sih sizeof_sir (index_file s) = sizeof_sih then
        (case srt records of
           [] \<Rightarrow> Inr (s\<lparr>index_header := \<lparr>sih_next_pos = sizeof_sih, sih_next_file = INDEXFILE\<rparr>\<rparr>, [],
                      replicate (length records) False)
         | (d, raw) # xs \<Rightarrow>
             (let cur = seq_setNext (seq_setCurrent (new_seq_record d raw) sizeof_sih INDEXFILE)
                          END_OF_FILE INDEXFILE
              in bind_io (write_index
                     (s\<lparr>index_header := \<lparr>sih_next_pos = sizeof_sih, sih_next_file = INDEXFILE\<rparr>\<rparr>)
                     sizeof_sih cur) (\<lambda>s1.
                 bind_io (bulk_insert_loop s1 cur cur xs [raw]) (\<lambda>(s2, rs).
                 Inr (s2, rs, replicate (length records) False)))))
      else Inr (s, [], replicate (length records) False))"

end
