(* ===== verification/SeqInvariant.thy ===== *)
theory SeqInvariant
  imports SeqQueries
begin

text \<open>
  The invariant of the sequential index and its abstraction.  \<open>seq_links s L\<close>: following the links
  from the header visits the records \<open>L\<close> and ends at the end mark.  \<open>seq_wf s L\<close>: besides, the keys
  of \<open>L\<close> increase and the records of the index file are, in file order, those of \<open>L\<close> that are not in
  the auxiliary file.  \<open>seq_repr s m\<close>: the index holds the ordered list \<open>m\<close> of keys with their
  positions; this is the specification the operations are proved against.
\<close>

section \<open>Links\<close>

definition next_ptr :: "'k seq_record \<Rightarrow> physical_pos \<times> file_pos" where
  "next_ptr r = (next_pos r, next_file r)"

definition cur_ptr :: "'k seq_record \<Rightarrow> physical_pos \<times> file_pos" where
  "cur_ptr r = (current_pos r, current_file r)"

definition header_ptr :: "'k seq_index \<Rightarrow> physical_pos \<times> file_pos" where
  "header_ptr s = (sih_next_pos (index_header s), sih_next_file (index_header s))"

abbreviation end_mark :: "physical_pos \<times> file_pos" where
  "end_mark \<equiv> (END_OF_FILE, INDEXFILE)"

definition seq_fetch :: "'k seq_index \<Rightarrow> physical_pos \<times> file_pos \<Rightarrow> 'k seq_record option" where
  "seq_fetch s q =
     (if snd q = INDEXFILE then io_value (read_index s (fst q))
      else if snd q = AUXFILE then io_value (read_aux s (fst q)) else None)"

text \<open>Every record says where it is.\<close>

definition self_located :: "'k seq_index \<Rightarrow> bool" where
  "self_located s \<longleftrightarrow>
     (\<forall>i<length (index_file s). cur_ptr (index_file s ! i) = (slot_pos sizeof_sih sizeof_sir i, INDEXFILE)) \<and>
     (\<forall>i<length (aux_file s). cur_ptr (aux_file s ! i) = (slot_pos 0 sizeof_sir i, AUXFILE))"

definition has_dups :: "'k seq_index \<Rightarrow> 'k seq_record \<Rightarrow> bool" where
  "has_dups s r \<longleftrightarrow> (\<exists>ds. dup_chain sizeof_sir (duplicates_file s) (dup_pos r) ds)"

definition seq_links :: "'k seq_index \<Rightarrow> 'k seq_record list \<Rightarrow> bool" where
  "seq_links s L \<longleftrightarrow> self_located s \<and> lseg (seq_fetch s) next_ptr (header_ptr s) L end_mark \<and>
     (\<forall>r\<in>set L. has_dups s r)"

definition seq_wf :: "'k :: linorder seq_index \<Rightarrow> 'k seq_record list \<Rightarrow> bool" where
  "seq_wf s L \<longleftrightarrow> seq_links s L \<and> sorted_wrt (<) (map data L) \<and>
     filter (\<lambda>r. current_file r = INDEXFILE) L = index_file s \<and> (index_file s = [] \<longrightarrow> L = [])"

text \<open>The positions of a record: its own, then those of its duplicates.\<close>

definition positions :: "'k seq_index \<Rightarrow> 'k seq_record \<Rightarrow> physical_pos list" where
  "positions s r = (case seq_raw_records s r [] of Inr ps \<Rightarrow> ps | Inl e \<Rightarrow> [])"

definition entry :: "'k seq_index \<Rightarrow> 'k seq_record \<Rightarrow> 'k \<times> physical_pos list" where
  "entry s r = (data r, positions s r)"

definition seq_repr :: "'k :: linorder seq_index \<Rightarrow> ('k \<times> physical_pos list) list \<Rightarrow> bool" where
  "seq_repr s m \<longleftrightarrow> (\<exists>L. seq_wf s L \<and> m = map (entry s) L)"

lemma seq_reprI: "seq_wf s L \<Longrightarrow> m = map (entry s) L \<Longrightarrow> seq_repr s m"
  by (auto simp: seq_repr_def)

lemma ptr_simps [simp]:
  "fst (next_ptr r) = next_pos r" "snd (next_ptr r) = next_file r"
  "fst (cur_ptr r) = current_pos r" "snd (cur_ptr r) = current_file r"
  by (simp_all add: next_ptr_def cur_ptr_def)

lemma positions_chain:
  "dup_chain sizeof_sir (duplicates_file s) (dup_pos r) ds \<Longrightarrow>
     positions s r = raw_pos r # map raw_pos ds"
  by (simp add: positions_def seq_raw_records_def getAllRawCurrentRecords_chain)

lemma seq_raw_records_eq:
  "has_dups s r \<Longrightarrow> seq_raw_records s r acc = Inr (acc @ positions s r)"
  by (auto simp: has_dups_def positions_chain seq_raw_records_def getAllRawCurrentRecords_chain)

lemma seq_fetch_cur: "self_located s \<Longrightarrow> seq_fetch s q = Some r \<Longrightarrow> cur_ptr r = q"
  by (cases q) (auto simp: seq_fetch_def self_located_def read_index_def read_aux_def
      dest!: moveReadRecord_Inr split: if_splits)

lemma seq_fetch_end [simp]: "seq_fetch s end_mark = None"
  by (simp add: seq_fetch_def read_index_def)

lemma seq_fetch_not_neg1: "seq_fetch s q = Some r \<Longrightarrow> fst q \<noteq> END_OF_FILE"
  by (auto simp: seq_fetch_def read_index_def read_aux_def split: if_splits)

lemma seq_fetch_file: "seq_fetch s q = Some r \<Longrightarrow> snd q = INDEXFILE \<or> snd q = AUXFILE"
  by (auto simp: seq_fetch_def split: if_splits)

lemma seq_fetch_read_tagged: "seq_fetch s q = Some r \<Longrightarrow> read_tagged s (snd q) (fst q) = Inr r"
  by (auto simp: seq_fetch_def read_tagged_def split: if_splits)

lemma seq_fetch_read_aux: "seq_fetch s q = Some r \<Longrightarrow> snd q \<noteq> INDEXFILE \<Longrightarrow> read_aux s (fst q) = Inr r"
  by (auto simp: seq_fetch_def split: if_splits)

lemma seq_fetch_read_index: "seq_fetch s q = Some r \<Longrightarrow> snd q = INDEXFILE \<Longrightarrow> read_index s (fst q) = Inr r"
  by (auto simp: seq_fetch_def split: if_splits)

section \<open>Consequences of the invariant\<close>

lemma seq_wf_links: "seq_wf s L \<Longrightarrow> seq_links s L" by (simp add: seq_wf_def)

lemma seq_links_fetch: "seq_links s L \<Longrightarrow> r \<in> set L \<Longrightarrow> seq_fetch s (cur_ptr r) = Some r"
  by (metis lseg_fetch seq_fetch_cur seq_links_def)

lemma seq_links_distinct: "seq_links s L \<Longrightarrow> distinct (map cur_ptr L)"
  by (rule lseg_distinct[of "seq_fetch s" next_ptr "header_ptr s" L end_mark cur_ptr])
    (auto simp: seq_links_def seq_fetch_cur)

lemma seq_links_file: "seq_links s L \<Longrightarrow> r \<in> set L \<Longrightarrow> current_file r = INDEXFILE \<or> current_file r = AUXFILE"
  using seq_links_fetch seq_fetch_file by fastforce

lemma seq_wf_index_sorted:
  assumes "seq_wf s L"
  shows "index_sorted (index_file s)"
proof -
  have "sorted_wrt (<) (map data (filter (\<lambda>r. current_file r = INDEXFILE) L))"
    using assms unfolding seq_wf_def sorted_wrt_map by (blast intro: sorted_wrt_filter)
  with assms show ?thesis
    by (simp add: seq_wf_def index_sorted_def seq_links_def self_located_def cur_ptr_def)
qed

lemma aux_count:
  assumes wf: "seq_links s L" and sub: "set A \<subseteq> set L" "distinct (map cur_ptr A)"
    and aux: "\<forall>a\<in>set A. current_file a \<noteq> INDEXFILE"
  shows "length A \<le> length (aux_file s)"
proof -
  have "set (map cur_ptr A) \<subseteq> (\<lambda>i. (slot_pos 0 sizeof_sir i, AUXFILE)) ` {..<length (aux_file s)}"
  proof
    fix q assume "q \<in> set (map cur_ptr A)"
    then obtain a where a: "a \<in> set A" "q = cur_ptr a" by auto
    then have f: "seq_fetch s q = Some a" using sub seq_links_fetch[OF wf] by blast
    from a aux have tag: "snd q \<noteq> INDEXFILE" by simp
    with seq_fetch_file[OF f] have "snd q = AUXFILE" by blast
    moreover have "read_aux s (fst q) = Inr a" using f tag by (rule seq_fetch_read_aux)
    then obtain i where "i < length (aux_file s)" "fst q = slot_pos 0 sizeof_sir i"
      unfolding read_aux_def using moveReadRecord_Inr by fastforce
    ultimately show "q \<in> (\<lambda>i. (slot_pos 0 sizeof_sir i, AUXFILE)) ` {..<length (aux_file s)}"
      by (metis (mono_tags, lifting) image_eqI lessThan_iff prod.collapse)
  qed
  then have "card (set (map cur_ptr A)) \<le> card {..<length (aux_file s)}"
    by (meson card_image_le card_mono finite_imageI finite_lessThan order_trans)
  then show ?thesis using distinct_card[OF sub(2)] by simp
qed

text \<open>A chain has no more records than the two files together.\<close>

lemma links_length:
  assumes links: "seq_links s L"
  shows "length L \<le> length (index_file s) + length (aux_file s)"
proof -
  let ?I = "(\<lambda>i. (slot_pos sizeof_sih sizeof_sir i, INDEXFILE)) ` {..<length (index_file s)}"
  let ?A = "(\<lambda>i. (slot_pos 0 sizeof_sir i, AUXFILE)) ` {..<length (aux_file s)}"
  have "dom (seq_fetch s) \<subseteq> ?I \<union> ?A"
  proof
    fix q assume "q \<in> dom (seq_fetch s)"
    then obtain r where "seq_fetch s q = Some r" by auto
    then show "q \<in> ?I \<union> ?A"
      by (cases q) (auto simp: seq_fetch_def read_index_def read_aux_def dest!: moveReadRecord_Inr split: if_splits)
  qed
  then have "length L \<le> card (?I \<union> ?A)"
    using links by (intro lseg_length[of "seq_fetch s" next_ptr "header_ptr s" L end_mark]) (auto simp: seq_links_def)
  also have "\<dots> \<le> card ?I + card ?A" by (rule card_Un_le)
  also have "\<dots> \<le> length (index_file s) + length (aux_file s)"
    by (metis add_mono card_image_le card_lessThan finite_lessThan)
  finally show ?thesis .
qed

lemma links_count: "seq_wf s L \<Longrightarrow> length L \<le> length (index_file s) + length (aux_file s)"
  by (rule links_length) (rule seq_wf_links)

section \<open>Runs of auxiliary records\<close>

text \<open>
  \<open>aux_run s p A q\<close>: from pointer \<open>p\<close> one meets the auxiliary records \<open>A\<close> and arrives at \<open>q\<close>, a
  pointer into the index file or the end mark.
\<close>

definition aux_run ::
  "'k seq_index \<Rightarrow> physical_pos \<times> file_pos \<Rightarrow> 'k seq_record list \<Rightarrow> physical_pos \<times> file_pos \<Rightarrow> bool" where
  "aux_run s p A q \<longleftrightarrow> lseg (seq_fetch s) next_ptr p A q \<and> snd q = INDEXFILE \<and>
     (\<forall>a\<in>set A. current_file a \<noteq> INDEXFILE \<and> seq_fetch s (cur_ptr a) = Some a)"

lemma aux_run_Nil [simp]: "aux_run s p [] q \<longleftrightarrow> p = q \<and> snd q = INDEXFILE"
  by (auto simp: aux_run_def)

lemma aux_run_Cons:
  "self_located s \<Longrightarrow> aux_run s p (a # A) q \<longleftrightarrow>
     seq_fetch s p = Some a \<and> snd p \<noteq> INDEXFILE \<and> aux_run s (next_ptr a) A q"
  using seq_fetch_cur[of s p a] by (auto simp: aux_run_def)

lemma aux_run_next: "aux_run s p A q \<Longrightarrow> self_located s \<Longrightarrow> snd p = INDEXFILE \<longleftrightarrow> A = []"
  by (cases A) (auto simp: aux_run_Cons)

lemma aux_run_read:
  "aux_run s p (a # A) q \<Longrightarrow> self_located s \<Longrightarrow> read_aux s (fst p) = Inr a"
  by (simp add: aux_run_Cons seq_fetch_read_aux)

text \<open>The gap after a record, and the one after the header, are runs.\<close>

definition run_end :: "'k seq_record list \<Rightarrow> physical_pos \<times> file_pos" where
  "run_end V = (if V = [] then end_mark else cur_ptr (hd V))"

lemma aux_runI:
  assumes links: "seq_links s L" and seg: "lseg (seq_fetch s) next_ptr p (A @ V) end_mark"
    and A: "\<forall>a\<in>set A. current_file a \<noteq> INDEXFILE" "set A \<subseteq> set L"
    and V: "V = [] \<or> current_file (hd V) = INDEXFILE"
  shows "aux_run s p A (run_end V)"
proof -
  from seg obtain q where q: "lseg (seq_fetch s) next_ptr p A q" "lseg (seq_fetch s) next_ptr q V end_mark"
    by (auto simp: lseg_append)
  have "q = run_end V"
    using q(2) seq_fetch_cur[of s q] links by (cases V) (auto simp: run_end_def seq_links_def)
  moreover have "snd (run_end V) = INDEXFILE" using V by (auto simp: run_end_def)
  ultimately show ?thesis
    using q(1) A seq_links_fetch[OF links] by (auto simp: aux_run_def)
qed

lemma gap_after:
  assumes wf: "seq_wf s L" and i: "i < length (index_file s)"
  obtains U A V where "L = U @ index_file s ! i # A @ V"
    "aux_run s (next_ptr (index_file s ! i)) A (run_end V)"
    "filter (\<lambda>r. current_file r = INDEXFILE) V = drop (Suc i) (index_file s)"
    "V = [] \<or> current_file (hd V) = INDEXFILE"
proof -
  let ?P = "\<lambda>r. current_file r = INDEXFILE"
  obtain U W where L: "L = U @ index_file s ! i # W" "filter ?P W = drop (Suc i) (index_file s)"
    using filter_eq_split[of ?P L "index_file s" i] wf i by (auto simp: seq_wf_def)
  obtain A V where W: "W = A @ V" "\<forall>a\<in>set A. \<not> ?P a" "V = [] \<or> ?P (hd V)"
    using prefix_not_P[of W ?P] by blast
  have "lseg (seq_fetch s) next_ptr (next_ptr (index_file s ! i)) (A @ V) end_mark"
    using wf by (auto simp: seq_wf_def seq_links_def L W lseg_append)
  then have "aux_run s (next_ptr (index_file s ! i)) A (run_end V)"
    using wf W by (intro aux_runI[of s L]) (auto simp: seq_wf_def L(1))
  moreover have "filter ?P V = drop (Suc i) (index_file s)"
    using L(2) W(1,2) by simp
  ultimately show thesis using that L(1) W by blast
qed

lemma gap_front:
  assumes wf: "seq_wf s L"
  obtains A V where "L = A @ V" "aux_run s (header_ptr s) A (run_end V)"
    "filter (\<lambda>r. current_file r = INDEXFILE) V = index_file s"
    "V = [] \<or> current_file (hd V) = INDEXFILE"
proof -
  let ?P = "\<lambda>r. current_file r = INDEXFILE"
  obtain A V where L: "L = A @ V" "\<forall>a\<in>set A. \<not> ?P a" "V = [] \<or> ?P (hd V)"
    using prefix_not_P[of L ?P] by blast
  then have "aux_run s (header_ptr s) A (run_end V)"
    using wf by (intro aux_runI[of s L]) (auto simp: seq_wf_def seq_links_def)
  moreover have "filter ?P V = index_file s"
    using wf L(1,2) by (simp add: seq_wf_def)
  ultimately show thesis using that L by blast
qed

text \<open>The index record a gap ends at.\<close>

lemma gap_hd:
  "filter (\<lambda>r. current_file r = INDEXFILE) V = xs \<Longrightarrow> V = [] \<or> current_file (hd V) = INDEXFILE \<Longrightarrow>
     (V = [] \<longleftrightarrow> xs = []) \<and> (xs \<noteq> [] \<longrightarrow> hd V = hd xs)"
  by (cases V) auto

end
