(* ===== verification/IndexSpec.thy ===== *)
theory IndexSpec
  imports IndexBase
begin

text \<open>
  What an ordered index promises (the operations of \<open>libs/Indexes/index.hpp\<close>): it is an ordered
  list of keys, each with the positions of the records that have it.  A client sees the index
  through the locale \<open>ordered_index\<close>: the operations, and what each of them returns and does to
  the list.  The indexes of the program are interpretations of it.
\<close>

section \<open>Ordered lists of keys with positions\<close>

type_synonym 'k entries = "('k \<times> physical_pos list) list"

definition ordered :: "'k :: linorder entries \<Rightarrow> bool" where
  "ordered m \<longleftrightarrow> sorted_wrt (<) (map fst m)"

text \<open>
  A further position of a key goes behind the first one: the record of a key keeps its first
  position, and the chain of its duplicates grows at its front.
\<close>

fun insert_entry :: "'k :: linorder \<Rightarrow> physical_pos \<Rightarrow> 'k entries \<Rightarrow> 'k entries" where
  "insert_entry k p [] = [(k, [p])]"
| "insert_entry k p ((k', ps) # m) =
     (if k < k' then (k, [p]) # (k', ps) # m
      else if k = k' then (k', hd ps # p # tl ps) # m
      else (k', ps) # insert_entry k p m)"

definition lookup_entry :: "'k \<Rightarrow> 'k entries \<Rightarrow> physical_pos list" where
  "lookup_entry k m = (case map_of m k of None \<Rightarrow> [] | Some ps \<Rightarrow> ps)"

definition range_entry :: "'k :: linorder \<Rightarrow> 'k \<Rightarrow> 'k entries \<Rightarrow> physical_pos list" where
  "range_entry lo hi m = concat (map snd (filter (\<lambda>(k, _). lo \<le> k \<and> k \<le> hi) m))"

definition delete_entry :: "'k \<Rightarrow> 'k entries \<Rightarrow> 'k entries" where
  "delete_entry k m = filter (\<lambda>(k', _). k' \<noteq> k) m"

lemma ordered_Nil [simp]: "ordered []" by (simp add: ordered_def)

lemma ordered_Cons [simp]: "ordered (e # m) \<longleftrightarrow> (\<forall>e'\<in>set m. fst e < fst e') \<and> ordered m"
  by (simp add: ordered_def)

lemma ordered_append:
  "ordered (m @ n) \<longleftrightarrow> ordered m \<and> ordered n \<and> (\<forall>a\<in>set m. \<forall>b\<in>set n. fst a < fst b)"
  by (auto simp: ordered_def sorted_wrt_append)

lemma insert_entry_keys: "fst ` set (insert_entry k p m) = insert k (fst ` set m)"
  by (induction k p m rule: insert_entry.induct) auto

lemma insert_entry_not_Nil [simp]: "insert_entry k p m \<noteq> []"
  by (induction k p m rule: insert_entry.induct) auto

lemma ordered_insert_entry: "ordered m \<Longrightarrow> ordered (insert_entry k p m)"
proof (induction k p m rule: insert_entry.induct)
  case (2 k p k' ps m)
  have "\<forall>e\<in>set (insert_entry k p m). fst e \<in> insert k (fst ` set m)"
    using insert_entry_keys[of k p m] by blast
  with 2 show ?case by (fastforce intro: less_trans)
qed simp

lemma ordered_delete_entry: "ordered m \<Longrightarrow> ordered (delete_entry k m)"
  by (simp add: ordered_def delete_entry_def sorted_wrt_map sorted_wrt_filter)

text \<open>Where a key goes.\<close>

lemma insert_entry_between:
  "\<forall>x\<in>set X. fst x < k \<Longrightarrow> \<forall>y\<in>set Y. k < fst y \<Longrightarrow> insert_entry k p (X @ Y) = X @ (k, [p]) # Y"
proof (induction X)
  case Nil
  then show ?case by (cases Y) auto
qed auto

lemma insert_entry_dup:
  "\<forall>x\<in>set X. fst x < k \<Longrightarrow> insert_entry k p (X @ (k, ps) # Y) = X @ (k, hd ps # p # tl ps) # Y"
  by (induction X) auto

lemma delete_entry_absent: "k \<notin> fst ` set m \<Longrightarrow> delete_entry k m = m"
  by (force simp: delete_entry_def filter_id_conv)

lemma lookup_entry_absent [simp]: "k \<notin> fst ` set m \<Longrightarrow> lookup_entry k m = []"
  by (metis lookup_entry_def map_of_eq_None_iff option.simps(4))

lemma lookup_insert_other: "k' \<noteq> k \<Longrightarrow> lookup_entry k' (insert_entry k p m) = lookup_entry k' m"
  by (induction k p m rule: insert_entry.induct) (auto simp: lookup_entry_def)

lemma lookup_insert_new: "k \<notin> fst ` set m \<Longrightarrow> lookup_entry k (insert_entry k p m) = [p]"
  by (induction k p m rule: insert_entry.induct) (auto simp: lookup_entry_def)

lemma lookup_insert_dup:
  "k \<in> fst ` set m \<Longrightarrow> ordered m \<Longrightarrow>
     lookup_entry k (insert_entry k p m) = hd (lookup_entry k m) # p # tl (lookup_entry k m)"
proof (induction k p m rule: insert_entry.induct)
  case (2 k p k' ps m)
  then show ?case by (cases "k = k'") (auto simp: lookup_entry_def)
qed simp

lemma lookup_delete: "lookup_entry k' (delete_entry k m) = (if k' = k then [] else lookup_entry k' m)"
  by (induction m) (auto simp: delete_entry_def lookup_entry_def)

lemma range_insert_outside:
  "\<not> (lo \<le> k \<and> k \<le> hi) \<Longrightarrow> range_entry lo hi (insert_entry k p m) = range_entry lo hi m"
  by (induction k p m rule: insert_entry.induct) (auto simp: range_entry_def)

lemma range_point: "ordered m \<Longrightarrow> range_entry k k m = lookup_entry k m"
proof (induction m)
  case (Cons e m)
  show ?case
  proof (cases "fst e = k")
    case True
    then have "filter (\<lambda>(k', _). k \<le> k' \<and> k' \<le> k) m = []"
      using Cons.prems by (force simp: filter_empty_conv)
    with True show ?thesis by (cases e) (simp add: range_entry_def lookup_entry_def)
  next
    case False
    with Cons show ?thesis by (cases e) (auto simp: range_entry_def lookup_entry_def)
  qed
qed (simp add: range_entry_def lookup_entry_def)

text \<open>Inserting a new key and deleting it again.\<close>

lemma delete_insert_new: "k \<notin> fst ` set m \<Longrightarrow> delete_entry k (insert_entry k p m) = m"
  by (induction k p m rule: insert_entry.induct) (force simp: delete_entry_def filter_id_conv)+

section \<open>The interface of an index\<close>

text \<open>
  \<open>repr s m\<close>: the files \<open>s\<close> hold the list \<open>m\<close>.  \<open>unique\<close>: the index is one of a primary key.  \<open>add_guard\<close> and
  \<open>remove_guard\<close> are the states in which the provider keeps its promises.
\<close>

locale ordered_index =
  fixes repr :: "'s \<Rightarrow> 'k :: linorder entries \<Rightarrow> bool"
    and add :: "'s \<Rightarrow> 'k \<Rightarrow> physical_pos \<Rightarrow> ('s \<times> physical_pos list) io"
    and search :: "'s \<Rightarrow> 'k \<Rightarrow> physical_pos list io"
    and range_search :: "'s \<Rightarrow> 'k \<Rightarrow> 'k \<Rightarrow> physical_pos list io"
    and remove :: "'s \<Rightarrow> 'k \<Rightarrow> ('s \<times> physical_pos list) io"
    and add_guard :: "'s \<Rightarrow> 'k entries \<Rightarrow> 'k \<Rightarrow> bool"
    and remove_guard :: "'s \<Rightarrow> 'k \<Rightarrow> bool"
    and unique :: bool
  assumes repr_ordered: "repr s m \<Longrightarrow> ordered m"
    and add_inserts: "repr s m \<Longrightarrow> add_guard s m k \<Longrightarrow> \<not> (unique \<and> k \<in> fst ` set m) \<Longrightarrow>
      \<exists>s' ps. add s k p = Inr (s', ps) \<and> p \<in> set ps \<and> repr s' (insert_entry k p m)"
    and add_refuses: "repr s m \<Longrightarrow> add_guard s m k \<Longrightarrow> unique \<Longrightarrow> k \<in> fst ` set m \<Longrightarrow> add s k p = Inl RuntimeError"
    and search_finds: "repr s m \<Longrightarrow> search s k = Inr (lookup_entry k m)"
    and range_finds: "repr s m \<Longrightarrow> range_search s lo hi = Inr (range_entry lo hi m)"
    and remove_deletes: "repr s m \<Longrightarrow> remove_guard s k \<Longrightarrow> k \<in> fst ` set m \<Longrightarrow>
      \<exists>s'. remove s k = Inr (s', [hd (lookup_entry k m)]) \<and> repr s' (delete_entry k m)"
    and remove_absent: "repr s m \<Longrightarrow> remove_guard s k \<Longrightarrow> k \<notin> fst ` set m \<Longrightarrow> remove s k = Inr (s, [])"
begin

text \<open>What a client may rely on, whatever the index.\<close>

lemma repr_unique: "repr s m \<Longrightarrow> repr s m' \<Longrightarrow> lookup_entry k m = lookup_entry k m'"
  using search_finds[of s m k] search_finds[of s m' k] by simp

lemma add_then_search:
  assumes "repr s m" "add_guard s m k" "add s k p = Inr (s', ps)"
  shows "search s' k' = Inr (if k' = k then (if k \<in> fst ` set m then hd (lookup_entry k m) # p # tl (lookup_entry k m)
     else [p]) else lookup_entry k' m)"
proof -
  have "\<not> (unique \<and> k \<in> fst ` set m)" using add_refuses[OF assms(1,2)] assms(3) by force
  then have "repr s' (insert_entry k p m)" using add_inserts[OF assms(1,2), of p] assms(3) by auto
  from search_finds[OF this] show ?thesis
    using repr_ordered[OF assms(1)] by (simp add: lookup_insert_new lookup_insert_dup lookup_insert_other)
qed

lemma remove_then_search:
  assumes "repr s m" "remove_guard s k" "remove s k = Inr (s', ps)"
  shows "search s' k' = Inr (if k' = k then [] else lookup_entry k' m)"
proof (cases "k \<in> fst ` set m")
  case True
  then have "repr s' (delete_entry k m)" using remove_deletes[OF assms(1,2)] assms(3) by auto
  then show ?thesis by (simp add: search_finds lookup_delete)
next
  case False
  then have "s' = s" using remove_absent[OF assms(1,2)] assms(3) by simp
  then show ?thesis using search_finds[OF assms(1)] False by simp
qed

lemma point_range: "repr s m \<Longrightarrow> range_search s k k = search s k"
  using range_point[of m k] by (simp add: range_finds search_finds repr_ordered)

end

section \<open>Sequences of operations\<close>

datatype 'k index_op = Add 'k physical_pos | Remove 'k

fun op_key :: "'k index_op \<Rightarrow> 'k" where
  "op_key (Add k p) = k"
| "op_key (Remove k) = k"

text \<open>The effect of an operation on the list; a second record of a primary key is refused.\<close>

fun spec_step :: "bool \<Rightarrow> 'k :: linorder index_op \<Rightarrow> 'k entries \<Rightarrow> 'k entries" where
  "spec_step unique (Add k p) m = (if unique \<and> k \<in> fst ` set m then m else insert_entry k p m)"
| "spec_step unique (Remove k) m = delete_entry k m"

lemma ordered_spec_step: "ordered m \<Longrightarrow> ordered (spec_step unique a m)"
  by (cases a) (simp_all add: ordered_insert_entry ordered_delete_entry)

end
