(* ===== verification/SeqUpdate.thy ===== *)
theory SeqUpdate
  imports SeqInvariant IndexSpec
begin

text \<open>
  What one write to a file does to the chain of records: a record rewritten in place
  (\<open>replaced\<close>), a record appended to the auxiliary file (\<open>appended\<close>), and the two ways a record
  gets into the chain (after another one, or at its front).
\<close>

section \<open>Rewriting a record in place\<close>

definition replaced :: "'k seq_index \<Rightarrow> 'k seq_record \<Rightarrow> 'k seq_record \<Rightarrow> 'k seq_index \<Rightarrow> bool" where
  "replaced s q q' s' \<longleftrightarrow> self_located s' \<and> index_header s' = index_header s \<and>
     duplicates_file s' = duplicates_file s \<and>
     (\<forall>p. seq_fetch s' p = (if p = cur_ptr q then Some q' else seq_fetch s p)) \<and>
     (\<forall>U V. filter (\<lambda>r. current_file r = INDEXFILE) (U @ q # V) = index_file s \<longrightarrow>
            filter (\<lambda>r. current_file r = INDEXFILE) (U @ q' # V) = index_file s') \<and>
     length (index_file s') = length (index_file s) \<and> length (aux_file s') = length (aux_file s) \<and>
     (current_file q = INDEXFILE \<longrightarrow> aux_file s' = aux_file s)"

lemma read_index_update:
  assumes "i < length (index_file s)"
  shows "moveReadRecord sizeof_sih sizeof_sir ((index_file s)[i := q']) p =
     (if p = slot_pos sizeof_sih sizeof_sir i then Inr q' else read_index s p)"
  using index_records.read_unwritten[of "index_file s"
      "slot_pos sizeof_sih sizeof_sir i" "index_file s ! i" q' "(index_file s)[i := q']" p] assms
  by (auto simp: moveReadRecord_slot moveWriteRecord_slot read_index_def)

lemma read_aux_update:
  assumes "i < length (aux_file s)"
  shows "moveReadRecord 0 sizeof_sir ((aux_file s)[i := q']) p =
     (if p = slot_pos 0 sizeof_sir i then Inr q' else read_aux s p)"
  using aux_records.read_unwritten[of "aux_file s"
      "slot_pos 0 sizeof_sir i" "aux_file s ! i" q' "(aux_file s)[i := q']" p] assms
  by (auto simp: moveReadRecord_slot moveWriteRecord_slot read_aux_def)

lemma write_tagged_replaced:
  assumes loc: "self_located s" and q: "seq_fetch s (cur_ptr q0) = Some q0"
    and cur: "cur_ptr q' = cur_ptr q0"
  shows "\<exists>s'. write_tagged s (current_file q0) (current_pos q0) q' = Inr s' \<and> replaced s q0 q' s'"
proof -
  let ?I = "\<lambda>r. current_file r = INDEXFILE"
  have curs: "current_pos q' = current_pos q0" "current_file q' = current_file q0"
    using cur by (simp_all add: cur_ptr_def)
  show ?thesis
  proof (cases "current_file q0 = INDEXFILE")
    case True
    then have "read_index s (current_pos q0) = Inr q0" using seq_fetch_read_index[OF q] by simp
    then obtain i where i: "i < length (index_file s)" "current_pos q0 = slot_pos sizeof_sih sizeof_sir i"
      "q0 = index_file s ! i" unfolding read_index_def using moveReadRecord_Inr by fastforce
    let ?s' = "s\<lparr>index_file := (index_file s)[i := q']\<rparr>"
    have w: "write_tagged s (current_file q0) (current_pos q0) q' = Inr ?s'"
      using i True by (simp add: write_tagged_def write_index_def moveWriteRecord_slot)
    have locs: "self_located ?s'" using loc i cur by (simp add: self_located_def nth_list_update)
    have fetch: "seq_fetch ?s' p = (if p = cur_ptr q0 then Some q' else seq_fetch s p)" for p
      using i(1,2) True
      by (cases p) (auto simp: seq_fetch_def read_index_def read_index_update[unfolded read_index_def]
        read_aux_def cur_ptr_def)
    have sel: "filter ?I (U @ q' # V) = (index_file s)[i := q']"
      if f: "filter ?I (U @ q0 # V) = index_file s" for U V
    proof -
      have split: "index_file s = filter ?I U @ q0 # filter ?I V" using f True by simp
      then have at: "index_file s ! length (filter ?I U) = q0" "length (filter ?I U) < length (index_file s)"
        by simp_all
      have "current_pos q0 = slot_pos sizeof_sih sizeof_sir (length (filter ?I U))"
        using loc at by (auto simp: self_located_def cur_ptr_def)
      then have "i = length (filter ?I U)" using i(2) by simp
      then show ?thesis using split True curs by simp
    qed
    show ?thesis using w locs fetch sel True by (auto simp: replaced_def)
  next
    case False
    then have "read_aux s (current_pos q0) = Inr q0" "current_file q0 = AUXFILE"
      using seq_fetch_read_aux[OF q] seq_fetch_file[OF q] by simp_all
    then obtain i where i: "i < length (aux_file s)" "current_pos q0 = slot_pos 0 sizeof_sir i"
      "q0 = aux_file s ! i" unfolding read_aux_def using moveReadRecord_Inr by fastforce
    let ?s' = "s\<lparr>aux_file := (aux_file s)[i := q']\<rparr>"
    have w: "write_tagged s (current_file q0) (current_pos q0) q' = Inr ?s'"
      using i False by (simp add: write_tagged_def write_aux_def moveWriteRecord_slot)
    have locs: "self_located ?s'" using loc i cur by (simp add: self_located_def nth_list_update)
    have fetch: "seq_fetch ?s' p = (if p = cur_ptr q0 then Some q' else seq_fetch s p)" for p
      using i(1,2) \<open>current_file q0 = AUXFILE\<close>
      by (cases p) (auto simp: seq_fetch_def read_aux_def read_aux_update[unfolded read_aux_def]
        read_index_def cur_ptr_def)
    show ?thesis using w locs fetch False curs by (auto simp: replaced_def)
  qed
qed

lemma replaced_fetch: "replaced s q0 q' s' \<Longrightarrow> seq_fetch s' p = (if p = cur_ptr q0 then Some q' else seq_fetch s p)"
  unfolding replaced_def by blast

text \<open>
  The chain after a rewrite of one of its records: up to it the chain is the same; what follows
  depends on the new link.
\<close>

lemma replaced_chain:
  assumes links: "seq_links s (U @ q0 # V)" and rep: "replaced s q0 q' s'"
    and cur: "cur_ptr q' = cur_ptr q0"
  shows "lseg (seq_fetch s') next_ptr (header_ptr s') (U @ [q']) (next_ptr q')"
    and "lseg (seq_fetch s') next_ptr (next_ptr q0) V end_mark"
proof -
  have loc: "self_located s" and seg: "lseg (seq_fetch s) next_ptr (header_ptr s) (U @ q0 # V) end_mark"
    using links by (auto simp: seq_links_def)
  have dist: "distinct (map cur_ptr (U @ q0 # V))" using seq_links_distinct[OF links] .
  obtain p where p: "lseg (seq_fetch s) next_ptr (header_ptr s) U p" "seq_fetch s p = Some q0"
    "lseg (seq_fetch s) next_ptr (next_ptr q0) V end_mark"
    using seg by (auto simp: lseg_append)
  have pq: "p = cur_ptr q0" using seq_fetch_cur[OF loc p(2)] by simp
  have hd: "header_ptr s' = header_ptr s" using rep by (simp add: replaced_def header_ptr_def)
  have ne: "r \<in> set U \<Longrightarrow> cur_ptr r \<noteq> cur_ptr q0" "r \<in> set V \<Longrightarrow> cur_ptr r \<noteq> cur_ptr q0" for r
    using dist by (auto simp del: ptr_simps) (metis imageI)+
  have "lseg (seq_fetch s') next_ptr (header_ptr s) U p"
    by (rule lseg_frame[OF p(1) seq_fetch_cur[OF loc]]) (auto simp: replaced_fetch[OF rep] dest: ne)
  moreover have "seq_fetch s' p = Some q'" by (simp add: pq replaced_fetch[OF rep])
  ultimately show "lseg (seq_fetch s') next_ptr (header_ptr s') (U @ [q']) (next_ptr q')"
    unfolding lseg_append hd by (intro exI[of _ p]) simp
  show "lseg (seq_fetch s') next_ptr (next_ptr q0) V end_mark"
    by (rule lseg_frame[OF p(3) seq_fetch_cur[OF loc]]) (auto simp: replaced_fetch[OF rep] dest: ne)
qed

lemma has_dups_cong:
  "duplicates_file s' = duplicates_file s \<Longrightarrow> dup_pos r' = dup_pos r \<Longrightarrow> has_dups s' r' \<longleftrightarrow> has_dups s r"
  by (simp add: has_dups_def)

lemma positions_cong:
  assumes "duplicates_file s' = duplicates_file s @ ds" "has_dups s r" "dup_pos r' = dup_pos r" "raw_pos r' = raw_pos r"
  shows "positions s' r' = positions s r" "has_dups s' r'"
proof -
  obtain es where es: "dup_chain sizeof_sir (duplicates_file s) (dup_pos r) es"
    using assms(2) by (auto simp: has_dups_def)
  then have "dup_chain sizeof_sir (duplicates_file s') (dup_pos r') es"
    by (simp add: assms dup_chain_append)
  with es assms(4) show "positions s' r' = positions s r" "has_dups s' r'"
    by (auto simp: positions_chain has_dups_def)
qed

section \<open>Appending to the auxiliary file\<close>

definition appended :: "'k seq_index \<Rightarrow> 'k seq_record \<Rightarrow> 'k seq_index \<Rightarrow> bool" where
  "appended s r s' \<longleftrightarrow> s' = s\<lparr>aux_file := aux_file s @ [r]\<rparr> \<and>
     cur_ptr r = (end_pos 0 sizeof_sir (aux_file s), AUXFILE)"

lemma insertAuxFile_appended: "insertAuxFile s sir = (s', r) \<Longrightarrow> appended s r s'"
  by (auto simp: insertAuxFile_def Let_def appended_def cur_ptr_def seq_setCurrent_def)

lemma appended_fetch:
  "appended s r s' \<Longrightarrow> seq_fetch s' p = (if p = cur_ptr r then Some r else seq_fetch s p)"
  by (cases p) (auto simp: appended_def seq_fetch_def read_aux_def read_index_def moveReadRecord_snoc)

lemma appended_located: "appended s r s' \<Longrightarrow> self_located s \<Longrightarrow> self_located s'"
  by (auto simp: appended_def self_located_def nth_append end_pos_def less_Suc_eq)

lemma appended_fresh: "appended s r s' \<Longrightarrow> seq_fetch s (cur_ptr r) = None"
  using moveReadRecord_Inr[of 0 sizeof_sir "aux_file s" "end_pos 0 sizeof_sir (aux_file s)"]
  by (cases "read_aux s (end_pos 0 sizeof_sir (aux_file s))")
    (auto simp: appended_def seq_fetch_def read_aux_def end_pos_def)

lemma appended_mono: "appended s r s' \<Longrightarrow> seq_fetch s p = Some x \<Longrightarrow> seq_fetch s' p = Some x"
  using appended_fresh[of s r s'] by (auto simp: appended_fetch)

end
