(* ===== verification/SeqSearch.thy ===== *)
theory SeqSearch
  imports SeqInvariant
begin

text \<open>
  The queries of the sequential index return what the abstract list of keys and positions holds.
  \<open>around d L X c Y\<close> says where the walk of a search stops: at the record with the key, or next to
  the place where it would be.
\<close>

section \<open>Where a search stops\<close>

definition around :: "'k :: linorder \<Rightarrow> 'k seq_record list \<Rightarrow> 'k seq_record list \<Rightarrow> 'k seq_record \<Rightarrow>
    'k seq_record list \<Rightarrow> bool" where
  "around d L X c Y \<longleftrightarrow> L = X @ c # Y \<and> (\<forall>x\<in>set X. data x < d) \<and> (\<forall>y\<in>set Y. d < data y)"

text \<open>
  The gap the binary search reports when the key is not in the index file: in front of the first
  record, or after a record \<open>r\<close> of the index file.
\<close>

lemma bs_gap_cases:
  assumes wf: "seq_wf s L" and found: "bs_found (index_file s) (index_header s) d b"
    and loc: "location b \<noteq> REC_CUR"
  obtains (front) A V where "header b" "sih b = index_header s" "sir_cur b = Some (hd V)"
      "L = A @ V" "aux_run s (header_ptr s) A (run_end V)" "V \<noteq> []" "\<forall>v\<in>set V. d < data v"
      "current_file (hd V) = INDEXFILE"
  | (after) r U A V where "\<not> header b"
      "location b = REC_PREV \<and> sir_prev b = Some r \<or> location b = REC_NEXT \<and> sir_cur b = Some r"
      "L = U @ r # A @ V" "aux_run s (next_ptr r) A (run_end V)" "current_file r = INDEXFILE"
      "\<forall>u\<in>set U. data u < d" "data r < d" "\<forall>v\<in>set V. d < data v"
proof -
  let ?xs = "index_file s"
  have sorted: "sorted_wrt (<) (map data L)" using wf by (simp add: seq_wf_def)
  have gap: thesis if i: "i < length ?xs" and low: "data (?xs ! i) < d"
    and up: "Suc i < length ?xs \<Longrightarrow> d < data (?xs ! Suc i)" and h: "\<not> header b"
    and r: "location b = REC_PREV \<and> sir_prev b = Some (?xs ! i) \<or>
            location b = REC_NEXT \<and> sir_cur b = Some (?xs ! i)" for i
  proof -
    obtain U A V where g: "L = U @ ?xs ! i # A @ V" "aux_run s (next_ptr (?xs ! i)) A (run_end V)"
      "filter (\<lambda>r. current_file r = INDEXFILE) V = drop (Suc i) ?xs"
      "V = [] \<or> current_file (hd V) = INDEXFILE"
      using gap_after[OF wf i] by metis
    have tag: "current_file (?xs ! i) = INDEXFILE"
      using wf i by (auto simp: seq_wf_def seq_links_def self_located_def cur_ptr_def)
    have "\<forall>v\<in>set V. d < data v"
    proof (cases "V = []")
      case False
      then have "Suc i < length ?xs" "hd V = ?xs ! Suc i"
        using gap_hd[OF g(3,4)] by (auto simp: hd_drop_conv_nth)
      with up have "d < data (hd V)" by simp
      moreover have "\<forall>v\<in>set V. data (hd V) \<le> data v"
        using sorted False unfolding g(1) by (cases V) (auto simp: sorted_wrt_append)
      ultimately show ?thesis by force
    qed simp
    moreover have "\<forall>u\<in>set U. data u < d" using sorted low unfolding g(1) by (auto simp: sorted_wrt_append)
    ultimately show thesis using after[OF h r g(1,2) tag] low by blast
  qed
  from found show thesis
  proof cases
    case Front
    obtain A V where g: "L = A @ V" "aux_run s (header_ptr s) A (run_end V)"
      "filter (\<lambda>r. current_file r = INDEXFILE) V = ?xs" "V = [] \<or> current_file (hd V) = INDEXFILE"
      using gap_front[OF wf] by metis
    have V: "V \<noteq> []" "hd V = ?xs ! 0"
      using gap_hd[OF g(3,4)] Front(1) by (auto simp: hd_conv_nth)
    have "\<forall>v\<in>set V. data (hd V) \<le> data v"
      using sorted V(1) unfolding g(1) by (cases V) (auto simp: sorted_wrt_append)
    then have "\<forall>v\<in>set V. d < data v" using Front V by force
    with Front V g show thesis by (intro front[of V A]) auto
  next
    case (Prev i)
    then show thesis by (intro gap[of "i - 1"]) auto
  next
    case (Next i)
    then show thesis by (intro gap[of i]) auto
  qed (use loc in simp)
qed

section \<open>The walk through a run of auxiliary records\<close>

lemma searchAux_loop_run:
  assumes loc: "self_located s" and dups: "\<forall>r\<in>set (a # A). has_dups s r"
    and run: "aux_run s (next_ptr a) A q" and n: "length A < n"
  shows "\<exists>X c Y records'. searchAux_loop n s d records a = Inr (c, records') \<and> a # A = X @ c # Y \<and>
     (\<forall>x\<in>set X. data x < d) \<and>
     (data c = d \<and> records' = records @ positions s c \<or> d < data c \<and> records' = records \<or>
      data c < d \<and> Y = [] \<and> records' = records)"
  using dups run n
proof (induction A arbitrary: a n)
  case Nil
  then obtain m where n: "n = Suc m" by (cases n) auto
  have "next_file a = INDEXFILE" using Nil by auto
  then show ?case using Nil n
    by (cases "data a = d"; intro exI[of _ "[]"] exI[of _ a] exI[of _ "if data a = d then records @ positions s a else records"])
      (auto simp: seq_raw_records_eq)
next
  case (Cons b A)
  then obtain m where n: "n = Suc m" "length A < m" by (cases n) auto
  have step: "read_aux s (next_pos a) = Inr b" "next_file a \<noteq> INDEXFILE" "next_pos a \<noteq> END_OF_FILE"
    and run: "aux_run s (next_ptr b) A q"
    using Cons.prems(2) loc seq_fetch_read_aux[of s "next_ptr a" b] seq_fetch_not_neg1[of s "next_ptr a" b]
    by (auto simp: aux_run_Cons)
  show ?case
  proof (cases "data a < d")
    case True
    from Cons.IH[OF _ run n(2)] Cons.prems(1) obtain X c Y records' where
      "searchAux_loop m s d records b = Inr (c, records')" "b # A = X @ c # Y" "\<forall>x\<in>set X. data x < d"
      "data c = d \<and> records' = records @ positions s c \<or> d < data c \<and> records' = records \<or>
       data c < d \<and> Y = [] \<and> records' = records" by auto
    with True step n show ?thesis
      by (intro exI[of _ "a # X"] exI[of _ c] exI[of _ Y] exI[of _ records']) auto
  next
    case False
    then show ?thesis using n Cons.prems(1)
      by (intro exI[of _ "[]"] exI[of _ a] exI[of _ "b # A"]
          exI[of _ "if data a = d then records @ positions s a else records"]) (auto simp: seq_raw_records_eq)
  qed
qed

lemma searchAux_from_run:
  assumes wf: "seq_wf s L" and L: "L = U @ A @ V" and run: "aux_run s p A q" "A \<noteq> []"
    and U: "\<forall>u\<in>set U. data u < d" and V: "\<forall>v\<in>set V. d < data v"
  shows "\<exists>X c Y. searchAux_from s d records (fst p) =
       Inr (c, records @ (if data c = d then positions s c else [])) \<and> around d L X c Y"
proof -
  obtain a A' where A: "A = a # A'" using run(2) by (cases A) auto
  have links: "seq_links s L" and loc: "self_located s" and sorted: "sorted_wrt (<) (map data L)"
    using wf by (auto simp: seq_wf_def seq_links_def)
  have "length A \<le> length (aux_file s)"
    using run(1) seq_links_distinct[OF links]
    by (intro aux_count[OF links]) (auto simp: L aux_run_def)
  then have "length A' < Suc (length (aux_file s))" by (simp add: A)
  moreover have "\<forall>r\<in>set (a # A'). has_dups s r" using links L A by (simp add: seq_links_def)
  moreover have "aux_run s (next_ptr a) A' q" using run(1) loc A by (simp add: aux_run_Cons)
  ultimately obtain X c Y records' where res:
    "searchAux_loop (Suc (length (aux_file s))) s d records a = Inr (c, records')"
    "a # A' = X @ c # Y" "\<forall>x\<in>set X. data x < d"
    "data c = d \<and> records' = records @ positions s c \<or> d < data c \<and> records' = records \<or>
      data c < d \<and> Y = [] \<and> records' = records"
    using searchAux_loop_run[OF loc] by metis
  have "sorted_wrt (<) (map data (X @ c # Y))" using sorted by (simp add: L A res(2) sorted_wrt_append)
  then have "\<forall>y\<in>set Y. data c < data y" by (simp add: sorted_wrt_append)
  then have "\<forall>y\<in>set Y. d < data y" using res(4) by (auto intro: less_trans)
  then have "around d L (U @ X) c (Y @ V)"
    using res(2,3) U V by (auto simp: around_def L A)
  moreover have "records' = records @ (if data c = d then positions s c else [])" using res(4) by auto
  moreover have "read_aux s (fst p) = Inr a" using run(1) loc A by (simp add: aux_run_read)
  ultimately show ?thesis using res(1) by (auto simp: searchAux_from_def)
qed

lemma searchAuxFile_stops:
  assumes wf: "seq_wf s L" and found: "bs_found (index_file s) (index_header s) d b"
    and loc: "location b \<noteq> REC_CUR"
  shows "\<exists>X c Y. searchAuxFile s d b records =
       Inr (c, records @ (if data c = d then positions s c else [])) \<and> around d L X c Y"
proof -
  have located: "self_located s" using wf by (auto simp: seq_wf_def seq_links_def)
  show ?thesis
    using assms
  proof (cases rule: bs_gap_cases)
    case (front A V)
    then have eq: "searchAuxFile s d b records = (if A = [] then Inr (hd V, records)
        else searchAux_from s d records (fst (header_ptr s)))"
      using aux_run_next[OF _ located, of "header_ptr s" A "run_end V"]
      by (auto simp: searchAuxFile_def header_ptr_def)
    show ?thesis
    proof (cases "A = []")
      case True
      with front eq show ?thesis
        by (intro exI[of _ "[]"] exI[of _ "hd V"] exI[of _ "tl V"]) (cases V; auto simp: around_def)
    next
      case False
      then show ?thesis using eq searchAux_from_run[OF wf, of "[]" A V] front by simp
    qed
  next
    case (after r U A V)
    then have eq: "searchAuxFile s d b records = (if A = [] then Inr (r, records)
        else searchAux_from s d records (fst (next_ptr r)))"
      using aux_run_next[OF _ located, of "next_ptr r" A "run_end V"]
      by (auto simp: searchAuxFile_def)
    show ?thesis
    proof (cases "A = []")
      case True
      with after eq show ?thesis by (intro exI[of _ U] exI[of _ r] exI[of _ V]) (auto simp: around_def)
    next
      case False
      have "L = (U @ [r]) @ A @ V" "\<forall>u\<in>set (U @ [r]). data u < d" using after by auto
      from searchAux_from_run[OF wf this(1) after(4) False this(2) after(8)]
      show ?thesis by (simp add: eq False)
    qed
  qed
qed

section \<open>Search\<close>

lemma map_of_around:
  assumes "around d L X c Y"
  shows "map_of (map (entry s) L) d = (if data c = d then Some (positions s c) else None)"
proof -
  have "map_of (map (entry s) X) d = None" "map_of (map (entry s) Y) d = None"
    using assms by (auto simp: around_def entry_def map_of_eq_None_iff)
  then show ?thesis using assms by (simp add: around_def map_add_def) (simp add: entry_def)
qed

text \<open>Finding a key in the index file, as the searches do after the binary search.\<close>

lemma bs_cur:
  assumes wf: "seq_wf s L" and found: "bs_found (index_file s) (index_header s) d b"
    and loc: "location b = REC_CUR"
  shows "\<exists>X c Y. sir_cur b = Some c \<and> data c = d \<and> around d L X c Y"
  using found
proof cases
  case (Cur i)
  obtain U A V where "L = U @ index_file s ! i # A @ V" using gap_after[OF wf Cur(1)] by metis
  moreover have "sorted_wrt (<) (map data L)" using wf by (simp add: seq_wf_def)
  ultimately show ?thesis using Cur
    by (intro exI[of _ U] exI[of _ "index_file s ! i"] exI[of _ "A @ V"])
      (auto simp: around_def sorted_wrt_append)
qed (use loc in auto)

lemma seq_wf_cases:
  assumes "seq_wf s L"
  obtains (empty) b where "L = []" "binarySearch s d = Inr b" "location b = EMPTY_FILE"
  | (found) b where "L \<noteq> []" "binarySearch s d = Inr b" "location b \<noteq> EMPTY_FILE"
      "bs_found (index_file s) (index_header s) d b"
proof (cases "index_file s = []")
  case True
  then show thesis using assms binarySearch_empty[of s d] empty by (auto simp: seq_wf_def)
next
  case False
  then obtain b where b: "binarySearch s d = Inr b" "bs_found (index_file s) (index_header s) d b"
    using binarySearch_found[OF seq_wf_index_sorted[OF assms]] by blast
  moreover have "location b \<noteq> EMPTY_FILE" using b(2) by cases auto
  moreover have "L \<noteq> []" using assms False by (auto simp: seq_wf_def)
  ultimately show thesis using found by blast
qed

lemma seq_search_wf:
  assumes "seq_wf s L"
  shows "seq_search s d = Inr (case map_of (map (entry s) L) d of None \<Rightarrow> [] | Some ps \<Rightarrow> ps)"
  using assms
proof (cases rule: seq_wf_cases[where d = d])
  case (empty b)
  then show ?thesis by (simp add: seq_search_def)
next
  case (found b)
  show ?thesis
  proof (cases "location b = REC_CUR")
    case True
    from bs_cur[OF assms found(4) True] obtain X c Y where c: "sir_cur b = Some c" "data c = d"
      "around d L X c Y" by blast
    then have "has_dups s c" using assms by (auto simp: around_def seq_wf_def seq_links_def)
    with c True found show ?thesis
      by (simp add: seq_search_def seq_raw_records_eq map_of_around[OF c(3)])
  next
    case False
    from searchAuxFile_stops[OF assms found(4) False, of "[]"] obtain X c Y where
      "searchAuxFile s d b [] = Inr (c, [] @ (if data c = d then positions s c else []))"
      "around d L X c Y" by blast
    with False found show ?thesis by (simp add: seq_search_def map_of_around)
  qed
qed

section \<open>Range search\<close>

lemma range_loop_segment:
  assumes "\<forall>x\<in>set (r # Y). has_dups s x" "lseg (seq_fetch s) next_ptr (next_ptr r) Y end_mark"
    "length Y < n"
  shows "range_loop n s e acc r =
     Inr (acc @ concat (map (positions s) (takeWhile (\<lambda>x. data x \<le> e) (r # Y))))"
  using assms
proof (induction Y arbitrary: r n acc)
  case Nil
  then obtain m where "n = Suc m" by (cases n) auto
  moreover have "next_pos r = END_OF_FILE" using Nil by (simp add: next_ptr_def)
  ultimately show ?case using Nil by (simp add: seq_raw_records_eq)
next
  case (Cons y Y)
  then obtain m where n: "n = Suc m" "length Y < m" by (cases n) auto
  have f: "seq_fetch s (next_ptr r) = Some y" using Cons.prems by simp
  then have "next_pos r \<noteq> END_OF_FILE" "read_tagged s (next_file r) (next_pos r) = Inr y"
    using seq_fetch_not_neg1[OF f] seq_fetch_read_tagged[OF f] by simp_all
  with Cons n show ?case by (simp add: seq_raw_records_eq)
qed

lemma range_loop_wf:
  assumes wf: "seq_wf s L" and L: "L = X @ r # Y"
  shows "range_loop (Suc (length (index_file s) + length (aux_file s))) s e acc r =
     Inr (acc @ concat (map (positions s) (takeWhile (\<lambda>x. data x \<le> e) (r # Y))))"
proof (rule range_loop_segment)
  show "\<forall>x\<in>set (r # Y). has_dups s x" using wf by (simp add: seq_wf_def seq_links_def L)
  show "lseg (seq_fetch s) next_ptr (next_ptr r) Y end_mark"
    using wf by (auto simp: seq_wf_def seq_links_def L lseg_append)
  show "length Y < Suc (length (index_file s) + length (aux_file s))"
    using links_count[OF wf] by (simp add: L)
qed

lemma filter_upto_sorted:
  fixes hi :: "'k :: linorder"
  shows "sorted_wrt (<) (map data Z) \<Longrightarrow>
     filter (\<lambda>x. data x \<le> hi) Z = takeWhile (\<lambda>x. data x \<le> hi) Z"
proof (induction Z)
  case (Cons z Z)
  show ?case
  proof (cases "data z \<le> hi")
    case True
    with Cons show ?thesis by simp
  next
    case False
    with Cons.prems have "\<forall>x\<in>set Z. \<not> data x \<le> hi" by auto
    with False show ?thesis by (simp add: filter_empty_conv)
  qed
qed simp

lemma range_entries:
  assumes sorted: "sorted_wrt (<) (map data L)" and ar: "around lo L X c Y"
  shows "concat (map snd (filter (\<lambda>(k, _). lo \<le> k \<and> k \<le> hi) (map (entry s) L))) =
     concat (map (positions s) (takeWhile (\<lambda>x. data x \<le> hi) (if lo \<le> data c then c # Y else Y)))"
proof -
  have "filter (\<lambda>x. lo \<le> data x \<and> data x \<le> hi) L =
      filter (\<lambda>x. data x \<le> hi) (if lo \<le> data c then c # Y else Y)"
  proof -
    have "filter (\<lambda>x. lo \<le> data x \<and> data x \<le> hi) X = []"
      using ar by (auto simp: around_def filter_empty_conv)
    moreover have "filter (\<lambda>x. lo \<le> data x \<and> data x \<le> hi) Y = filter (\<lambda>x. data x \<le> hi) Y"
      using ar by (auto simp: around_def intro!: filter_cong)
    ultimately show ?thesis using ar by (simp add: around_def)
  qed
  also have "\<dots> = takeWhile (\<lambda>x. data x \<le> hi) (if lo \<le> data c then c # Y else Y)"
    using sorted ar by (intro filter_upto_sorted) (auto simp: around_def sorted_wrt_append)
  finally show ?thesis by (simp add: filter_map comp_def entry_def)
qed

lemma seq_range_search_wf:
  assumes wf: "seq_wf s L" and le: "lo \<le> hi"
  shows "seq_range_search s lo hi =
     Inr (concat (map snd (filter (\<lambda>(k, _). lo \<le> k \<and> k \<le> hi) (map (entry s) L))))"
  using wf
proof (cases rule: seq_wf_cases[where d = lo])
  case (empty b)
  then show ?thesis using le by (simp add: seq_range_search_def)
next
  case (found b)
  let ?loop = "range_loop (Suc (length (index_file s) + length (aux_file s))) s hi"
  have "\<exists>X c Y. around lo L X c Y \<and> (if location b = REC_CUR then
          bind_io (init_value (sir_cur b)) (\<lambda>sir. bind_io (seq_raw_records s sir []) (\<lambda>records. Inr (sir, records)))
        else searchAuxFile s lo b []) = Inr (c, if data c = lo then positions s c else [])"
  proof (cases "location b = REC_CUR")
    case True
    from bs_cur[OF wf found(4) True] obtain X c Y where c: "sir_cur b = Some c" "data c = lo"
      "around lo L X c Y" by blast
    moreover have "has_dups s c" using c(3) wf by (auto simp: around_def seq_wf_def seq_links_def)
    ultimately show ?thesis using True by (auto simp: seq_raw_records_eq)
  next
    case False
    from searchAuxFile_stops[OF wf found(4) False, of "[]"] obtain X c Y where
      "searchAuxFile s lo b [] = Inr (c, [] @ (if data c = lo then positions s c else []))"
      "around lo L X c Y" by blast
    with False show ?thesis by (intro exI[of _ X] exI[of _ c] exI[of _ Y]) simp
  qed
  then obtain X c Y where ar: "around lo L X c Y" and stop: "(if location b = REC_CUR then
          bind_io (init_value (sir_cur b)) (\<lambda>sir. bind_io (seq_raw_records s sir []) (\<lambda>records. Inr (sir, records)))
        else searchAuxFile s lo b []) = Inr (c, if data c = lo then positions s c else [])" by blast
  have L: "L = X @ c # Y" using ar by (simp add: around_def)
  have seg: "lseg (seq_fetch s) next_ptr (next_ptr c) Y end_mark"
    using wf by (auto simp: seq_wf_def seq_links_def L lseg_append)
  let ?records = "if data c = lo then positions s c else []"
  have "seq_range_search s lo hi =
      (if data c \<le> lo then
         (if next_file c = INDEXFILE then
            (if next_pos c = END_OF_FILE then Inr ?records
             else bind_io (read_index s (next_pos c)) (?loop ?records))
          else bind_io (read_aux s (next_pos c)) (?loop ?records))
       else ?loop ?records c)"
    using le found by (simp only: seq_range_search_def stop Let_def bind_io_Inr leD if_False prod.case)
  also have "\<dots> =
      Inr ((if data c = lo then positions s c else []) @
        concat (map (positions s) (takeWhile (\<lambda>x. data x \<le> hi) (if lo < data c then c # Y else Y))))"
  proof (cases "data c \<le> lo")
    case False
    then show ?thesis by (auto simp: range_loop_wf[OF wf L] simp del: range_loop.simps)
  next
    case low: True
    show ?thesis
    proof (cases Y)
      case Nil
      then have "next_file c = INDEXFILE" "next_pos c = END_OF_FILE" using seg by (simp_all add: next_ptr_def)
      then show ?thesis using low Nil by (auto simp: not_less[symmetric])
    next
      case (Cons y Y')
      then have f: "seq_fetch s (next_ptr c) = Some y" using seg by simp
      note rd = seq_fetch_read_aux[OF f] seq_fetch_read_index[OF f] seq_fetch_not_neg1[OF f]
      have "L = (X @ [c]) @ y # Y'" by (simp add: L Cons)
      from range_loop_wf[OF wf this] show ?thesis using low Cons rd
        by (auto simp: not_less[symmetric] simp del: range_loop.simps)
    qed
  qed
  also have "\<dots> = Inr (concat (map snd (filter (\<lambda>(k, _). lo \<le> k \<and> k \<le> hi) (map (entry s) L))))"
  proof -
    have "sorted_wrt (<) (map data L)" using wf by (simp add: seq_wf_def)
    then show ?thesis using le range_entries[OF _ ar, of hi s] by auto
  qed
  finally show ?thesis .
qed

end
