(* ===== verification/SeqAdd.thy ===== *)
theory SeqAdd
  imports SeqUpdate SeqSearch
begin

text \<open>
  Adding a key to the sequential index: where each branch of \<open>add\<close> and \<open>insertAux\<close> puts
  the new record, and that the index then represents the list with the entry inserted.
\<close>

abbreviation entries :: "'k seq_index \<Rightarrow> 'k seq_record list \<Rightarrow> 'k entries" where
  "entries s L \<equiv> map (entry s) L"

lemma entries_keys: "fst ` set (entries s L) = data ` set L"
  by (force simp: entry_def)

lemma entry_key [simp]: "fst (entry s r) = data r"
  by (simp add: entry_def)

lemma ordered_entries: "ordered (entries s L) \<longleftrightarrow> sorted_wrt (<) (map data L)"
  by (simp add: ordered_def comp_def)

section \<open>A record put into the chain\<close>

lemma appended_links:
  assumes "appended s n s1" "seq_links s L"
  shows "seq_links s1 L"
proof -
  have "header_ptr s1 = header_ptr s" "duplicates_file s1 = duplicates_file s"
    using assms(1) by (auto simp: appended_def header_ptr_def)
  then show ?thesis
    using assms appended_located appended_mono[OF assms(1)]
    by (auto simp: seq_links_def has_dups_def intro!: lseg_mono[of "seq_fetch s" next_ptr _ L _ "seq_fetch s1"])
qed

lemma entries_cong:
  assumes "duplicates_file s' = duplicates_file s @ ds" "\<forall>r\<in>set L. has_dups s r"
  shows "map (entry s') L = map (entry s) L" "\<forall>r\<in>set L. has_dups s' r"
  using positions_cong[OF assms(1)] assms(2) by (auto simp: entry_def)

lemma no_dups: "dup_pos r = END_OF_FILE \<Longrightarrow> has_dups s r \<and> positions s r = [raw_pos r]"
  by (auto simp: has_dups_def positions_chain intro: exI[of _ "[]"])

text \<open>After a record \<open>q\<close> of the chain.\<close>

lemma insertAfterRecord_wf:
  assumes wf: "seq_wf s (U @ q # V)"
    and low: "\<forall>u\<in>set U. data u < k" "data q < k" and up: "\<forall>v\<in>set V. k < data v"
  shows "\<exists>s'. insertAfterRecord ov s (current_file q) (Some q) (new_seq_record k p) h False = Inr s' \<and>
     seq_repr s' (insert_entry k p (entries s (U @ q # V))) \<and> index_header s' = index_header s"
proof -
  let ?L = "U @ q # V"
  obtain s1 n where ins: "insertAuxFile s (seq_setNext (new_seq_record k p) (next_pos q) (next_file q)) = (s1, n)"
    by fastforce
  then have n: "data n = k" "raw_pos n = p" "dup_pos n = END_OF_FILE" "next_ptr n = next_ptr q"
    "current_file n = AUXFILE"
    by (auto simp: insertAuxFile_def Let_def seq_setNext_def seq_setCurrent_def new_seq_record_def next_ptr_def)
  have app: "appended s n s1" by (rule insertAuxFile_appended[OF ins])
  have links: "seq_links s1 ?L" using appended_links[OF app] wf by (simp add: seq_wf_def)
  then have loc: "self_located s1" and fq: "seq_fetch s1 (cur_ptr q) = Some q"
    using seq_links_fetch[OF links] by (auto simp: seq_links_def)
  define q' where "q' = seq_setNext q (current_pos n) (current_file n)"
  have q': "cur_ptr q' = cur_ptr q" "next_ptr q' = cur_ptr n" "data q' = data q" "raw_pos q' = raw_pos q"
    "dup_pos q' = dup_pos q" "current_pos q' = current_pos q"
    by (simp_all add: q'_def seq_setNext_def cur_ptr_def next_ptr_def)
  obtain s2 where w: "write_tagged s1 (current_file q) (current_pos q) q' = Inr s2"
    and rep: "replaced s1 q q' s2" using write_tagged_replaced[OF loc fq q'(1)] by blast
  have dups: "duplicates_file s2 = duplicates_file s @ []" "index_header s2 = index_header s"
    using rep app by (auto simp: replaced_def appended_def)
  have fresh: "cur_ptr n \<noteq> cur_ptr q"
    using appended_fresh[OF app] seq_links_fetch[OF seq_wf_links[OF wf], of q] by auto
  have fn: "seq_fetch s2 (cur_ptr n) = Some n"
    using fresh by (simp add: replaced_fetch[OF rep] appended_fetch[OF app])
  have old: "\<forall>r\<in>set ?L. has_dups s r" using wf by (simp add: seq_wf_def seq_links_def)
  have q'dup: "has_dups s2 q'" "positions s2 q' = positions s q"
    using positions_cong[OF dups(1), of q q'] old q' by auto
  note chain = replaced_chain[OF links rep q'(1)]
  let ?L' = "(U @ [q']) @ n # V"
  have "lseg (seq_fetch s2) next_ptr (header_ptr s2) ?L' end_mark"
    using chain fn n(4) by (intro lseg_appendI[OF chain(1)]) (simp add: q'(2))
  moreover have "\<forall>r\<in>set ?L'. has_dups s2 r"
    using entries_cong(2)[OF dups(1)] old q'dup no_dups[OF n(3)] by auto
  moreover have "self_located s2" using rep by (simp add: replaced_def)
  ultimately have links2: "seq_links s2 ?L'" by (simp add: seq_links_def)
  have "index_file s1 = index_file s" using app by (simp add: appended_def)
  then have "filter (\<lambda>r. current_file r = INDEXFILE) ?L = index_file s1"
    using wf by (simp add: seq_wf_def)
  then have "filter (\<lambda>r. current_file r = INDEXFILE) (U @ q' # V) = index_file s2"
    using rep unfolding replaced_def by blast
  then have "filter (\<lambda>r. current_file r = INDEXFILE) ?L' = index_file s2"
    using n(5) by (auto split: if_splits)
  moreover have "sorted_wrt (<) (map data ?L')"
    using wf low up n(1) q'(3) by (auto simp: seq_wf_def sorted_wrt_append intro: less_trans)
  moreover have "index_file s2 \<noteq> []"
    using rep wf \<open>index_file s1 = index_file s\<close> by (auto simp: replaced_def seq_wf_def)
  ultimately have wf2: "seq_wf s2 ?L'" using links2 by (simp add: seq_wf_def)
  have "map (entry s2) U = entries s U" "map (entry s2) V = entries s V" "entry s2 q' = entry s q"
    using entries_cong(1)[OF dups(1)] old q'dup q'(3) by (auto simp: entry_def)
  moreover have "entry s2 n = (k, [p])" using no_dups[OF n(3)] n by (simp add: entry_def)
  moreover have "insert_entry k p (entries s (U @ [q]) @ entries s V) = entries s (U @ [q]) @ (k, [p]) # entries s V"
    using low up by (intro insert_entry_between) auto
  ultimately have "map (entry s2) ?L' = insert_entry k p (entries s ?L)" by simp
  then have "seq_repr s2 (insert_entry k p (entries s ?L))"
    using wf2 by (metis seq_reprI)
  moreover have "insertAfterRecord ov s (current_file q) (Some q) (new_seq_record k p) h False = Inr s2"
    using w q'(6) by (simp add: insertAfterRecord_def ins q'_def)
  ultimately show ?thesis using dups(2) by blast
qed

text \<open>In front of the chain, where the header is that of the index file.\<close>

lemma insertAfterRecord_front_wf:
  assumes wf: "seq_wf s L" and ne: "L \<noteq> []" and up: "\<forall>v\<in>set L. k < data v"
  shows "\<exists>s'. insertAfterRecord ov s INDEXFILE prev (new_seq_record k p) (index_header s) True = Inr s' \<and>
     seq_repr s' (insert_entry k p (entries s L))"
proof -
  obtain s1 n where ins: "insertAuxFile s (seq_setNext (new_seq_record k p)
      (sih_next_pos (index_header s)) (sih_next_file (index_header s))) = (s1, n)"
    by fastforce
  then have n: "data n = k" "raw_pos n = p" "dup_pos n = END_OF_FILE" "next_ptr n = header_ptr s"
    "current_file n = AUXFILE"
    by (auto simp: insertAuxFile_def Let_def seq_setNext_def seq_setCurrent_def new_seq_record_def
        next_ptr_def header_ptr_def)
  have app: "appended s n s1" by (rule insertAuxFile_appended[OF ins])
  define s2 where "s2 = s1\<lparr>index_header := \<lparr>sih_next_pos = current_pos n, sih_next_file = current_file n\<rparr>\<rparr>"
  have same: "seq_fetch s2 = seq_fetch s1" "self_located s2 = self_located s1"
    "index_file s2 = index_file s" "duplicates_file s2 = duplicates_file s @ []"
    using app by (auto simp: s2_def seq_fetch_def read_index_def read_aux_def self_located_def appended_def fun_eq_iff)
  have hd: "header_ptr s2 = cur_ptr n" by (simp add: s2_def header_ptr_def cur_ptr_def)
  have old: "\<forall>r\<in>set L. has_dups s r" using wf by (simp add: seq_wf_def seq_links_def)
  have "lseg (seq_fetch s1) next_ptr (header_ptr s) L end_mark"
    using wf appended_mono[OF app] by (auto simp: seq_wf_def seq_links_def intro: lseg_mono)
  then have "lseg (seq_fetch s2) next_ptr (header_ptr s2) (n # L) end_mark"
    by (simp add: same hd appended_fetch[OF app] n)
  then have "seq_links s2 (n # L)"
    using same(2) appended_located[OF app] wf entries_cong(2)[OF same(4) old] no_dups[OF n(3), of s2]
    by (simp add: seq_links_def seq_wf_def)
  then have wf2: "seq_wf s2 (n # L)" using wf up n ne by (auto simp: seq_wf_def same)
  have "map (entry s2) (n # L) = (k, [p]) # entries s L"
    using entries_cong(1)[OF same(4) old] no_dups[OF n(3), of s2] n by (simp add: entry_def)
  also have "\<dots> = insert_entry k p (entries s L)"
    using insert_entry_between[of "[]" k "entries s L" p] up by simp
  finally have "seq_repr s2 (insert_entry k p (entries s L))" using wf2 by (metis seq_reprI)
  then show ?thesis by (simp add: insertAfterRecord_def ins writeHeader_tagged_def s2_def)
qed

section \<open>A duplicate\<close>

lemma seq_insertDuplicate_write:
  "seq_insertDuplicate s f q d =
     (let s1 = s\<lparr>duplicates_file := duplicates_file s @ [d\<lparr>dup_pos := dup_pos q\<rparr>]\<rparr>;
          q' = q\<lparr>dup_pos := end_pos 0 sizeof_sir (duplicates_file s)\<rparr>
      in bind_io (write_tagged s1 f (current_pos q) q') (\<lambda>s'. Inr (s', q')))"
  by (cases s) (auto simp: seq_insertDuplicate_def insertDuplicate_def insertDuplicateFile_def Let_def write_tagged_def
      write_index_def write_aux_def bind_io_assoc)

lemma seq_insertDuplicate_wf:
  assumes wf: "seq_wf s (U @ q # V)" and k: "data q = k"
  shows "\<exists>s' q'. seq_insertDuplicate s (current_file q) q (new_seq_record k p) = Inr (s', q') \<and>
     seq_repr s' (insert_entry k p (entries s (U @ q # V))) \<and> index_header s' = index_header s"
proof -
  let ?d = "(new_seq_record k p)\<lparr>dup_pos := dup_pos q\<rparr>"
  let ?s1 = "s\<lparr>duplicates_file := duplicates_file s @ [?d]\<rparr>"
  let ?q' = "q\<lparr>dup_pos := end_pos 0 sizeof_sir (duplicates_file s)\<rparr>"
  let ?L = "U @ q # V"
  have old: "\<forall>r\<in>set ?L. has_dups s r" using wf by (simp add: seq_wf_def seq_links_def)
  have same: "seq_fetch ?s1 = seq_fetch s" "self_located ?s1 = self_located s" "header_ptr ?s1 = header_ptr s"
    by (auto simp: seq_fetch_def read_index_def read_aux_def self_located_def header_ptr_def fun_eq_iff)
  have links: "seq_links ?s1 ?L"
    using wf entries_cong(2)[of ?s1 s "[?d]" ?L] old by (simp add: seq_wf_def seq_links_def same)
  then have loc: "self_located ?s1" and fq: "seq_fetch ?s1 (cur_ptr q) = Some q"
    using seq_links_fetch[OF links] by (auto simp: seq_links_def)
  have q': "cur_ptr ?q' = cur_ptr q" "next_ptr ?q' = next_ptr q" by (simp_all add: cur_ptr_def next_ptr_def)
  obtain s2 where w: "write_tagged ?s1 (current_file q) (current_pos q) ?q' = Inr s2"
    and rep: "replaced ?s1 q ?q' s2" using write_tagged_replaced[OF loc fq q'(1)] by blast
  have dups: "duplicates_file s2 = duplicates_file s @ [?d]" using rep by (simp add: replaced_def)
  obtain ds where ds: "dup_chain sizeof_sir (duplicates_file s) (dup_pos q) ds"
    using old by (auto simp: has_dups_def)
  have chain': "dup_chain sizeof_sir (duplicates_file s2) (dup_pos ?q') (?d # ds)"
    using dup_chain_insert[OF ds, of "new_seq_record k p"] by (simp add: dups)
  let ?L' = "U @ ?q' # V"
  note chain = replaced_chain[OF links rep q'(1)]
  have "lseg (seq_fetch s2) next_ptr (header_ptr s2) ((U @ [?q']) @ V) end_mark"
    using chain(2) by (intro lseg_appendI[OF chain(1)]) (simp add: q'(2))
  moreover have "\<forall>r\<in>set ?L'. has_dups s2 r"
  proof -
    have "has_dups s2 ?q'" using chain' unfolding has_dups_def by blast
    moreover have "\<forall>r\<in>set (U @ V). has_dups s2 r" using entries_cong(2)[OF dups, of "U @ V"] old by auto
    ultimately show ?thesis by auto
  qed
  ultimately have "seq_links s2 ?L'" using rep by (simp add: seq_links_def replaced_def)
  moreover have "filter (\<lambda>r. current_file r = INDEXFILE) ?L = index_file ?s1"
    using wf by (simp add: seq_wf_def)
  then have "filter (\<lambda>r. current_file r = INDEXFILE) ?L' = index_file s2"
    using rep unfolding replaced_def by blast
  moreover have "length (index_file s2) = length (index_file s)" using rep by (simp add: replaced_def)
  ultimately have wf2: "seq_wf s2 ?L'" using wf by (auto simp: seq_wf_def)
  have "positions s2 ?q' = hd (positions s q) # p # tl (positions s q)"
    using positions_chain[OF chain'] positions_chain[OF ds] by (simp add: new_seq_record_def)
  then have "map (entry s2) ?L' = entries s U @ (k, hd (positions s q) # p # tl (positions s q)) # entries s V"
    using entries_cong(1)[OF dups] old k by (auto simp: entry_def)
  also have "\<dots> = insert_entry k p (entries s ?L)"
    using insert_entry_dup[of "entries s U" k p "positions s q" "entries s V"] wf k
    by (auto simp: seq_wf_def sorted_wrt_append entry_def[of s q])
  finally have "seq_repr s2 (insert_entry k p (entries s ?L))" using wf2 by (metis seq_reprI)
  moreover have "index_header s2 = index_header s" using rep by (simp add: replaced_def)
  ultimately show ?thesis using w by (simp add: seq_insertDuplicate_write Let_def)
qed

section \<open>The walk of insertAux\<close>

text \<open>
  What an insertion must do: refuse a second record of a primary key, or insert the entry; the header
  changes only when the key is a new smallest one.
\<close>

definition add_ok :: "bool \<Rightarrow> 'k :: linorder seq_index \<Rightarrow> 'k seq_record list \<Rightarrow> 'k \<Rightarrow> physical_pos \<Rightarrow>
    'k seq_index io \<Rightarrow> bool" where
  "add_ok pk s L k p res \<longleftrightarrow>
     (if pk \<and> k \<in> data ` set L then res = Inl RuntimeError
      else \<exists>s'. res = Inr s' \<and> seq_repr s' (insert_entry k p (entries s L)) \<and>
             ((\<forall>x\<in>set L. k < data x) \<or> index_header s' = index_header s))"

lemma add_ok_dup:
  assumes "seq_wf s L" "L = U @ q # V" "data q = k"
  shows "add_ok pk s L k p (if pk then Inl RuntimeError
     else bind_io (seq_insertDuplicate s (current_file q) q (new_seq_record k p)) (\<lambda>(s', _). Inr s'))"
  using seq_insertDuplicate_wf[of s U q V k p] assms by (auto simp: add_ok_def)

lemma add_ok_aux_dup:
  assumes "seq_wf s L" "L = U @ q # V" "data q = k" "current_file q = AUXFILE"
  shows "add_ok pk s L k p (insertAux_duplicate pk s q (new_seq_record k p))"
  using add_ok_dup[OF assms(1-3), of pk p] unfolding insertAux_duplicate_def assms(4) .

lemma add_ok_after:
  assumes "seq_wf s L" "L = U @ q # V" "\<forall>u\<in>set U. data u < k" "data q < k" "\<forall>v\<in>set V. k < data v"
    "f = current_file q"
  shows "add_ok pk s L k p (insertAfterRecord ov s f (Some q) (new_seq_record k p) h False)"
proof -
  have "k \<notin> data ` set L" using assms(2-5) by auto
  then show ?thesis using insertAfterRecord_wf[of s U q V k ov p h] assms by (auto simp: add_ok_def)
qed

lemma aux_run_file: "aux_run s p A q \<Longrightarrow> a \<in> set A \<Longrightarrow> current_file a = AUXFILE"
  using seq_fetch_file[of s "cur_ptr a" a] by (auto simp: aux_run_def)

lemma new_seq_record_data [simp]: "data (new_seq_record k p) = k"
  by (simp add: new_seq_record_def)

lemma insertAux_loop_run:
  assumes wf: "seq_wf s L" and L: "L = U @ prev # cur # A @ V"
    and run: "aux_run s (next_ptr cur) A q" and n: "length A < n"
    and aux: "current_file cur = AUXFILE" "data cur \<le> k \<or> current_file prev = AUXFILE"
    and low: "\<forall>u\<in>set U. data u < k" "data prev < k" and up: "\<forall>v\<in>set V. k < data v"
  shows "add_ok pk s L k p (insertAux_loop n ov pk s h prev cur (new_seq_record k p))"
  using L run n aux low
proof (induction A arbitrary: U prev cur n)
  case Nil
  then obtain m where n: "n = Suc m" by (cases n) auto
  have last: "next_file cur = INDEXFILE" using Nil by auto
  have dup: "L = (U @ [prev]) @ cur # V" using Nil by simp
  consider "data cur = k" | "data cur < k" | "k < data cur" by (meson less_linear)
  then show ?case
  proof cases
    case 1
    then show ?thesis using add_ok_aux_dup[OF wf dup 1 Nil.prems(4)] last n by simp
  next
    case 2
    then show ?thesis using add_ok_after[OF wf dup _ 2 up, of AUXFILE] Nil last n by auto
  next
    case 3
    with Nil have "current_file prev = AUXFILE" "L = U @ prev # (cur # V)" by auto
    moreover have "\<forall>v\<in>set (cur # V). k < data v" using 3 up by simp
    ultimately show ?thesis using add_ok_after[OF wf, of U prev "cur # V" k AUXFILE] Nil last n 3 by auto
  qed
next
  case (Cons b A)
  then obtain m where n: "n = Suc m" "length A < m" by (cases n) auto
  have loc: "self_located s" and srt: "sorted_wrt (<) (map data L)"
    using wf by (auto simp: seq_wf_def seq_links_def)
  have step: "read_aux s (next_pos cur) = Inr b" "next_file cur \<noteq> INDEXFILE"
    and run: "aux_run s (next_ptr b) A q" and b: "current_file b = AUXFILE"
    using Cons.prems(2) loc seq_fetch_read_aux[of s "next_ptr cur" b] aux_run_file[OF Cons.prems(2)]
    by (auto simp: aux_run_Cons)
  have at: "L = (U @ [prev]) @ cur # (b # A @ V)" using Cons.prems(1) by simp
  consider "data cur = k" | "data cur < k" | "k < data cur" by (meson less_linear)
  then show ?case
  proof cases
    case 1
    then show ?thesis using add_ok_aux_dup[OF wf at 1 Cons.prems(4)] step n by simp
  next
    case 2
    have "add_ok pk s L k p (insertAux_loop m ov pk s h cur b (new_seq_record k p))"
      using Cons.IH[of "U @ [prev]" cur b m] Cons.prems at run n b 2 by simp
    then show ?thesis using 2 step n by auto
  next
    case 3
    have "\<forall>v\<in>set (b # A @ V). data cur < data v" using srt unfolding at by (auto simp: sorted_wrt_append)
    then have "\<forall>v\<in>set (cur # b # A @ V). k < data v" using 3 by (auto intro: less_trans)
    then show ?thesis
      using add_ok_after[OF wf, of U prev "cur # b # A @ V" k AUXFILE] Cons.prems step n 3 by auto
  qed
qed

text \<open>\<open>insertAux\<close> after a record \<open>r\<close> of the index file with a run of auxiliary records behind it.\<close>

lemma insertAux_after:
  assumes wf: "seq_wf s L" and L: "L = U @ r # A @ V" and run: "aux_run s (next_ptr r) A q" "A \<noteq> []"
    and r: "current_file r = INDEXFILE" and b: "\<not> header b"
    and low: "\<forall>u\<in>set U. data u < k" "data r < k" and up: "\<forall>v\<in>set V. k < data v"
  shows "add_ok pk s L k p (insertAux ov pk s (Some r) (new_seq_record k p) b)"
proof -
  obtain a A' where A: "A = a # A'" using run(2) by (cases A) auto
  have links: "seq_links s L" and loc: "self_located s" and srt: "sorted_wrt (<) (map data L)"
    using wf by (auto simp: seq_wf_def seq_links_def)
  have rd: "read_aux s (next_pos r) = Inr a" "aux_run s (next_ptr a) A' q" "current_file a = AUXFILE"
    using run(1) loc aux_run_read[of s "next_ptr r" a A' q] aux_run_file[OF run(1)] by (auto simp: A aux_run_Cons)
  have "length A \<le> length (aux_file s)"
    using run(1) seq_links_distinct[OF links] by (intro aux_count[OF links]) (auto simp: L aux_run_def)
  then have n: "length A' < Suc (length (aux_file s))" by (simp add: A)
  show ?thesis
  proof (cases "k < data a")
    case True
    have "\<forall>v\<in>set (A' @ V). data a < data v" using srt by (auto simp: L A sorted_wrt_append)
    then have "\<forall>v\<in>set (A @ V). k < data v" using True by (auto simp: A intro: less_trans)
    then show ?thesis using add_ok_after[OF wf L low, of INDEXFILE] r b rd(1) True low(2)
      by (simp add: insertAux_def)
  next
    case False
    then have "add_ok pk s L k p (insertAux_loop (Suc (length (aux_file s))) ov pk s (sih b) r a (new_seq_record k p))"
      using insertAux_loop_run[OF wf _ rd(2) n rd(3) _ low up] by (simp add: L A not_less del: insertAux_loop.simps)
    then show ?thesis using False b rd(1) by (simp add: insertAux_def del: insertAux_loop.simps)
  qed
qed

text \<open>
  \<open>insertAux\<close> at the front, where the header points to an auxiliary record.  A key smaller
  than every other one is excluded: its header would be written to the auxiliary file.
\<close>

lemma insertAux_front:
  assumes wf: "seq_wf s L" and L: "L = A @ V" and run: "aux_run s (header_ptr s) A q" "A \<noteq> []"
    and b: "header b" "sih b = index_header s"
    and low: "data (hd A) \<le> k" and up: "\<forall>v\<in>set V. k < data v"
  shows "add_ok pk s L k p (insertAux ov pk s ini (new_seq_record k p) b)"
proof -
  obtain a A' where A: "A = a # A'" using run(2) by (cases A) auto
  have links: "seq_links s L" and loc: "self_located s" and srt: "sorted_wrt (<) (map data L)"
    using wf by (auto simp: seq_wf_def seq_links_def)
  have rd: "read_aux s (sih_next_pos (sih b)) = Inr a" "aux_run s (next_ptr a) A' q" "current_file a = AUXFILE"
    using run(1) loc b(2) aux_run_read[of s "header_ptr s" a A' q] aux_run_file[OF run(1)]
    by (auto simp: A aux_run_Cons header_ptr_def)
  have "length A \<le> length (aux_file s)"
    using run(1) seq_links_distinct[OF links] by (intro aux_count[OF links]) (auto simp: L aux_run_def)
  then have n: "length A' \<le> length (aux_file s)" by (simp add: A)
  have at: "L = [] @ a # (A' @ V)" by (simp add: L A)
  consider "data a = k" | "data a < k" using low by (force simp: A le_less)
  then show ?thesis
  proof cases
    case 1
    then show ?thesis using add_ok_aux_dup[OF wf at 1 rd(3)] b(1) rd by (simp add: insertAux_def)
  next
    case 2
    show ?thesis
    proof (cases A')
      case Nil
      then have "next_file a = INDEXFILE" using rd(2) by auto
      with 2 show ?thesis using add_ok_after[OF wf at _ 2, of AUXFILE] up Nil b(1) rd by (auto simp: insertAux_def)
    next
      case (Cons c A'')
      have nx: "next_file a \<noteq> INDEXFILE" "read_aux s (next_pos a) = Inr c" "aux_run s (next_ptr c) A'' q"
        "current_file c = AUXFILE"
        using rd(2) loc aux_run_read[of s "next_ptr a" c A'' q] aux_run_file[OF rd(2)]
        by (auto simp: Cons aux_run_Cons)
      have "add_ok pk s L k p (insertAux_loop (Suc (length (aux_file s))) ov pk s (sih b) a c (new_seq_record k p))"
        using insertAux_loop_run[OF wf _ nx(3) _ nx(4), of "[]" a V] n up 2 rd(3)
        by (simp add: L A Cons del: insertAux_loop.simps)
      then show ?thesis using 2 b(1) rd(1) nx by (auto simp: insertAux_def simp del: insertAux_loop.simps)
    qed
  qed
qed

section \<open>Placing a key\<close>

text \<open>
  The condition under which an addition is right: the header points into the index file, or the
  key is not smaller than every key of the index.
\<close>

definition front_ok :: "'k :: linorder seq_index \<Rightarrow> 'k entries \<Rightarrow> 'k \<Rightarrow> bool" where
  "front_ok s m k \<longleftrightarrow> sih_next_file (index_header s) = INDEXFILE \<or>
     (case m of [] \<Rightarrow> True | e # _ \<Rightarrow> fst e \<le> k)"

lemma add_ok_records:
  "add_ok pk s L k p res \<Longrightarrow>
     if pk \<and> k \<in> data ` set L then bind_io res (\<lambda>s'. Inr (s', rs)) = Inl RuntimeError
     else \<exists>s'. bind_io res (\<lambda>s'. Inr (s', rs)) = Inr (s', rs) \<and> seq_repr s' (insert_entry k p (entries s L)) \<and>
       ((\<forall>x\<in>set L. k < data x) \<or> index_header s' = index_header s)"
  unfolding add_ok_def by (auto split: if_splits)

lemma insertAfterRecord_front_ok:
  assumes "seq_wf s L" "L \<noteq> []" "\<forall>v\<in>set L. k < data v" "h = index_header s"
  shows "add_ok pk s L k p (insertAfterRecord ov s INDEXFILE prev (new_seq_record k p) h True)"
proof -
  have "k \<notin> data ` set L" using assms(3) by auto
  then show ?thesis using insertAfterRecord_front_wf[OF assms(1-3), of ov prev p] assms(3,4)
    by (auto simp: add_ok_def)
qed

lemma add_place_empty:
  assumes "seq_wf s []" "binarySearch s k = Inr b" "location b = EMPTY_FILE"
  shows "\<exists>s'. add_place ov pk s k p = Inr (s', [p]) \<and> seq_repr s' [(k, [p])]"
proof -
  let ?r = "seq_setNext (seq_setCurrent (new_seq_record k p) sizeof_sih INDEXFILE) END_OF_FILE INDEXFILE"
  let ?s' = "s\<lparr>index_header := \<lparr>sih_next_pos = sizeof_sih, sih_next_file = INDEXFILE\<rparr>, index_file := [?r]\<rparr>"
  have e: "index_file s = []" using assms(1) by (simp add: seq_wf_def)
  have r: "data ?r = k" "raw_pos ?r = p" "dup_pos ?r = END_OF_FILE" "next_ptr ?r = end_mark"
    "cur_ptr ?r = (sizeof_sih, INDEXFILE)" "current_file ?r = INDEXFILE"
    by (simp_all add: seq_setNext_def seq_setCurrent_def new_seq_record_def next_ptr_def cur_ptr_def)
  have z: "slot_pos sizeof_sih sizeof_sir 0 = sizeof_sih" by (simp add: slot_pos_def)
  have "seq_fetch ?s' (sizeof_sih, INDEXFILE) = Some ?r"
    using moveReadRecord_slot[of sizeof_sih sizeof_sir 0 "[?r]"]
    by (simp add: seq_fetch_def read_index_def z)
  moreover have "self_located ?s'"
    using assms(1) r(5) by (simp add: seq_wf_def seq_links_def self_located_def z)
  ultimately have "seq_links ?s' [?r]"
    using r no_dups[of ?r ?s'] by (simp add: seq_links_def header_ptr_def)
  then have "seq_wf ?s' [?r]" using r by (simp add: seq_wf_def)
  then have "seq_repr ?s' [(k, [p])]"
    using r no_dups[of ?r ?s'] by (intro seq_reprI[of _ "[?r]"]) (auto simp: entry_def)
  moreover have "add_place ov pk s k p = Inr (?s', [p])"
    using assms(2,3) e moveWriteRecord_end[of sizeof_sih sizeof_sir "[]" ?r]
    by (simp add: add_place_def Let_def write_index_def end_pos_def z)
  ultimately show ?thesis by blast
qed

text \<open>\<open>add\<close> without the \<open>try\<close> and the rebuild, on a chain that is not empty.\<close>

lemma add_place_found:
  assumes wf: "seq_wf s L" and ne: "L \<noteq> []" and b: "binarySearch s k = Inr b" "location b \<noteq> EMPTY_FILE"
    and found: "bs_found (index_file s) (index_header s) k b" and ok: "front_ok s (entries s L) k"
  shows "\<exists>res. add_ok pk s L k p res \<and> add_place ov pk s k p = bind_io res (\<lambda>s'. Inr (s', []))"
proof (cases "location b = REC_CUR")
  case True
  obtain X c Y where c: "sir_cur b = Some c" "data c = k" "L = X @ c # Y"
    using bs_cur[OF wf found True] by (auto simp: around_def)
  have h: "\<not> header b" using found True by cases auto
  have tag: "current_file c = INDEXFILE"
    using found c(1) True wf by cases (auto simp: seq_wf_def seq_links_def self_located_def cur_ptr_def)
  let ?res = "if pk then Inl RuntimeError
     else bind_io (seq_insertDuplicate s (current_file c) c (new_seq_record k p)) (\<lambda>(s', _). Inr s')"
  have "add_place ov pk s k p = bind_io ?res (\<lambda>s'. Inr (s', []))"
    using True b h c(1) tag by (simp add: add_place_def Let_def bind_io_assoc split_def)
  then show ?thesis using add_ok_dup[OF wf c(3,2)] by blast
next
  case False
  have loc: "self_located s" using wf by (auto simp: seq_wf_def seq_links_def)
  from wf found False show ?thesis
  proof (cases rule: bs_gap_cases)
    case (front A V)
    show ?thesis
    proof (cases "A = []")
      case True
      then have hf: "sih_next_file (sih b) = INDEXFILE"
        using aux_run_next[OF front(5) loc] front(2) by (simp add: header_ptr_def)
      let ?res = "insertAfterRecord ov s INDEXFILE (sir_prev b) (new_seq_record k p) (sih b) True"
      have "add_place ov pk s k p = bind_io ?res (\<lambda>s'. Inr (s', []))"
        using b front(1) hf by (simp add: add_place_def Let_def)
      moreover have "add_ok pk s L k p ?res"
        using front True ne by (intro insertAfterRecord_front_ok[OF wf]) auto
      ultimately show ?thesis by blast
    next
      case False
      then have hf: "sih_next_file (sih b) \<noteq> INDEXFILE"
        using aux_run_next[OF front(5) loc] front(2) by (simp add: header_ptr_def)
      then have "data (hd A) \<le> k" using ok front(2,4) False
        by (cases A) (auto simp: front_ok_def)
      then have "add_ok pk s L k p (insertAux ov pk s (sir_prev b) (new_seq_record k p) b)"
        using insertAux_front[OF wf front(4,5) False front(1,2) _ front(7)] by blast
      moreover have "add_place ov pk s k p =
          bind_io (insertAux ov pk s (sir_prev b) (new_seq_record k p) b) (\<lambda>s'. Inr (s', []))"
        using b front(1) hf by (simp add: add_place_def Let_def)
      ultimately show ?thesis by blast
    qed
  next
    case (after r U A V)
    have nx: "next_file r = INDEXFILE \<longleftrightarrow> A = []"
      using aux_run_next[OF after(4) loc] by simp
    let ?res = "if A = [] then insertAfterRecord ov s INDEXFILE (Some r) (new_seq_record k p) (sih b) False
       else insertAux ov pk s (Some r) (new_seq_record k p) b"
    have "add_place ov pk s k p = bind_io ?res (\<lambda>s'. Inr (s', []))"
      using b after(1,2) nx False by (auto simp: add_place_def Let_def)
    moreover have "add_ok pk s L k p ?res"
    proof (cases "A = []")
      case True
      then show ?thesis using after add_ok_after[OF wf, of U r V k INDEXFILE] by auto
    next
      case False
      then show ?thesis using insertAux_after[OF wf after(3,4) False after(5,1,6,7,8)] by auto
    qed
    ultimately show ?thesis by blast
  qed
qed

lemma add_place_wf:
  assumes wf: "seq_wf s L" and ok: "front_ok s (entries s L) k"
  shows "if pk \<and> k \<in> data ` set L then add_place ov pk s k p = Inl RuntimeError
     else \<exists>s'. add_place ov pk s k p = Inr (s', if L = [] then [p] else []) \<and>
       seq_repr s' (insert_entry k p (entries s L)) \<and>
       ((\<forall>x\<in>set L. k < data x) \<or> index_header s' = index_header s)"
  using wf
proof (cases rule: seq_wf_cases[where d = k])
  case (empty b)
  then show ?thesis using add_place_empty[OF _ empty(2,3)] wf by simp
next
  case (found b)
  from add_place_found[OF wf found ok] obtain res where
    res: "add_ok pk s L k p res" "add_place ov pk s k p = bind_io res (\<lambda>s'. Inr (s', []))" by blast
  show ?thesis using add_ok_records[OF res(1), of "[]"] found(1) unfolding res(2) by (simp only: if_False simp_thms)
qed

end
