(* ===== verification/SeqRebuild.thy ===== *)
theory SeqRebuild
  imports SeqAdd
begin

text \<open>
  \<open>rebuild\<close>: it copies the chain of records into a new index file in the order of the links,
  and the duplicate chains into a new duplicate file.  The rebuilt index represents the same list,
  its auxiliary file is empty and every chain of duplicates lies in one piece.
\<close>

section \<open>The chains of duplicates\<close>

lemma end_pos_snoc [simp]: "end_pos base sz (rs @ [r]) = end_pos base sz rs + sz"
  by (simp add: end_pos_def slot_pos_def algebra_simps)

lemma rebuild_dups_chain:
  "dup_chain sizeof_sir dups (dup_pos d) ds \<Longrightarrow> length ds < n \<Longrightarrow>
     \<exists>es. rebuild_dups n dups nd d = Inr (nd @ es) \<and> map raw_pos es = raw_pos d # map raw_pos ds \<and>
       dup_chain sizeof_sir (nd @ es) (end_pos 0 sizeof_sir nd) es"
proof (induction ds arbitrary: d nd n)
  case Nil
  then obtain m where "n = Suc m" by (cases n) auto
  with Nil show ?case
    by (intro exI[of _ "[seq_setCurrent d (end_pos 0 sizeof_sir nd) DUPFILE]"])
      (simp add: seq_setCurrent_def Let_def moveReadRecord_end)
next
  case (Cons x ds)
  then obtain m where n: "n = Suc m" "length ds < m" by (cases n) auto
  let ?d = "(seq_setCurrent d (end_pos 0 sizeof_sir nd) DUPFILE)\<lparr>dup_pos := end_pos 0 sizeof_sir nd + sizeof_sir\<rparr>"
  have x: "moveReadRecord 0 sizeof_sir dups (dup_pos d) = Inr x" "dup_chain sizeof_sir dups (dup_pos x) ds"
    using Cons.prems by simp_all
  then have ne: "dup_pos d \<noteq> END_OF_FILE" by auto
  from Cons.IH[OF x(2) n(2), of "nd @ [?d]"] obtain es where
    es: "rebuild_dups m dups (nd @ [?d]) x = Inr ((nd @ [?d]) @ es)"
      "map raw_pos es = raw_pos x # map raw_pos ds"
      "dup_chain sizeof_sir ((nd @ [?d]) @ es) (end_pos 0 sizeof_sir (nd @ [?d])) es"
    by (elim exE conjE) (rule that)
  have "moveReadRecord 0 sizeof_sir ((nd @ [?d]) @ es) (end_pos 0 sizeof_sir nd) = Inr ?d"
    by (rule moveReadRecord_append, rule moveReadRecord_end) (rule order_refl, rule sizeof_pos)
  moreover have "dup_pos ?d = end_pos 0 sizeof_sir (nd @ [?d])" by simp
  ultimately have "dup_chain sizeof_sir (nd @ ?d # es) (end_pos 0 sizeof_sir nd) (?d # es)"
    using es(3) unfolding dup_chain_Cons by simp
  moreover have "rebuild_dups n dups nd d = Inr (nd @ ?d # es)"
    using es(1) n(1) ne x(1) by (simp add: seq_setCurrent_def Let_def)
  moreover have "map raw_pos (?d # es) = raw_pos d # map raw_pos (x # ds)"
    using es(2) by (simp add: seq_setCurrent_def)
  ultimately show ?case by (intro exI[of _ "?d # es"] conjI)
qed

lemma rebuild_chain_copy:
  assumes "dup_chain sizeof_sir dups (dup_pos r) ds"
  shows "\<exists>es p. rebuild_chain dups nd r = Inr (nd @ es, r\<lparr>dup_pos := p\<rparr>) \<and>
     map raw_pos es = map raw_pos ds \<and> dup_chain sizeof_sir (nd @ es) p es"
proof (cases ds)
  case Nil
  with assms show ?thesis by (intro exI[of _ "[]"] exI[of _ END_OF_FILE]) (simp add: rebuild_chain_def)
next
  case (Cons x xs)
  then have x: "moveReadRecord 0 sizeof_sir dups (dup_pos r) = Inr x" "dup_chain sizeof_sir dups (dup_pos x) xs"
    using assms by simp_all
  then have "dup_pos r \<noteq> END_OF_FILE" by auto
  moreover have "length xs < Suc (length dups)" using dup_chain_length[OF x(2)] by simp
  from rebuild_dups_chain[OF x(2) this, of nd] obtain es where
    "rebuild_dups (Suc (length dups)) dups nd x = Inr (nd @ es)"
    "map raw_pos es = raw_pos x # map raw_pos xs"
    "dup_chain sizeof_sir (nd @ es) (end_pos 0 sizeof_sir nd) es" by (elim exE conjE) (rule that)
  ultimately show ?thesis using x(1) Cons
    by (intro exI[of _ es] exI[of _ "end_pos 0 sizeof_sir nd"]) (simp add: rebuild_chain_def)
qed

section \<open>The chain of records\<close>

text \<open>The copy \<open>r\<close> of a record \<open>r0\<close>: same key, same positions.\<close>

definition copied :: "'k seq_record list \<Rightarrow> 'k seq_record list \<Rightarrow> 'k seq_record \<Rightarrow> 'k seq_record \<Rightarrow> bool" where
  "copied dups0 dups r0 r \<longleftrightarrow> data r = data r0 \<and> raw_pos r = raw_pos r0 \<and>
     (\<exists>ds0 ds. dup_chain sizeof_sir dups0 (dup_pos r0) ds0 \<and> dup_chain sizeof_sir dups (dup_pos r) ds \<and>
        map raw_pos ds = map raw_pos ds0)"

lemma copied_append: "copied dups0 dups r0 r \<Longrightarrow> copied dups0 (dups @ es) r0 r"
  unfolding copied_def using dup_chain_append by blast

text \<open>The records \<open>rs\<close> lie in the slots of the index file from \<open>i\<close> on, each linked to the next.\<close>

definition in_file_order :: "nat \<Rightarrow> 'k seq_record list \<Rightarrow> bool" where
  "in_file_order i rs \<longleftrightarrow> (\<forall>j<length rs. cur_ptr (rs ! j) = (slot_pos sizeof_sih sizeof_sir (i + j), INDEXFILE) \<and>
     next_ptr (rs ! j) = (if Suc j = length rs then end_mark
                          else (slot_pos sizeof_sih sizeof_sir (Suc (i + j)), INDEXFILE)))"

lemma in_file_order_Cons:
  "in_file_order i (r # rs) \<longleftrightarrow> cur_ptr r = (slot_pos sizeof_sih sizeof_sir i, INDEXFILE) \<and>
     next_ptr r = (if rs = [] then end_mark else (slot_pos sizeof_sih sizeof_sir (Suc i), INDEXFILE)) \<and>
     in_file_order (Suc i) rs"
  by (auto simp: in_file_order_def All_less_Suc2)

lemma rebuild_loop_segment:
  assumes "\<forall>r\<in>set (sir # Y). has_dups s r" "lseg (seq_fetch s) next_ptr (next_ptr sir) Y end_mark" "length Y < n"
  shows "\<exists>rs es. rebuild_loop n s ni nd sir = Inr (ni @ rs, nd @ es) \<and> in_file_order (length ni) rs \<and>
     list_all2 (copied (duplicates_file s) (nd @ es)) (sir # Y) rs"
  using assms
proof (induction Y arbitrary: sir n ni nd)
  case Nil
  then obtain m where n: "n = Suc m" by (cases n) auto
  obtain ds where ds: "dup_chain sizeof_sir (duplicates_file s) (dup_pos sir) ds"
    using Nil by (auto simp: has_dups_def)
  obtain es p where es: "rebuild_chain (duplicates_file s) nd sir = Inr (nd @ es, sir\<lparr>dup_pos := p\<rparr>)"
    "map raw_pos es = map raw_pos ds" "dup_chain sizeof_sir (nd @ es) p es"
    using rebuild_chain_copy[OF ds] by blast
  let ?r = "seq_setNext (seq_setCurrent (sir\<lparr>dup_pos := p\<rparr>) (end_pos sizeof_sih sizeof_sir ni) INDEXFILE) END_OF_FILE INDEXFILE"
  have "next_pos sir = END_OF_FILE" using Nil by (simp add: next_ptr_def)
  then have "rebuild_loop n s ni nd sir = Inr (ni @ [?r], nd @ es)"
    using n es(1) by (simp add: Let_def seq_setCurrent_def)
  moreover have "in_file_order (length ni) [?r]"
    by (simp add: in_file_order_def seq_setNext_def seq_setCurrent_def cur_ptr_def next_ptr_def end_pos_def)
  moreover have "copied (duplicates_file s) (nd @ es) sir ?r"
    using ds es by (auto simp: copied_def seq_setNext_def seq_setCurrent_def)
  ultimately show ?case by (metis list_all2_Cons list_all2_Nil2)
next
  case (Cons y Y)
  then obtain m where n: "n = Suc m" "length Y < m" by (cases n) auto
  obtain ds where ds: "dup_chain sizeof_sir (duplicates_file s) (dup_pos sir) ds"
    using Cons.prems by (auto simp: has_dups_def)
  obtain es p where es: "rebuild_chain (duplicates_file s) nd sir = Inr (nd @ es, sir\<lparr>dup_pos := p\<rparr>)"
    "map raw_pos es = map raw_pos ds" "dup_chain sizeof_sir (nd @ es) p es"
    using rebuild_chain_copy[OF ds] by blast
  let ?r = "seq_setNext (seq_setCurrent (sir\<lparr>dup_pos := p\<rparr>) (end_pos sizeof_sih sizeof_sir ni) INDEXFILE)
     (end_pos sizeof_sih sizeof_sir ni + sizeof_sir) INDEXFILE"
  have f: "seq_fetch s (next_ptr sir) = Some y" and Y: "lseg (seq_fetch s) next_ptr (next_ptr y) Y end_mark"
    using Cons.prems by simp_all
  have rd: "next_pos sir \<noteq> END_OF_FILE" "read_tagged s (next_file sir) (next_pos sir) = Inr y"
    using seq_fetch_not_neg1[OF f] seq_fetch_read_tagged[OF f] by simp_all
  from Cons.IH[OF _ Y n(2), of "ni @ [?r]" "nd @ es"] Cons.prems(1) obtain rs es' where
    IH: "rebuild_loop m s (ni @ [?r]) (nd @ es) y = Inr ((ni @ [?r]) @ rs, (nd @ es) @ es')"
      "in_file_order (length (ni @ [?r])) rs"
      "list_all2 (copied (duplicates_file s) ((nd @ es) @ es')) (y # Y) rs" by auto
  have "rebuild_loop n s ni nd sir = Inr (ni @ ?r # rs, nd @ es @ es')"
    using n es(1) rd IH(1) by (simp add: Let_def seq_setCurrent_def)
  moreover have "in_file_order (length ni) (?r # rs)"
  proof -
    have "rs \<noteq> []" using IH(3) by auto
    then show ?thesis using IH(2)
      by (simp add: in_file_order_Cons seq_setNext_def seq_setCurrent_def cur_ptr_def next_ptr_def end_pos_def
          slot_pos_def algebra_simps)
  qed
  moreover have "copied (duplicates_file s) (nd @ es) sir ?r"
    using ds es by (auto simp: copied_def seq_setNext_def seq_setCurrent_def)
  then have "copied (duplicates_file s) ((nd @ es) @ es') sir ?r" by (rule copied_append)
  ultimately show ?case using IH(3) by (metis append_assoc list_all2_Cons)
qed

text \<open>An index file in file order, with sorted keys, is well-formed.\<close>

lemma in_file_order_wf:
  assumes order: "in_file_order 0 rs" and ne: "rs \<noteq> []" and files: "index_file s = rs" "aux_file s = []"
    and head: "header_ptr s = (sizeof_sih, INDEXFILE)" and srt: "sorted_wrt (<) (map data rs)"
    and dups: "\<forall>r\<in>set rs. has_dups s r"
  shows "seq_wf s rs"
proof -
  let ?P = "\<lambda>i. (slot_pos sizeof_sih sizeof_sir i, INDEXFILE)"
  have "lseg (seq_fetch s) next_ptr (?P 0) rs end_mark"
  proof (rule lseg_nth)
    fix i assume i: "i < length rs"
    then show "seq_fetch s (?P i) = Some (rs ! i)"
      by (simp add: seq_fetch_def read_index_slot files)
    show "next_ptr (rs ! i) = (if Suc i = length rs then end_mark else ?P (Suc i))"
      using order i by (simp add: in_file_order_def)
  qed (rule ne)
  then have "lseg (seq_fetch s) next_ptr (header_ptr s) rs end_mark"
    by (simp add: head slot_pos_def)
  moreover have "self_located s" using order by (simp add: self_located_def in_file_order_def files)
  moreover have "filter (\<lambda>r. current_file r = INDEXFILE) rs = rs"
    using order by (auto simp: filter_id_conv in_file_order_def in_set_conv_nth cur_ptr_def)
  ultimately show ?thesis using ne srt dups files by (simp add: seq_wf_def seq_links_def)
qed

lemma list_all2_copied:
  assumes "list_all2 (copied (duplicates_file s) dups) L rs" "duplicates_file s' = dups"
  shows "map data rs = map data L" "\<forall>r\<in>set rs. has_dups s' r" "map (entry s') rs = map (entry s) L"
proof -
  have "\<forall>r0 r. copied (duplicates_file s) dups r0 r \<longrightarrow> data r = data r0 \<and> has_dups s' r \<and> entry s' r = entry s r0"
    using assms(2) by (auto simp: copied_def has_dups_def entry_def positions_chain)
  with assms(1) show "map data rs = map data L" "\<forall>r\<in>set rs. has_dups s' r" "map (entry s') rs = map (entry s) L"
    by (induction rule: list_all2_induct) auto
qed

text \<open>
  The rebuilt index: what it represents, and its files.  Only the links and the order of the keys
  are needed, so that it also repairs an index whose first record was just unlinked.
\<close>

lemma rebuild_links:
  assumes links: "seq_links s L" and srt: "sorted_wrt (<) (map data L)"
  shows "\<exists>s'. rebuild s = Inr s' \<and> seq_repr s' (entries s L) \<and> aux_file s' = [] \<and>
     length (index_file s') = length L \<and> sih_next_file (index_header s') = INDEXFILE"
proof (cases L)
  case Nil
  let ?s' = "\<lparr>index_header = \<lparr>sih_next_pos = END_OF_FILE, sih_next_file = INDEXFILE\<rparr>,
     index_file = [], aux_file = [], duplicates_file = []\<rparr>"
  have "header_ptr s = end_mark" using links Nil by (simp add: seq_links_def)
  then have "rebuild s = Inr ?s'" by (simp add: rebuild_def header_ptr_def)
  moreover have "seq_wf ?s' []"
    by (simp add: seq_wf_def seq_links_def self_located_def header_ptr_def)
  then have "seq_repr ?s' []" by (rule seq_reprI) simp
  ultimately show ?thesis using Nil by simp
next
  case (Cons r Y)
  have seg: "lseg (seq_fetch s) next_ptr (header_ptr s) (r # Y) end_mark" and dups: "\<forall>x\<in>set (r # Y). has_dups s x"
    using links Cons by (auto simp: seq_links_def)
  then have f: "seq_fetch s (header_ptr s) = Some r" and Y: "lseg (seq_fetch s) next_ptr (next_ptr r) Y end_mark"
    by simp_all
  have rd: "sih_next_pos (index_header s) \<noteq> END_OF_FILE"
    "read_tagged s (sih_next_file (index_header s)) (sih_next_pos (index_header s)) = Inr r"
    using seq_fetch_not_neg1[OF f] seq_fetch_read_tagged[OF f] by (simp_all add: header_ptr_def)
  have "length L \<le> length (index_file s) + length (aux_file s)" by (rule links_length[OF links])
  then obtain rs es where
    loop: "rebuild_loop (Suc (length (index_file s) + length (aux_file s))) s [] [] r = Inr (rs, es)"
    and order: "in_file_order 0 rs" and copy: "list_all2 (copied (duplicates_file s) es) L rs"
    using rebuild_loop_segment[OF dups Y, of "Suc (length (index_file s) + length (aux_file s))" "[]" "[]"]
    by (auto simp: Cons simp del: rebuild_loop.simps)
  let ?s' = "\<lparr>index_header = \<lparr>sih_next_pos = sizeof_sih, sih_next_file = INDEXFILE\<rparr>,
     index_file = rs, aux_file = [], duplicates_file = es\<rparr>"
  have reb: "rebuild s = Inr ?s'" using rd loop by (simp add: rebuild_def del: rebuild_loop.simps)
  have ne: "rs \<noteq> []" using copy Cons by auto
  note c = list_all2_copied[OF copy, of ?s']
  have "seq_wf ?s' rs"
    using order ne srt c(1,2) by (intro in_file_order_wf) (simp_all add: header_ptr_def)
  then have "seq_repr ?s' (entries s L)" using c(3)[symmetric] by (rule seq_reprI) simp
  then show ?thesis using reb list_all2_lengthD[OF copy] by auto
qed

end
