(* ===== verification/SeqRemove.thy ===== *)
theory SeqRemove
  imports SeqRebuild
begin

text \<open>
  Removing a key from the sequential index: \<open>erase\<close> unlinks the record, and the rebuild that
  follows drops it from the files.  Only the first position of the key is returned.
\<close>

section \<open>Unlinking a record\<close>

text \<open>The chain of \<open>s'\<close> is that of \<open>s\<close> without one record: the rest \<open>R\<close> has the same entries.\<close>

definition unlinked :: "'k seq_index \<Rightarrow> 'k seq_record list \<Rightarrow> 'k seq_index \<Rightarrow> bool" where
  "unlinked s R s' \<longleftrightarrow> (\<exists>L'. seq_links s' L' \<and> entries s' L' = entries s R)"

lemma unlink_links:
  assumes links: "seq_links s (U @ q # c # W)" and rep: "replaced s q q' s1"
    and q': "cur_ptr q' = cur_ptr q" "next_ptr q' = next_ptr c" "data q' = data q" "raw_pos q' = raw_pos q"
      "dup_pos q' = dup_pos q"
  shows "seq_links s1 (U @ q' # W) \<and> entries s1 (U @ q' # W) = entries s (U @ q # W) \<and>
     seq_fetch s1 (cur_ptr c) = Some c \<and> cur_ptr c \<notin> cur_ptr ` set (U @ q' # W)"
proof -
  note chain = replaced_chain[OF links rep q'(1)]
  have dups: "duplicates_file s1 = duplicates_file s @ []" using rep by (simp add: replaced_def)
  have old: "\<forall>r\<in>set (U @ q # W). has_dups s r" using links by (simp add: seq_links_def)
  have q'dup: "has_dups s1 q'" "entry s1 q' = entry s q"
    using positions_cong[OF dups, of q q'] old q' by (auto simp: entry_def)
  have "lseg (seq_fetch s1) next_ptr (header_ptr s1) ((U @ [q']) @ W) end_mark"
    using chain(2) by (intro lseg_appendI[OF chain(1)]) (simp add: q'(2))
  moreover have "\<forall>r\<in>set (U @ q' # W). has_dups s1 r"
    using entries_cong(2)[OF dups, of "U @ W"] old q'dup by auto
  ultimately have "seq_links s1 (U @ q' # W)" using rep by (simp add: seq_links_def replaced_def)
  moreover have "entries s1 (U @ q' # W) = entries s (U @ q # W)"
    using entries_cong(1)[OF dups, of U] entries_cong(1)[OF dups, of W] old q'dup by simp
  moreover have "distinct (map cur_ptr (U @ q # c # W))" using links by (rule seq_links_distinct)
  then have "cur_ptr c \<notin> cur_ptr ` set (U @ q' # W)" "cur_ptr c \<noteq> cur_ptr q" by (auto simp: q'(1))
  moreover have "seq_fetch s (cur_ptr c) = Some c" by (rule seq_links_fetch[OF links]) simp
  ultimately show ?thesis by (simp add: replaced_fetch[OF rep])
qed

text \<open>Overwriting a record that is not in the chain.\<close>

lemma forget_links:
  assumes links: "seq_links s L" and rep: "replaced s c e s1" and c: "cur_ptr c \<notin> cur_ptr ` set L"
  shows "seq_links s1 L \<and> entries s1 L = entries s L"
proof -
  have dups: "duplicates_file s1 = duplicates_file s @ []" using rep by (simp add: replaced_def)
  have hd: "header_ptr s1 = header_ptr s" using rep by (simp add: replaced_def header_ptr_def)
  have old: "\<forall>r\<in>set L. has_dups s r" and loc: "self_located s" using links by (simp_all add: seq_links_def)
  have ne: "r \<in> set L \<Longrightarrow> cur_ptr r \<noteq> cur_ptr c" for r using c by (metis imageI)
  have "lseg (seq_fetch s) next_ptr (header_ptr s) L end_mark" using links by (simp add: seq_links_def)
  then have "lseg (seq_fetch s1) next_ptr (header_ptr s) L end_mark"
    by (rule lseg_frame[OF _ seq_fetch_cur[OF loc]]) (auto simp: replaced_fetch[OF rep] dest: ne)
  then have "seq_links s1 L" using rep entries_cong(2)[OF dups old] by (simp add: seq_links_def hd replaced_def)
  then show ?thesis using entries_cong(1)[OF dups old] by simp
qed

lemma unlink_write:
  assumes links: "seq_links s (U @ q # c # W)" and q': "q' = seq_setNext q (next_pos c) (next_file c)"
  shows "\<exists>s1. write_tagged s (current_file q) (current_pos q) q' = Inr s1 \<and> unlinked s (U @ q # W) s1 \<and>
     (\<exists>s2. write_tagged s1 (current_file c) (current_pos c) (seq_setNext c END_OF_FILE INDEXFILE) = Inr s2 \<and>
           unlinked s (U @ q # W) s2)"
proof -
  have q: "cur_ptr q' = cur_ptr q" "next_ptr q' = next_ptr c" "data q' = data q" "raw_pos q' = raw_pos q"
    "dup_pos q' = dup_pos q"
    by (simp_all add: q' seq_setNext_def cur_ptr_def next_ptr_def)
  have loc: "self_located s" and f: "seq_fetch s (cur_ptr q) = Some q"
    using links seq_links_fetch[OF links, of q] by (auto simp: seq_links_def)
  obtain s1 where s1: "write_tagged s (current_file q) (current_pos q) q' = Inr s1" "replaced s q q' s1"
    using write_tagged_replaced[OF loc f q(1)] by blast
  note un = unlink_links[OF links s1(2) q]
  then have loc1: "self_located s1" and f1: "seq_fetch s1 (cur_ptr c) = Some c" by (simp_all add: seq_links_def)
  have "cur_ptr (seq_setNext c END_OF_FILE INDEXFILE) = cur_ptr c" by (simp add: seq_setNext_def cur_ptr_def)
  then obtain s2 where s2: "write_tagged s1 (current_file c) (current_pos c) (seq_setNext c END_OF_FILE INDEXFILE) = Inr s2"
    "replaced s1 c (seq_setNext c END_OF_FILE INDEXFILE) s2"
    using write_tagged_replaced[OF loc1 f1] by blast
  have "unlinked s (U @ q # W) s1" using un unfolding unlinked_def by blast
  moreover have "unlinked s (U @ q # W) s2" using un forget_links[OF _ s2(2)] unfolding unlinked_def by metis
  ultimately show ?thesis using s1(1) s2(1) by blast
qed

text \<open>The first record of the chain, when the header is overwritten.\<close>

lemma unlink_head:
  assumes links: "seq_links s (c # W)"
    and s1: "s1 = s\<lparr>index_header := \<lparr>sih_next_pos = next_pos c, sih_next_file = next_file c\<rparr>\<rparr>"
  shows "\<exists>s2. write_tagged s1 (current_file c) (current_pos c) (seq_setNext c END_OF_FILE INDEXFILE) = Inr s2 \<and>
     unlinked s W s2"
proof -
  have same: "seq_fetch s1 = seq_fetch s" "self_located s1 = self_located s" "duplicates_file s1 = duplicates_file s @ []"
    by (auto simp: s1 seq_fetch_def read_index_def read_aux_def self_located_def fun_eq_iff)
  have hd: "header_ptr s1 = next_ptr c" by (simp add: s1 header_ptr_def next_ptr_def)
  have old: "\<forall>r\<in>set W. has_dups s r" using links by (simp add: seq_links_def)
  have l1: "seq_links s1 W" using links entries_cong(2)[OF same(3) old] by (simp add: seq_links_def same hd)
  have e1: "entries s1 W = entries s W" by (rule entries_cong(1)[OF same(3) old])
  have loc1: "self_located s1" and f1: "seq_fetch s1 (cur_ptr c) = Some c"
    using links seq_links_fetch[OF links, of c] by (auto simp: seq_links_def same)
  have "cur_ptr (seq_setNext c END_OF_FILE INDEXFILE) = cur_ptr c" by (simp add: seq_setNext_def cur_ptr_def)
  then obtain s2 where s2: "write_tagged s1 (current_file c) (current_pos c) (seq_setNext c END_OF_FILE INDEXFILE) = Inr s2"
    "replaced s1 c (seq_setNext c END_OF_FILE INDEXFILE) s2"
    using write_tagged_replaced[OF loc1 f1] by blast
  have "cur_ptr c \<notin> cur_ptr ` set W" using seq_links_distinct[OF links] by simp
  then show ?thesis using forget_links[OF l1 s2(2)] e1 s2(1) unfolding unlinked_def by metis
qed

section \<open>The walk through the auxiliary records\<close>

lemma aux_last_loop_run:
  "self_located s \<Longrightarrow> aux_run s (next_ptr a) A q \<Longrightarrow> length A < n \<Longrightarrow>
     aux_last_loop n s a = Inr (last (a # A))"
proof (induction A arbitrary: a n)
  case Nil
  then show ?case by (cases n) auto
next
  case (Cons b A)
  then obtain m where n: "n = Suc m" "length A < m" by (cases n) auto
  have "read_aux s (next_pos a) = Inr b" "next_file a \<noteq> INDEXFILE" "aux_run s (next_ptr b) A q"
    using Cons.prems aux_run_read[of s "next_ptr a" b A q] by (auto simp: aux_run_Cons)
  with Cons.IH[OF Cons.prems(1), of b m] n show ?case by simp
qed

lemma aux_run_length:
  assumes "seq_links s L" "aux_run s p A q" "L = U @ A @ V"
  shows "length A \<le> length (aux_file s)"
  using assms seq_links_distinct[OF assms(1)]
  by (intro aux_count[OF assms(1)]) (auto simp: aux_run_def)

lemma aux_last_run:
  assumes links: "seq_links s L" and run: "aux_run s p A q" "A \<noteq> []" and L: "L = U @ A @ V"
  shows "aux_last s (fst p) = Inr (last A)"
proof -
  obtain a A' where A: "A = a # A'" using run(2) by (cases A) auto
  have loc: "self_located s" using links by (simp add: seq_links_def)
  have "length A' < Suc (length (aux_file s))" using aux_run_length[OF links run(1) L] A by simp
  moreover have "aux_run s (next_ptr a) A' q" "read_aux s (fst p) = Inr a"
    using run(1) loc aux_run_read[of s p a A' q] by (auto simp: A aux_run_Cons)
  ultimately show ?thesis using aux_last_loop_run[OF loc] by (simp add: aux_last_def A del: aux_last_loop.simps)
qed

text \<open>What erasing the key \<open>k\<close> from the chain \<open>L\<close> must do.\<close>

definition erased :: "'k :: linorder seq_index \<Rightarrow> 'k seq_record list \<Rightarrow> 'k \<Rightarrow>
    ('k seq_index \<times> physical_pos list) io \<Rightarrow> bool" where
  "erased s L k res \<longleftrightarrow>
     (if k \<in> data ` set L
      then \<exists>X c Y s'. L = X @ c # Y \<and> data c = k \<and> res = Inr (s', [raw_pos c]) \<and> unlinked s (X @ Y) s'
      else res = Inr (s, []))"

lemma erasedI:
  "L = X @ c # Y \<Longrightarrow> data c = k \<Longrightarrow> res = Inr (s', [raw_pos c]) \<Longrightarrow> unlinked s (X @ Y) s' \<Longrightarrow> erased s L k res"
  unfolding erased_def by auto

lemma erase_aux_loop_found:
  assumes links: "seq_links s (U @ prev # cur # W)" and cur: "data cur = d" "current_file cur = AUXFILE"
    and L: "L = U @ prev # cur # W"
  shows "erased s L d (erase_aux_loop (Suc n) s d prev cur)"
proof -
  from unlink_write[OF links refl] obtain s1 s2 where
    w: "write_tagged s (current_file prev) (current_pos prev) (seq_setNext prev (next_pos cur) (next_file cur)) = Inr s1"
    "write_tagged s1 (current_file cur) (current_pos cur) (seq_setNext cur END_OF_FILE INDEXFILE) = Inr s2"
    and un: "unlinked s (U @ prev # W) s2" by blast
  show ?thesis
  proof (rule erasedI)
    show "L = (U @ [prev]) @ cur # W" by (simp add: L)
    show "unlinked s ((U @ [prev]) @ W) s2" using un by simp
    show "erase_aux_loop (Suc n) s d prev cur = Inr (s2, [raw_pos cur])"
      using w cur by (simp add: write_tagged_def[of s1])
  qed (rule cur(1))
qed

lemma erase_aux_loop_run:
  assumes wf: "seq_wf s L" and L: "L = U @ prev # cur # A @ V" and run: "aux_run s (next_ptr cur) A q"
    and n: "length A < n" and aux: "current_file cur = AUXFILE" and up: "\<forall>v\<in>set V. d < data v"
    and low: "\<forall>u\<in>set (U @ [prev]). data u < d"
  shows "erased s L d (erase_aux_loop n s d prev cur)"
  using L run n aux low
proof (induction A arbitrary: U prev cur n)
  case Nil
  then obtain m where n: "n = Suc m" by (cases n) auto
  have links: "seq_links s (U @ prev # cur # V)" using wf Nil by (simp add: seq_wf_def)
  show ?case
  proof (cases "data cur = d")
    case True
    then show ?thesis using erase_aux_loop_found[OF links True Nil(4), of L] Nil(1) unfolding n by simp
  next
    case False
    then have "d \<notin> data ` set L" using Nil up by auto
    moreover have "next_file cur = INDEXFILE" using Nil by auto
    ultimately show ?thesis using False n by (simp add: erased_def)
  qed
next
  case (Cons b A)
  then obtain m where n: "n = Suc m" "length A < m" by (cases n) auto
  have loc: "self_located s" and srt: "sorted_wrt (<) (map data L)"
    and links: "seq_links s (U @ prev # cur # (b # A @ V))"
    using wf Cons.prems(1) by (auto simp: seq_wf_def seq_links_def)
  have step: "read_aux s (next_pos cur) = Inr b" "next_file cur \<noteq> INDEXFILE" "next_pos cur \<noteq> END_OF_FILE"
    and run: "aux_run s (next_ptr b) A q" and b: "current_file b = AUXFILE"
    using Cons.prems(2) loc aux_run_read[of s "next_ptr cur" b A q] aux_run_file[OF Cons.prems(2)]
      seq_fetch_not_neg1[of s "next_ptr cur" b]
    by (auto simp: aux_run_Cons)
  consider "data cur = d" | "data cur < d" | "d < data cur" by (meson less_linear)
  then show ?case
  proof cases
    case 1
    show ?thesis using erase_aux_loop_found[OF links 1 Cons.prems(4), of L] Cons.prems(1) unfolding n by simp
  next
    case 2
    have "erase_aux_loop n s d prev cur = erase_aux_loop m s d cur b" using 2 step n by auto
    moreover have "L = (U @ [prev]) @ cur # b # A @ V" "\<forall>u\<in>set ((U @ [prev]) @ [cur]). data u < d"
      using Cons.prems 2 by auto
    ultimately show ?thesis using Cons.IH[OF _ run n(2) b] by presburger
  next
    case 3
    have "\<forall>v\<in>set (b # A @ V). data cur < data v"
      using srt unfolding Cons.prems(1) by (auto simp: sorted_wrt_append)
    then have "\<forall>v\<in>set (b # A @ V). d < data v" using 3 by (auto intro: less_trans)
    then have "d \<notin> data ` set L" using Cons.prems(1,5) 3 by auto
    then show ?thesis using 3 n by (auto simp: erased_def)
  qed
qed

section \<open>Erasing\<close>

text \<open>The run after a record \<open>r\<close> of the index file.\<close>

lemma erase_aux_run:
  assumes wf: "seq_wf s L" and L: "L = U @ r # A @ V" and run: "aux_run s (next_ptr r) A q" "A \<noteq> []"
    and low: "\<forall>u\<in>set U. data u < d" "data r < d" and up: "\<forall>v\<in>set V. d < data v"
  shows "erased s L d (erase_aux s d r)"
proof -
  obtain a A' where A: "A = a # A'" using run(2) by (cases A) auto
  have loc: "self_located s" and links: "seq_links s L" using wf by (auto simp: seq_wf_def seq_links_def)
  have "L = (U @ [r]) @ A @ V" by (simp add: L)
  then have "length A' < Suc (length (aux_file s))" using aux_run_length[OF links run(1)] A by fastforce
  moreover have "aux_run s (next_ptr a) A' q" "current_file a = AUXFILE"
    "erase_aux s d r = erase_aux_loop (Suc (length (aux_file s))) s d r a"
    using run(1) loc aux_run_read[of s "next_ptr r" a A' q] aux_run_file[OF run(1)]
    by (auto simp: A aux_run_Cons erase_aux_def simp del: erase_aux_loop.simps)
  ultimately show ?thesis
    using erase_aux_loop_run[OF wf, of U r a A' V q "Suc (length (aux_file s))" d] L A low up
    by (simp del: erase_aux_loop.simps)
qed

text \<open>A record found in the index file: at the front of the chain, or after another record.\<close>

lemma erase_found_front:
  assumes wf: "seq_wf s L" and L: "L = A @ c # W" and run: "aux_run s (header_ptr s) A (cur_ptr c)"
    and pos: "current_pos c = sizeof_sih" "current_file c = INDEXFILE"
  shows "\<exists>s'. erase_found s c prev = Inr (s', [raw_pos c]) \<and> unlinked s (A @ W) s'"
proof (cases "A = []")
  case True
  have loc: "self_located s" using wf by (auto simp: seq_wf_def seq_links_def)
  let ?s1 = "s\<lparr>index_header := \<lparr>sih_next_pos = next_pos c, sih_next_file = next_file c\<rparr>\<rparr>"
  have "seq_links s (c # W)" using wf True by (simp add: L seq_wf_def)
  then obtain s2 where s2: "write_tagged ?s1 (current_file c) (current_pos c) (seq_setNext c END_OF_FILE INDEXFILE) = Inr s2"
    "unlinked s W s2" using unlink_head[OF _ refl] by metis
  moreover have "sih_next_file (index_header s) = INDEXFILE"
    using aux_run_next[OF run loc] True by (simp add: header_ptr_def)
  ultimately show ?thesis using pos True by (simp add: erase_found_def Let_def write_tagged_def)
next
  case False
  then obtain U a where A: "A = U @ [a]" by (metis rev_exhaust)
  have loc: "self_located s" and links: "seq_links s L" using wf by (auto simp: seq_wf_def seq_links_def)
  have "seq_links s (U @ a # c # W)" using links by (simp add: L A)
  from unlink_write[OF this refl] obtain s1 where s1:
    "write_tagged s (current_file a) (current_pos a) (seq_setNext a (next_pos c) (next_file c)) = Inr s1"
    "unlinked s (U @ a # W) s1" by blast
  have "sih_next_file (index_header s) \<noteq> INDEXFILE"
    using aux_run_next[OF run loc] False by (simp add: header_ptr_def)
  moreover have "aux_last s (sih_next_pos (index_header s)) = Inr a"
    using aux_last_run[OF links run False, of "[]" "c # W"] by (simp add: L A header_ptr_def)
  moreover have "current_file a = AUXFILE" using aux_run_file[OF run] A by simp
  ultimately show ?thesis using s1 pos by (simp add: erase_found_def Let_def write_tagged_def A)
qed

lemma erase_found_after:
  assumes wf: "seq_wf s L" and L: "L = U @ r # A @ c # W" and run: "aux_run s (next_ptr r) A (cur_ptr c)"
    and pos: "current_pos c \<noteq> sizeof_sih" "current_file c = INDEXFILE" "current_file r = INDEXFILE"
  shows "\<exists>s'. erase_found s c (Some r) = Inr (s', [raw_pos c]) \<and> unlinked s (U @ r # A @ W) s'"
proof (cases "A = []")
  case True
  have loc: "self_located s" using wf by (auto simp: seq_wf_def seq_links_def)
  have "seq_links s (U @ r # c # W)" using wf True by (simp add: L seq_wf_def)
  from unlink_write[OF this refl] obtain s1 s2 where
    "write_tagged s (current_file r) (current_pos r) (seq_setNext r (next_pos c) (next_file c)) = Inr s1"
    "write_tagged s1 (current_file c) (current_pos c) (seq_setNext c END_OF_FILE INDEXFILE) = Inr s2"
    "unlinked s (U @ r # W) s2" by blast
  moreover have "next_file r = INDEXFILE" using aux_run_next[OF run loc] True by simp
  ultimately show ?thesis using pos True by (simp add: erase_found_def Let_def write_tagged_def)
next
  case False
  then obtain B a where A: "A = B @ [a]" by (metis rev_exhaust)
  have loc: "self_located s" and links: "seq_links s L" using wf by (auto simp: seq_wf_def seq_links_def)
  have "seq_links s ((U @ r # B) @ a # c # W)" using links by (simp add: L A)
  from unlink_write[OF this refl] obtain s1 s2 where s1:
    "write_tagged s (current_file a) (current_pos a) (seq_setNext a (next_pos c) (next_file c)) = Inr s1"
    "write_tagged s1 (current_file c) (current_pos c) (seq_setNext c END_OF_FILE INDEXFILE) = Inr s2"
    "unlinked s ((U @ r # B) @ a # W) s2" by blast
  have "next_file r \<noteq> INDEXFILE" using aux_run_next[OF run loc] False by simp
  moreover have "aux_last s (next_pos r) = Inr a"
    using aux_last_run[OF links run False, of "U @ [r]" "c # W"] by (simp add: L A)
  moreover have "current_file a = AUXFILE" using aux_run_file[OF run] A by simp
  ultimately show ?thesis using s1 pos by (simp add: erase_found_def Let_def write_tagged_def A)
qed

text \<open>
  The keys that can be removed: those in front of the index file, where the header points to an
  auxiliary record, cannot.
\<close>

definition removable :: "'k :: linorder seq_index \<Rightarrow> 'k \<Rightarrow> bool" where
  "removable s k \<longleftrightarrow> sih_next_file (index_header s) = INDEXFILE \<or>
     (case index_file s of [] \<Rightarrow> True | r # _ \<Rightarrow> data r \<le> k)"

lemma seq_erase_cur:
  assumes wf: "seq_wf s L" and b: "binarySearch s k = Inr b"
    and found: "bs_found (index_file s) (index_header s) k b" and loc: "location b = REC_CUR"
  shows "erased s L k (seq_erase s k)"
  using found
proof cases
  case (Cur i)
  let ?xs = "index_file s"
  let ?c = "?xs ! i"
  have pos: "cur_ptr ?c = (slot_pos sizeof_sih sizeof_sir i, INDEXFILE)"
    using wf Cur(1) by (auto simp: seq_wf_def seq_links_def self_located_def)
  then have tag: "current_file ?c = INDEXFILE" "current_pos ?c = slot_pos sizeof_sih sizeof_sir i"
    by (simp_all add: cur_ptr_def)
  have er: "seq_erase s k = erase_found s ?c (sir_prev b)"
    using b Cur by (simp add: seq_erase_def)
  show ?thesis
  proof (cases i)
    case 0
    obtain A V where g: "L = A @ V" "aux_run s (header_ptr s) A (run_end V)"
      "filter (\<lambda>r. current_file r = INDEXFILE) V = ?xs" "V = [] \<or> current_file (hd V) = INDEXFILE"
      using gap_front[OF wf] by metis
    have "V \<noteq> []" "hd V = ?c" using gap_hd[OF g(3,4)] Cur(1) 0 by (auto simp: hd_conv_nth)
    then obtain W where V: "V = ?c # W" by (metis list.collapse)
    have "current_pos ?c = sizeof_sih" using tag(2) 0 by (simp add: slot_pos_def)
    from erase_found_front[OF wf _ _ this tag(1), of A W "sir_prev b"] g(1,2) V
    obtain s' where "erase_found s ?c (sir_prev b) = Inr (s', [raw_pos ?c])" "unlinked s (A @ W) s'"
      by (auto simp: run_end_def)
    moreover have "k \<in> data ` set L" using g(1) V Cur(5) by force
    ultimately show ?thesis using er g(1) V Cur(5) unfolding erased_def by auto
  next
    case (Suc j)
    then have j: "j < length ?xs" using Cur(1) by simp
    let ?r = "?xs ! j"
    obtain U A V where g: "L = U @ ?r # A @ V" "aux_run s (next_ptr ?r) A (run_end V)"
      "filter (\<lambda>r. current_file r = INDEXFILE) V = drop (Suc j) ?xs" "V = [] \<or> current_file (hd V) = INDEXFILE"
      using gap_after[OF wf j] by metis
    have "V \<noteq> []" "hd V = ?c" using gap_hd[OF g(3,4)] Cur(1) Suc by (auto simp: hd_drop_conv_nth)
    then obtain W where V: "V = ?c # W" by (metis list.collapse)
    have "current_pos ?c \<noteq> sizeof_sih"
      using tag(2) slot_pos_inject[of sizeof_sir sizeof_sih i 0] Suc by (simp add: slot_pos_def)
    moreover have "current_file ?r = INDEXFILE"
      using wf j by (auto simp: seq_wf_def seq_links_def self_located_def cur_ptr_def)
    ultimately obtain s' where "erase_found s ?c (Some ?r) = Inr (s', [raw_pos ?c])" "unlinked s (U @ ?r # A @ W) s'"
      using erase_found_after[OF wf _ _ _ tag(1), of U ?r A W] g(1,2) V by (auto simp: run_end_def)
    moreover have "sir_prev b = Some ?r" using Cur(6) Suc by simp
    moreover have "L = (U @ ?r # A) @ ?c # W" using g(1) V by simp
    moreover have "k \<in> data ` set L" using g(1) V Cur(5) by force
    ultimately show ?thesis using er Cur(5) unfolding erased_def by (metis append.assoc append_Cons)
  qed
qed (use loc in auto)

lemma seq_erase_gap:
  assumes wf: "seq_wf s L" and b: "binarySearch s k = Inr b" "location b \<noteq> EMPTY_FILE"
    and found: "bs_found (index_file s) (index_header s) k b" and cur: "location b \<noteq> REC_CUR"
    and ok: "removable s k"
  shows "erased s L k (seq_erase s k)"
proof -
  have loc: "self_located s" using wf by (auto simp: seq_wf_def seq_links_def)
  from wf found cur show ?thesis
  proof (cases rule: bs_gap_cases)
    case (front A V)
    have "index_file s = filter (\<lambda>r. current_file r = INDEXFILE) L" using wf by (simp add: seq_wf_def)
    also have "\<dots> = filter (\<lambda>r. current_file r = INDEXFILE) A @ hd V # filter (\<lambda>r. current_file r = INDEXFILE) (tl V)"
      using front(4,6,8) by (cases V) auto
    also have "filter (\<lambda>r. current_file r = INDEXFILE) A = []"
      using front(5) by (auto simp: aux_run_def filter_empty_conv)
    finally have "index_file s = hd V # filter (\<lambda>r. current_file r = INDEXFILE) (tl V)" by simp
    moreover have "k < data (hd V)" using front(6,7) by simp
    ultimately have hf: "sih_next_file (index_header s) = INDEXFILE" using ok by (auto simp: removable_def)
    then have "A = []" using aux_run_next[OF front(5) loc] by (simp add: header_ptr_def)
    then have "k \<notin> data ` set L" using front(4,7) by auto
    moreover have "seq_erase s k = Inr (s, [])" using b cur front(1,2) hf by (simp add: seq_erase_def erase_absent_def)
    ultimately show ?thesis by (simp add: erased_def)
  next
    case (after r U A V)
    have run: "next_file r = INDEXFILE \<longleftrightarrow> A = []" using aux_run_next[OF after(4) loc] by simp
    show ?thesis
    proof (cases "A = []")
      case True
      then have "k \<notin> data ` set L" using after by auto
      moreover have "seq_erase s k = Inr (s, [])" using b cur after(1,2) run True
        by (auto simp: seq_erase_def erase_absent_def ends_run_def)
      ultimately show ?thesis by (simp add: erased_def)
    next
      case False
      then obtain a where "seq_fetch s (next_ptr r) = Some a" using after(4) loc by (cases A) (auto simp: aux_run_Cons)
      then have "next_pos r \<noteq> END_OF_FILE" using seq_fetch_not_neg1 by fastforce
      then have "seq_erase s k = erase_aux s k r" using b cur after(1,2) run False
        by (auto simp: seq_erase_def erase_absent_def ends_run_def)
      then show ?thesis using erase_aux_run[OF wf after(3,4) False after(6,7,8)] by simp
    qed
  qed
qed

end
