(* ===== verification/SeqContract.thy ===== *)
theory SeqContract
  imports SeqRemove
begin

text \<open>
  The operations of the sequential index against the specification: the interpretation of
  \<open>ordered_index\<close>, and the simulation of sequences of operations that start with empty files.
\<close>

section \<open>The operations on represented lists\<close>

lemma seq_repr_ordered: "seq_repr s m \<Longrightarrow> ordered m"
  by (auto simp: seq_repr_def seq_wf_def ordered_entries)

text \<open>The auxiliary file is kept short: at most the logarithm of the number of index records.\<close>

lemma validNumberRecords_iff:
  "validNumberRecords s \<longleftrightarrow> 2 ^ length (aux_file s) \<le> length (index_file s)"
proof -
  have "validNumberRecords s \<longleftrightarrow> int (2 ^ length (aux_file s)) \<le> int (length (index_file s))"
    by (simp add: validNumberRecords_def)
  then show ?thesis by (simp only: of_nat_le_iff)
qed

text \<open>What the \<open>try\<close> block leaves, and the rebuild after it.\<close>

lemma seq_add_repr:
  assumes rep: "seq_repr s m" and ok: "front_ok s m k"
  shows "if pk \<and> k \<in> fst ` set m then seq_add_rebuild ov pk rb s k p = Inl RuntimeError
     else \<exists>s'. seq_add_rebuild ov pk rb s k p = Inr (s', if m = [] then [p, p] else [p]) \<and>
       seq_repr s' (insert_entry k p m) \<and> (rb \<longrightarrow> validNumberRecords s') \<and>
       ((\<forall>e\<in>set m. k < fst e) \<or> index_header s' = index_header s \<or> sih_next_file (index_header s') = INDEXFILE)"
proof -
  obtain L where wf: "seq_wf s L" and m: "m = entries s L" using rep by (auto simp: seq_repr_def)
  have keys: "fst ` set m = data ` set L" unfolding m by (rule entries_keys)
  have all: "(\<forall>e\<in>set m. k < fst e) \<longleftrightarrow> (\<forall>x\<in>set L. k < data x)" by (simp add: m)
  note place = add_place_wf[OF wf, of k pk ov p] 
  show ?thesis
  proof (cases "pk \<and> k \<in> data ` set L")
    case True
    then have "add_place ov pk s k p = Inl RuntimeError" using place ok m by (simp only: if_True)
    then show ?thesis using True keys by (simp add: seq_add_rebuild_def)
  next
    case False
    then obtain s1 where s1: "add_place ov pk s k p = Inr (s1, if L = [] then [p] else [])"
      "seq_repr s1 (insert_entry k p m)" "(\<forall>x\<in>set L. k < data x) \<or> index_header s1 = index_header s"
      using place ok m by (auto simp only: if_False)
    show ?thesis
    proof (cases "rb \<and> \<not> validNumberRecords s1")
      case True
      obtain L1 where L1: "seq_wf s1 L1" "insert_entry k p m = entries s1 L1"
        using s1(2) by (auto simp: seq_repr_def)
      then obtain s2 where s2: "rebuild s1 = Inr s2" "seq_repr s2 (insert_entry k p m)" "aux_file s2 = []"
        "length (index_file s2) = length L1" "sih_next_file (index_header s2) = INDEXFILE"
        using rebuild_links[of s1 L1] by (auto simp: seq_wf_def)
      have "L1 \<noteq> []" using L1(2) insert_entry_not_Nil[of k p m] by auto
      then have "validNumberRecords s2" using s2(3,4) by (simp add: validNumberRecords_iff Suc_leI)
      then show ?thesis using False keys True s1(1) s2 by (auto simp: seq_add_rebuild_def m)
    next
      case valid: False
      then show ?thesis using False keys s1 all by (auto simp: seq_add_rebuild_def m)
    qed
  qed
qed

lemma seq_add_refused:
  "seq_repr s m \<Longrightarrow> front_ok s m k \<Longrightarrow> pk \<Longrightarrow> k \<in> fst ` set m \<Longrightarrow> seq_add ov pk s k p = Inl RuntimeError"
  using seq_add_repr[of s m k pk ov True p] by (simp add: seq_add_def)

lemma seq_add_inserted:
  assumes "seq_repr s m" "front_ok s m k" "\<not> (pk \<and> k \<in> fst ` set m)"
  obtains s' where "seq_add ov pk s k p = Inr (s', if m = [] then [p, p] else [p])"
    "seq_repr s' (insert_entry k p m)" "validNumberRecords s'"
    "(\<forall>e\<in>set m. k < fst e) \<or> index_header s' = index_header s \<or> sih_next_file (index_header s') = INDEXFILE"
  using seq_add_repr[OF assms(1,2), of pk ov True p] assms(3) by (auto simp only: seq_add_def if_False simp_thms)

lemma seq_search_repr: "seq_repr s m \<Longrightarrow> seq_search s k = Inr (lookup_entry k m)"
  by (auto simp: seq_repr_def lookup_entry_def seq_search_wf)

lemma seq_range_search_repr:
  assumes "seq_repr s m"
  shows "seq_range_search s lo hi = Inr (range_entry lo hi m)"
proof (cases "lo \<le> hi")
  case True
  with assms show ?thesis by (auto simp: seq_repr_def range_entry_def seq_range_search_wf)
next
  case False
  then have "filter (\<lambda>(k, _). lo \<le> k \<and> k \<le> hi) m = []"
    by (auto simp: filter_empty_conv dest: order_trans)
  with False show ?thesis by (simp add: seq_range_search_def range_entry_def not_le)
qed

lemma positions_hd: "has_dups s r \<Longrightarrow> hd (positions s r) = raw_pos r"
  by (auto simp: has_dups_def positions_chain)

lemma seq_remove_repr:
  assumes rep: "seq_repr s m" and ok: "removable s k"
  shows "if k \<in> fst ` set m
     then \<exists>s'. seq_remove s k = Inr (s', [hd (lookup_entry k m)]) \<and> seq_repr s' (delete_entry k m) \<and>
       aux_file s' = [] \<and> length (index_file s') = length m - 1 \<and> sih_next_file (index_header s') = INDEXFILE
     else seq_remove s k = Inr (s, [])"
proof -
  obtain L where wf: "seq_wf s L" and m: "m = entries s L" using rep by (auto simp: seq_repr_def)
  have keys: "fst ` set m = data ` set L" unfolding m by (rule entries_keys)
  have "if k \<in> data ` set L then erased s L k (seq_erase s k) else seq_erase s k = Inr (s, [])"
    using wf
  proof (cases rule: seq_wf_cases[where d = k])
    case (empty b)
    then show ?thesis by (simp add: seq_erase_def)
  next
    case (found b)
    have "erased s L k (seq_erase s k)"
      using seq_erase_cur[OF wf found(2,4)] seq_erase_gap[OF wf found(2,3,4) _ ok] by blast
    then show ?thesis by (auto simp: erased_def)
  qed
  moreover have ?thesis if present: "k \<in> data ` set L" and er: "erased s L k (seq_erase s k)"
  proof -
    obtain X c Y s1 where e: "L = X @ c # Y" "data c = k" "seq_erase s k = Inr (s1, [raw_pos c])"
      "unlinked s (X @ Y) s1" using present er by (auto simp: erased_def)
    then obtain L1 where L1: "seq_links s1 L1" "entries s1 L1 = entries s (X @ Y)" by (auto simp: unlinked_def)
    have srt: "sorted_wrt (<) (map data L)" using wf by (simp add: seq_wf_def)
    then have "ordered (entries s (X @ Y))" unfolding ordered_entries e(1) by (auto simp: sorted_wrt_append)
    then have "sorted_wrt (<) (map data L1)" unfolding L1(2)[symmetric] ordered_entries .
    then obtain s2 where s2: "rebuild s1 = Inr s2" "seq_repr s2 (entries s (X @ Y))" "aux_file s2 = []"
      "length (index_file s2) = length L1" "sih_next_file (index_header s2) = INDEXFILE"
      using rebuild_links[OF L1(1)] L1(2) by auto
    have "length L1 = length m - 1" using L1(2) m e(1) by (metis add_Suc_right diff_Suc_1 length_Cons length_append length_map)
    moreover have "\<forall>r\<in>set (X @ Y). data r \<noteq> k" using srt e(1,2) by (auto simp: sorted_wrt_append)
    then have "delete_entry k m = entries s (X @ Y)"
      using e(1,2) m by (auto simp: delete_entry_def entry_def filter_id_conv)
    moreover have "around k L X c Y" using srt e(1,2) by (auto simp: around_def sorted_wrt_append)
    from map_of_around[OF this, of s] have "lookup_entry k m = positions s c"
      using e(2) by (simp add: lookup_entry_def m)
    then have "hd (lookup_entry k m) = raw_pos c"
      using wf e(1) by (auto simp: seq_wf_def seq_links_def positions_hd)
    ultimately show ?thesis using present keys e(3) s2 by (simp add: seq_remove_def)
  qed
  moreover have "seq_remove s k = Inr (s, [])" if "seq_erase s k = Inr (s, [])"
    using that by (simp add: seq_remove_def)
  ultimately show ?thesis using keys by (cases "k \<in> data ` set L") simp_all
qed

section \<open>The sequential index is an ordered index\<close>

interpretation seq: ordered_index seq_repr "seq_add ov pk" seq_search seq_range_search seq_remove front_ok removable pk
  for ov pk
proof
  fix s :: "'a :: linorder seq_index" and m k p lo hi
  assume rep: "seq_repr s m"
  show "ordered m" by (rule seq_repr_ordered[OF rep])
  show "seq_search s k = Inr (lookup_entry k m)" by (rule seq_search_repr[OF rep])
  show "seq_range_search s lo hi = Inr (range_entry lo hi m)" by (rule seq_range_search_repr[OF rep])
  show "\<exists>s' ps. seq_add ov pk s k p = Inr (s', ps) \<and> p \<in> set ps \<and> seq_repr s' (insert_entry k p m)"
    if "front_ok s m k" "\<not> (pk \<and> k \<in> fst ` set m)"
    by (rule seq_add_inserted[OF rep that, of ov p]) auto
  show "seq_add ov pk s k p = Inl RuntimeError" if "front_ok s m k" pk "k \<in> fst ` set m"
    by (rule seq_add_refused[OF rep that])
  show "\<exists>s'. seq_remove s k = Inr (s', [hd (lookup_entry k m)]) \<and> seq_repr s' (delete_entry k m)"
    if "removable s k" "k \<in> fst ` set m" using seq_remove_repr[OF rep that(1)] that(2) by auto
  show "seq_remove s k = Inr (s, [])" if "removable s k" "k \<notin> fst ` set m"
    using seq_remove_repr[OF rep that(1)] that(2) by auto
qed

section \<open>Reachable indexes\<close>

text \<open>One operation on the files; an exception leaves them as they were.\<close>

inductive seq_step ::
  "(seq_header \<Rightarrow> 'k :: linorder seq_record \<Rightarrow> 'k seq_record) \<Rightarrow> bool \<Rightarrow> 'k seq_index \<Rightarrow> 'k index_op \<Rightarrow>
     'k seq_index \<Rightarrow> bool" for ov pk where
  added: "seq_add ov pk s k p = Inr (s', ps) \<Longrightarrow> seq_step ov pk s (Add k p) s'"
| refused: "seq_add ov pk s k p = Inl RuntimeError \<Longrightarrow> seq_step ov pk s (Add k p) s"
| removed: "seq_remove s k = Inr (s', ps) \<Longrightarrow> seq_step ov pk s (Remove k) s'"

inductive_cases seq_step_AddE: "seq_step ov pk s (Add k p) s'"
inductive_cases seq_step_RemoveE: "seq_step ov pk s (Remove k) s'"

text \<open>
  \<open>seq_reach ov pk s m\<close>: from empty files, operations that never add a key smaller than all others
  lead to \<open>s\<close>; \<open>m\<close> is the list the specification has after the same operations.
\<close>

inductive seq_reach ::
  "(seq_header \<Rightarrow> 'k :: linorder seq_record \<Rightarrow> 'k seq_record) \<Rightarrow> bool \<Rightarrow> 'k seq_index \<Rightarrow> 'k entries \<Rightarrow> bool"
  for ov pk where
  init: "seq_reach ov pk createFile []"
| step: "seq_reach ov pk s m \<Longrightarrow> m = [] \<or> fst (hd m) \<le> op_key a \<Longrightarrow> seq_step ov pk s a s' \<Longrightarrow>
    seq_reach ov pk s' (spec_step pk a m)"

lemma createFile_repr: "seq_repr createFile []"
  by (rule seq_reprI[of _ "[]"])
    (simp_all add: seq_wf_def seq_links_def self_located_def header_ptr_def createFile_def)

text \<open>The invariant of the reachable indexes.\<close>

definition seq_inv :: "'k :: linorder seq_index \<Rightarrow> 'k entries \<Rightarrow> bool" where
  "seq_inv s m \<longleftrightarrow> seq_repr s m \<and> sih_next_file (index_header s) = INDEXFILE \<and>
     (m \<noteq> [] \<longrightarrow> validNumberRecords s)"

lemma seq_inv_guards: "seq_inv s m \<Longrightarrow> front_ok s m k \<and> removable s k"
  by (simp add: seq_inv_def front_ok_def removable_def)

lemma first_not_above:
  fixes k :: "'k :: linorder"
  shows "m \<noteq> [] \<Longrightarrow> fst (hd m) \<le> k \<Longrightarrow> \<not> (\<forall>e\<in>set m. k < fst e)"
  by (cases m) (auto simp: not_less)

text \<open>On an empty list the new record goes to the index file and the header points to it.\<close>

lemma seq_add_empty_header:
  assumes "seq_repr s []" "seq_add_rebuild ov pk rb s k p = Inr (s', ps)"
  shows "sih_next_file (index_header s') = INDEXFILE"
proof -
  have "seq_wf s []" using assms(1) by (auto simp: seq_repr_def)
  then have e: "index_file s = []" by (simp add: seq_wf_def)
  obtain b where b: "binarySearch s k = Inr b" "location b = EMPTY_FILE" using binarySearch_empty[OF e] by blast
  have "add_place ov pk s k p = Inr (s1, rs) \<Longrightarrow> sih_next_file (index_header s1) = INDEXFILE" for s1 rs
    using b by (auto simp: add_place_def Let_def write_index_def bind_io_eq_Inr)
  moreover have "rebuild s1 = Inr s2 \<Longrightarrow> sih_next_file (index_header s2) = INDEXFILE" for s1 s2 :: "'a seq_index"
    by (auto simp: rebuild_def bind_io_eq_Inr split: if_splits)
  ultimately show ?thesis using assms(2)
    by (auto simp: seq_add_rebuild_def bind_io_eq_Inr split: if_splits)
qed

lemma seq_inv_add:
  assumes inv: "seq_inv s m" and front: "m = [] \<or> fst (hd m) \<le> k" and add: "seq_add ov pk s k p = Inr (s', ps)"
  shows "\<not> (pk \<and> k \<in> fst ` set m) \<and> seq_inv s' (insert_entry k p m)"
proof -
  have rep: "seq_repr s m" and ok: "front_ok s m k" using inv seq_inv_guards by (auto simp: seq_inv_def)
  have new: "\<not> (pk \<and> k \<in> fst ` set m)" 
  proof
    assume "pk \<and> k \<in> fst ` set m"
    then show False using seq_add_refused[OF rep ok, of pk ov p] add by simp
  qed
  have "seq_repr s' (insert_entry k p m) \<and> validNumberRecords s' \<and>
      ((\<forall>e\<in>set m. k < fst e) \<or> index_header s' = index_header s \<or> sih_next_file (index_header s') = INDEXFILE)"
    by (rule seq_add_inserted[OF rep ok new, of ov p]) (use add in auto)
  moreover have "sih_next_file (index_header s') = INDEXFILE" if "m = []"
    using seq_add_empty_header[of s ov pk True k p] rep add that by (simp add: seq_add_def)
  ultimately show ?thesis using inv new front first_not_above[of m k] by (auto simp: seq_inv_def)
qed

lemma seq_inv_remove:
  assumes inv: "seq_inv s m" and rm: "seq_remove s k = Inr (s', ps)"
  shows "seq_inv s' (delete_entry k m)"
proof (cases "k \<in> fst ` set m")
  case True
  have rep: "seq_repr s m" and ok: "removable s k" using inv seq_inv_guards by (auto simp: seq_inv_def)
  have s': "seq_repr s' (delete_entry k m)" "aux_file s' = []" "sih_next_file (index_header s') = INDEXFILE"
    using seq_remove_repr[OF rep ok] True rm by auto
  then have "validNumberRecords s'" if "delete_entry k m \<noteq> []"
    using that by (cases "index_file s'") (auto simp: validNumberRecords_iff seq_repr_def seq_wf_def)
  with s' show ?thesis by (simp add: seq_inv_def)
next
  case False
  then have "s' = s" using seq_remove_repr[of s m k] seq_inv_guards[OF inv] inv rm by (simp add: seq_inv_def)
  then show ?thesis using inv False by (simp add: delete_entry_absent)
qed

text \<open>Simulation: every reachable index represents the list of the specification.\<close>

lemma seq_reach_inv: "seq_reach ov pk s m \<Longrightarrow> seq_inv s m"
proof (induction rule: seq_reach.induct)
  case init
  show ?case using createFile_repr by (simp add: seq_inv_def createFile_def)
next
  case (step s m a s')
  from step.hyps(3) show ?case
  proof cases
    case (added k p ps)
    then show ?thesis using seq_inv_add[OF step.IH _ added(2)] step.hyps(2) by (auto split: if_splits)
  next
    case (refused k p)
    have rep: "seq_repr s m" and ok: "front_ok s m k" using step.IH seq_inv_guards by (auto simp: seq_inv_def)
    have "pk \<and> k \<in> fst ` set m"
      by (rule ccontr, rule seq_add_inserted[OF rep ok, of pk ov p]) (use refused in auto)
    then show ?thesis using refused step.IH by simp
  next
    case (removed k ps)
    then show ?thesis using seq_inv_remove[OF step.IH] by simp
  qed
qed

text \<open>Progress: a reachable index always takes the next operation.\<close>

lemma seq_reach_step:
  assumes "seq_reach ov pk s m"
  shows "\<exists>s'. seq_step ov pk s a s'"
proof -
  have rep: "seq_repr s m" and ok: "front_ok s m k" "removable s k" for k
    using seq_reach_inv[OF assms] seq_inv_guards[of s m k] by (auto simp: seq_inv_def)
  show ?thesis
  proof (cases a)
    case (Add k p)
    show ?thesis
    proof (cases "pk \<and> k \<in> fst ` set m")
      case True
      then show ?thesis using seq_add_refused[OF rep ok(1), of pk k ov p] Add by (auto intro: seq_step.refused)
    next
      case False
      show ?thesis by (rule seq_add_inserted[OF rep ok(1) False, of ov p]) (use Add in \<open>auto intro: seq_step.added\<close>)
    qed
  next
    case (Remove k)
    then show ?thesis using seq_remove_repr[OF rep ok(2), of k] by (auto split: if_splits intro: seq_step.removed)
  qed
qed

section \<open>Loading many records\<close>

text \<open>\<open>loadRecords\<close>: additions without a rebuild, and one rebuild at the end.\<close>

definition load_inv :: "'k :: linorder seq_index \<Rightarrow> 'k entries \<Rightarrow> bool" where
  "load_inv s m \<longleftrightarrow> seq_repr s m \<and> sih_next_file (index_header s) = INDEXFILE"

lemma load_inv_add:
  assumes inv: "load_inv s m" and front: "m = [] \<or> fst (hd m) \<le> k" and new: "\<not> (pk \<and> k \<in> fst ` set m)"
  shows "\<exists>s' ps. seq_addNotRebuild ov pk s k p = Inr (s', ps) \<and> load_inv s' (insert_entry k p m)"
proof -
  have rep: "seq_repr s m" and ok: "front_ok s m k" using inv by (auto simp: load_inv_def front_ok_def)
  obtain s' ps where s': "seq_addNotRebuild ov pk s k p = Inr (s', ps)" "seq_repr s' (insert_entry k p m)"
    "(\<forall>e\<in>set m. k < fst e) \<or> index_header s' = index_header s \<or> sih_next_file (index_header s') = INDEXFILE"
    using seq_add_repr[OF rep ok, of pk ov False p] new by (auto simp only: seq_addNotRebuild_def if_False)
  have "sih_next_file (index_header s') = INDEXFILE" if "m = []"
    using seq_add_empty_header[of s ov pk False k p] rep s'(1) that by (simp add: seq_addNotRebuild_def)
  then have "load_inv s' (insert_entry k p m)"
    using s'(2,3) inv front first_not_above[of m k] by (auto simp: load_inv_def)
  with s'(1) show ?thesis by blast
qed

definition load_entries :: "('k :: linorder \<times> physical_pos) list \<Rightarrow> 'k entries \<Rightarrow> 'k entries" where
  "load_entries xs m = fold (\<lambda>(k, p). insert_entry k p) xs m"

lemma load_entries_simps [simp]:
  "load_entries [] m = m" "load_entries ((k, p) # xs) m = load_entries xs (insert_entry k p m)"
  by (simp_all add: load_entries_def)

lemma insert_entry_hd: "m = [] \<or> fst (hd m) \<le> k \<Longrightarrow> fst (hd (insert_entry k p m)) = (if m = [] then k else fst (hd m))"
  by (cases m) (auto simp: not_less)

lemma loadRecords_loop_inv:
  assumes "load_inv s m" "m \<noteq> []" "\<forall>x\<in>set xs. fst (hd m) \<le> fst x"
    "pk \<Longrightarrow> distinct (map fst xs) \<and> fst ` set xs \<inter> fst ` set m = {}"
  shows "\<exists>s'. loadRecords_loop ov pk s xs = Inr s' \<and> load_inv s' (load_entries xs m)"
  using assms
proof (induction xs arbitrary: s m)
  case (Cons x xs)
  obtain k p where x: "x = (k, p)" by fastforce
  then obtain s1 ps where s1: "seq_addNotRebuild ov pk s k p = Inr (s1, ps)" "load_inv s1 (insert_entry k p m)"
    using load_inv_add[OF Cons.prems(1), of k pk ov p] Cons.prems(3,4) by auto
  have "\<forall>y\<in>set xs. fst (hd (insert_entry k p m)) \<le> fst y"
    using insert_entry_hd[of m k p] Cons.prems(2,3) x by simp
  moreover have "pk \<Longrightarrow> distinct (map fst xs) \<and> fst ` set xs \<inter> fst ` set (insert_entry k p m) = {}"
    using Cons.prems(4) x by (auto simp: insert_entry_keys)
  ultimately show ?case using Cons.IH[OF s1(2)] s1(1) x by simp
qed simp

lemma loadRecords_repr:
  assumes "load_inv s m" "\<forall>x\<in>set xs. fst (hd (if m = [] then [(fst (hd xs), [])] else m)) \<le> fst x"
    "pk \<Longrightarrow> distinct (map fst xs) \<and> fst ` set xs \<inter> fst ` set m = {}"
  shows "\<exists>s'. loadRecords ov pk s xs = Inr s' \<and> seq_repr s' (load_entries xs m) \<and> aux_file s' = []"
proof -
  have "\<exists>s1. loadRecords_loop ov pk s xs = Inr s1 \<and> load_inv s1 (load_entries xs m)"
  proof (cases "m = [] \<and> xs \<noteq> []")
    case True
    then obtain k p ys where xs: "xs = (k, p) # ys" by (cases xs) auto
    obtain s1 ps where s1: "seq_addNotRebuild ov pk s k p = Inr (s1, ps)" "load_inv s1 (insert_entry k p m)"
      using load_inv_add[OF assms(1), of k pk ov p] True by auto
    have "\<exists>s'. loadRecords_loop ov pk s1 ys = Inr s' \<and> load_inv s' (load_entries ys (insert_entry k p m))"
      using assms(2,3) True xs by (intro loadRecords_loop_inv[OF s1(2)]) auto
    then show ?thesis using s1(1) xs by simp
  next
    case False
    then show ?thesis
    proof (cases xs)
      case Nil
      then show ?thesis using assms(1) by simp
    next
      case (Cons y ys)
      then show ?thesis using assms(2,3) False by (intro loadRecords_loop_inv[OF assms(1)]) auto
    qed
  qed
  then obtain s1 L where s1: "loadRecords_loop ov pk s xs = Inr s1" "seq_wf s1 L" "load_entries xs m = entries s1 L"
    by (auto simp: load_inv_def seq_repr_def)
  then obtain s2 where "rebuild s1 = Inr s2" "seq_repr s2 (load_entries xs m)" "aux_file s2 = []"
    using rebuild_links[of s1 L] by (auto simp: seq_wf_def)
  then show ?thesis using s1(1) by (simp add: loadRecords_def)
qed

section \<open>In front of the index file\<close>

text \<open>
  Where the header points to an auxiliary record and the key is smaller than the first key of the
  index file, the operations go wrong: \<open>add\<close> of a new smallest key writes the header over the
  first auxiliary record, and \<open>remove\<close> does not remove the key.
\<close>

lemma front_cases:
  assumes wf: "seq_wf s L" and ne: "L \<noteq> []" and hf: "sih_next_file (index_header s) \<noteq> INDEXFILE"
    and low: "k < data (hd (index_file s))"
  obtains b a A V where "binarySearch s k = Inr b" "location b = REC_PREV" "header b" "sih b = index_header s"
    "L = (a # A) @ V" "read_aux s (sih_next_pos (index_header s)) = Inr a" "current_file a = AUXFILE"
    "sih_next_file (index_header s) = AUXFILE"
    "if length (index_file s) = 1 then sir_prev b = None else \<exists>r\<in>set (index_file s). sir_prev b = Some r"
  using wf
proof (cases rule: seq_wf_cases[where d = k])
  case (found b)
  let ?xs = "index_file s"
  have srt: "index_sorted ?xs" by (rule seq_wf_index_sorted[OF wf])
  have above: "k < data (?xs ! i)" if "i < length ?xs" for i
  proof -
    have "?xs ! 0 = hd ?xs" "0 < length ?xs" using that by (cases ?xs; simp)+
    then show ?thesis using that low index_sorted_data[OF srt, of 0 i] by (cases "i = 0") (auto intro: less_trans)
  qed
  have b: "location b = REC_PREV \<and> header b \<and> sih b = index_header s \<and>
      (if length ?xs = 1 then sir_prev b = None else \<exists>r\<in>set ?xs. sir_prev b = Some r)"
    using found(4)
  proof cases
    case (Cur i)
    then show ?thesis using above[of i] by simp
  next
    case (Prev i)
    then show ?thesis using above[of "i - 1"] less_asym[of k "data (?xs ! (i - 1))"] by simp
  next
    case (Next i)
    then show ?thesis using above[of i] less_asym[of k "data (?xs ! i)"] by simp
  qed simp
  obtain A V where g: "L = A @ V" "aux_run s (header_ptr s) A (run_end V)" using gap_front[OF wf] by metis
  have loc: "self_located s" using wf by (auto simp: seq_wf_def seq_links_def)
  have "A \<noteq> []" using aux_run_next[OF g(2) loc] hf by (auto simp: header_ptr_def)
  then obtain a A' where A: "A = a # A'" by (cases A) auto
  have "read_aux s (sih_next_pos (index_header s)) = Inr a" "current_file a = AUXFILE"
    using aux_run_read[of s "header_ptr s" a A' "run_end V"] g(2) loc aux_run_file[OF g(2), of a]
    by (simp_all add: A header_ptr_def)
  moreover have "seq_fetch s (header_ptr s) = Some a" using g(2) loc by (simp add: A aux_run_Cons)
  then have "sih_next_file (index_header s) = AUXFILE" using seq_fetch_file[of s "header_ptr s" a] hf by (simp add: header_ptr_def)
  ultimately show thesis using that[of b a A' V] found(2) b g(1) A by auto
qed (use ne in simp)

lemma add_place_damages:
  assumes rep: "seq_repr s m" and ne: "m \<noteq> []" and hf: "sih_next_file (index_header s) \<noteq> INDEXFILE"
    and low: "k < fst (hd m)"
  shows "\<exists>s'. add_place ov pk s k p = Inr (s', []) \<and> index_header s' = index_header s \<and> index_file s' = index_file s \<and>
     aux_file s \<noteq> [] \<and> aux_file s' =
       ov \<lparr>sih_next_pos = end_pos 0 sizeof_sir (aux_file s), sih_next_file = AUXFILE\<rparr> (hd (aux_file s)) #
       tl (aux_file s) @ [seq_setCurrent (seq_setNext (new_seq_record k p) (sih_next_pos (index_header s)) AUXFILE)
         (end_pos 0 sizeof_sir (aux_file s)) AUXFILE]"
proof -
  obtain L where wf: "seq_wf s L" and m: "m = entries s L" using rep by (auto simp: seq_repr_def)
  have L: "L \<noteq> []" and k: "k < data (hd L)" using ne low m by (auto simp: hd_map)
  have srt: "sorted_wrt (<) (map data L)" using wf by (simp add: seq_wf_def)
  have all: "k < data r" if "r \<in> set L" for r
    using that k srt by (cases L) (auto intro: less_trans)
  have xs: "index_file s \<noteq> []" "set (index_file s) \<subseteq> set L"
    using wf L by (auto simp: seq_wf_def) (metis filter_is_subset subsetD)
  then have "k < data (hd (index_file s))" using all by (meson hd_in_set subsetD)
  then obtain b a A V where b: "binarySearch s k = Inr b" "location b = REC_PREV" "header b" "sih b = index_header s"
    and a: "L = (a # A) @ V" "read_aux s (sih_next_pos (index_header s)) = Inr a"
    and hf': "sih_next_file (index_header s) = AUXFILE"
    using front_cases[OF wf L hf] by metis
  have lt: "k < data a" using all a(1) by simp
  have nea: "aux_file s \<noteq> []" using a(2) by (auto simp: read_aux_def moveReadRecord_def split: if_splits)
  then obtain r rs where r: "aux_file s = r # rs" by (cases "aux_file s") auto
  show ?thesis using b a(2) lt hf' r
    by (simp add: add_place_def Let_def insertAux_def insertAfterRecord_def insertAuxFile_def
        writeHeader_tagged_def seq_setCurrent_def seq_setNext_def)
qed

text \<open>
  A removal then looks at the record that an earlier round of the binary search left in \<open>sir_prev\<close>: it returns nothing if
  that record goes on to the index file, and reads the index file at a position of the auxiliary file otherwise.
\<close>

lemma seq_remove_front:
  assumes rep: "seq_repr s m" and xs: "index_file s \<noteq> []" and hf: "sih_next_file (index_header s) \<noteq> INDEXFILE"
    and low: "k < data (hd (index_file s))"
  shows "\<exists>prev. (if length (index_file s) = 1 then prev = None else \<exists>r\<in>set (index_file s). prev = Some r) \<and>
     seq_remove s k = (if ends_run prev then Inr (s, []) else Inl Misaligned)"
proof -
  obtain L where wf: "seq_wf s L" using rep by (auto simp: seq_repr_def)
  have L: "L \<noteq> []" using wf xs by (auto simp: seq_wf_def)
  obtain b a A V where b: "binarySearch s k = Inr b" "location b = REC_PREV" "header b" "sih b = index_header s"
    and prev: "if length (index_file s) = 1 then sir_prev b = None else \<exists>r\<in>set (index_file s). sir_prev b = Some r"
    and a: "read_aux s (sih_next_pos (index_header s)) = Inr a"
    using front_cases[OF wf L hf low] by metis
  obtain i where i: "sih_next_pos (index_header s) = slot_pos 0 sizeof_sir i"
    using a moveReadRecord_Inr[of 0 sizeof_sir "aux_file s"] by (auto simp: read_aux_def)
  have "(slot_pos 0 sizeof_sir i - sizeof_sih) mod sizeof_sir \<noteq> 0"
    by (simp add: slot_pos_def sizeof_sih_def sizeof_sir_def) presburger
  moreover have "0 \<le> slot_pos 0 sizeof_sir i" by (simp add: slot_pos_def sizeof_sir_def)
  ultimately have "read_index s (sih_next_pos (index_header s)) = Inl Misaligned"
    by (simp add: i read_index_def moveReadRecord_def)
  moreover have "sih_next_pos (index_header s) \<noteq> END_OF_FILE"
    using \<open>0 \<le> slot_pos 0 sizeof_sir i\<close> i by simp
  ultimately have "seq_remove s k = (if ends_run (sir_prev b) then Inr (s, []) else Inl Misaligned)"
    using b hf by (simp add: seq_remove_def seq_erase_def erase_absent_def erase_front_def)
  with prev show ?thesis by blast
qed

end
