(* ===== verification/SeqBulk.thy ===== *)
theory SeqBulk
  imports SeqContract
begin

text \<open>
  \<open>bulk_insert\<close> on an index without records: it writes the sorted pairs into the index file
  one after another, with the further positions of a key in the duplicate file.  The result is
  the list one gets by inserting the pairs one by one in sorted order.
\<close>

text \<open>The state between two rounds: \<open>prev\<close> is the last record of the index file.\<close>

definition bulk_inv :: "'k :: linorder seq_index \<Rightarrow> 'k seq_record list \<Rightarrow> 'k seq_record \<Rightarrow> bool" where
  "bulk_inv s xs prev \<longleftrightarrow> index_file s = xs @ [prev] \<and> aux_file s = [] \<and> in_file_order 0 (xs @ [prev]) \<and>
     header_ptr s = (sizeof_sih, INDEXFILE) \<and> sorted_wrt (<) (map data (xs @ [prev])) \<and>
     (\<forall>r\<in>set (xs @ [prev]). has_dups s r)"

lemma bulk_inv_wf: "bulk_inv s xs prev \<Longrightarrow> seq_wf s (xs @ [prev])"
  unfolding bulk_inv_def by (intro in_file_order_wf) auto

lemma in_file_order_last:
  assumes "in_file_order 0 (xs @ [r])"
  shows "cur_ptr r = (slot_pos sizeof_sih sizeof_sir (length xs), INDEXFILE)"
  using assms by (auto simp: in_file_order_def dest: spec[of _ "length xs"])

lemma in_file_order_update:
  "in_file_order 0 (xs @ [r]) \<Longrightarrow> cur_ptr r' = cur_ptr r \<Longrightarrow> next_ptr r' = next_ptr r \<Longrightarrow>
     in_file_order 0 (xs @ [r'])"
  by (auto simp: in_file_order_def nth_append split: if_splits)

lemma in_file_order_snoc:
  assumes "in_file_order 0 (xs @ [r])" "cur_ptr r' = cur_ptr r" "next_ptr r' = cur_ptr n"
    "cur_ptr n = (slot_pos sizeof_sih sizeof_sir (Suc (length xs)), INDEXFILE)" "next_ptr n = end_mark"
  shows "in_file_order 0 (xs @ [r', n])"
  unfolding in_file_order_def
proof (intro allI impI)
  fix j assume "j < length (xs @ [r', n])"
  then consider "j < length xs" | "j = length xs" | "j = Suc (length xs)" by fastforce
  then show "cur_ptr ((xs @ [r', n]) ! j) = (slot_pos sizeof_sih sizeof_sir (0 + j), INDEXFILE) \<and>
     next_ptr ((xs @ [r', n]) ! j) = (if Suc j = length (xs @ [r', n]) then end_mark
        else (slot_pos sizeof_sih sizeof_sir (Suc (0 + j)), INDEXFILE))"
  proof cases
    case 1
    with assms(1) show ?thesis by (auto simp: in_file_order_def nth_append dest!: spec[of _ j])
  next
    case 2
    with assms in_file_order_last[OF assms(1)] show ?thesis by (simp add: nth_append)
  next
    case 3
    with assms show ?thesis by (simp add: nth_append)
  qed
qed

text \<open>A further position of the last key.\<close>

lemma bulk_dup_step:
  assumes inv: "bulk_inv s xs prev" and d: "data d = data prev" "raw_pos d = p"
  shows "\<exists>s' prev'. seq_insertDuplicate s INDEXFILE prev d = Inr (s', prev') \<and> bulk_inv s' xs prev' \<and>
     data prev' = data prev \<and>
     entries s' (xs @ [prev']) = insert_entry (data prev) p (entries s (xs @ [prev]))"
proof -
  let ?e = "d\<lparr>dup_pos := dup_pos prev\<rparr>"
  let ?prev = "prev\<lparr>dup_pos := end_pos 0 sizeof_sir (duplicates_file s)\<rparr>"
  let ?s = "s\<lparr>index_file := xs @ [?prev], duplicates_file := duplicates_file s @ [?e]\<rparr>"
  have files: "index_file s = xs @ [prev]" "aux_file s = []" "in_file_order 0 (xs @ [prev])"
    "header_ptr s = (sizeof_sih, INDEXFILE)" "sorted_wrt (<) (map data (xs @ [prev]))"
    and old: "\<forall>r\<in>set (xs @ [prev]). has_dups s r" using inv by (auto simp: bulk_inv_def)
  have pos: "current_pos prev = slot_pos sizeof_sih sizeof_sir (length xs)"
    using in_file_order_last[OF files(3)] by (simp add: cur_ptr_def)
  have "moveWriteRecord sizeof_sih sizeof_sir (xs @ [prev]) (current_pos prev) ?prev = Inr (xs @ [?prev])"
    by (simp add: pos moveWriteRecord_slot)
  then have run: "seq_insertDuplicate s INDEXFILE prev d = Inr (?s, ?prev)"
    by (simp add: seq_insertDuplicate_def insertDuplicate_def insertDuplicateFile_def Let_def files(1))
  obtain ds where ds: "dup_chain sizeof_sir (duplicates_file s) (dup_pos prev) ds"
    using old by (auto simp: has_dups_def)
  have dups: "duplicates_file ?s = duplicates_file s @ [?e]" by simp
  have chain: "dup_chain sizeof_sir (duplicates_file ?s) (dup_pos ?prev) (?e # ds)"
    using dup_chain_insert[OF ds, of d] by simp
  have old': "\<forall>r\<in>set xs. has_dups s r" using old by simp
  have "has_dups ?s ?prev" using chain unfolding has_dups_def by blast
  then have dups': "\<forall>r\<in>set (xs @ [?prev]). has_dups ?s r" using entries_cong(2)[OF dups old'] by simp
  have "in_file_order 0 (xs @ [?prev])"
    by (rule in_file_order_update[OF files(3)]) (simp_all add: cur_ptr_def next_ptr_def)
  then have inv': "bulk_inv ?s xs ?prev" using files dups' by (simp add: bulk_inv_def header_ptr_def)
  have "positions ?s ?prev = hd (positions s prev) # p # tl (positions s prev)"
    using positions_chain[OF chain] positions_chain[OF ds] d(2) by simp
  then have "entries ?s (xs @ [?prev]) = entries s xs @ [(data prev, hd (positions s prev) # p # tl (positions s prev))]"
    using entries_cong(1)[OF dups old'] by (simp add: entry_def)
  also have "\<dots> = insert_entry (data prev) p (entries s (xs @ [prev]))"
    using insert_entry_dup[of "entries s xs" "data prev" p "positions s prev" "[]"] files(5)
    by (auto simp: sorted_wrt_append entry_def[of s prev])
  finally show ?thesis using run inv' by (intro exI[of _ ?s] exI[of _ ?prev]) simp
qed

text \<open>A new key behind the last one.\<close>

lemma bulk_new_step:
  assumes inv: "bulk_inv s xs prev" and n: "data prev < data n" "raw_pos n = p" "dup_pos n = END_OF_FILE"
    "cur_ptr n = (current_pos prev + sizeof_sir, INDEXFILE)" "next_ptr n = end_mark"
    and prev': "prev' = seq_setNext prev (current_pos n) (current_file n)"
  shows "\<exists>s1 s2. write_index s (current_pos prev') prev' = Inr s1 \<and> write_index s1 (current_pos n) n = Inr s2 \<and>
     bulk_inv s2 (xs @ [prev']) n \<and> entries s2 (xs @ [prev', n]) = insert_entry (data n) p (entries s (xs @ [prev]))"
proof -
  have files: "index_file s = xs @ [prev]" "aux_file s = []" "in_file_order 0 (xs @ [prev])"
    "header_ptr s = (sizeof_sih, INDEXFILE)" "sorted_wrt (<) (map data (xs @ [prev]))"
    and old: "\<forall>r\<in>set (xs @ [prev]). has_dups s r" using inv by (auto simp: bulk_inv_def)
  have pos: "current_pos prev = slot_pos sizeof_sih sizeof_sir (length xs)"
    using in_file_order_last[OF files(3)] by (simp add: cur_ptr_def)
  then have npos: "cur_ptr n = (slot_pos sizeof_sih sizeof_sir (Suc (length xs)), INDEXFILE)"
    using n(4) by (simp add: slot_pos_def algebra_simps)
  have q: "cur_ptr prev' = cur_ptr prev" "next_ptr prev' = cur_ptr n" "data prev' = data prev"
    "dup_pos prev' = dup_pos prev" "raw_pos prev' = raw_pos prev" "current_pos prev' = current_pos prev"
    by (simp_all add: prev' seq_setNext_def cur_ptr_def next_ptr_def)
  let ?s1 = "s\<lparr>index_file := xs @ [prev']\<rparr>"
  let ?s2 = "s\<lparr>index_file := xs @ [prev', n]\<rparr>"
  have w1: "write_index s (current_pos prev') prev' = Inr ?s1"
    by (simp add: write_index_def files(1) q pos moveWriteRecord_slot)
  have w2: "write_index ?s1 (current_pos n) n = Inr ?s2"
    using npos moveWriteRecord_end[of sizeof_sih sizeof_sir "xs @ [prev']" n]
    by (simp add: write_index_def end_pos_def cur_ptr_def)
  have dups: "duplicates_file ?s2 = duplicates_file s @ []" by simp
  have old': "\<forall>r\<in>set xs. has_dups s r" using old by simp
  note c = entries_cong[OF dups old'] no_dups[OF n(3), of ?s2]
  have p: "has_dups ?s2 prev'" "positions ?s2 prev' = positions s prev"
    using positions_cong[OF dups, of prev prev'] old q by auto
  have "in_file_order 0 (xs @ [prev', n])"
    by (rule in_file_order_snoc[OF files(3) q(1,2) npos n(5)])
  then have inv': "bulk_inv ?s2 (xs @ [prev']) n"
    using files(2,4,5) n(1) p(1) c q(3) by (auto simp: bulk_inv_def header_ptr_def sorted_wrt_append intro: less_trans)
  have "entries ?s2 (xs @ [prev', n]) = entries s (xs @ [prev]) @ [(data n, [p])]"
    using c p q(3) n(2) by (simp add: entry_def)
  also have "\<dots> = insert_entry (data n) p (entries s (xs @ [prev]))"
  proof -
    have "\<forall>x\<in>set (entries s (xs @ [prev])). fst x < data n"
      using files(5) n(1) by (auto simp: sorted_wrt_append intro: less_trans)
    from insert_entry_between[OF this, of "[]" p] show ?thesis by simp
  qed
  finally show ?thesis using w1 w2 inv' by blast
qed

lemma bulk_insert_loop_wf:
  assumes "bulk_inv s xs prev" "sorted_wrt (\<le>) (map fst zs)" "\<forall>z\<in>set zs. data prev \<le> fst z"
  shows "\<exists>s'. bulk_insert_loop s prev cur zs rs = Inr (s', rs @ map snd zs) \<and>
     seq_repr s' (load_entries zs (entries s (xs @ [prev]))) \<and> aux_file s' = []"
  using assms
proof (induction zs arbitrary: s xs prev cur rs)
  case Nil
  have "seq_repr s (entries s (xs @ [prev]))" by (rule seq_reprI[OF bulk_inv_wf[OF Nil(1)] refl])
  with Nil show ?case by (auto simp: bulk_inv_def)
next
  case (Cons z zs)
  obtain d p where z: "z = (d, p)" by fastforce
  have srt: "sorted_wrt (\<le>) (map fst zs)" "\<forall>y\<in>set zs. d \<le> fst y" using Cons.prems(2) z by auto
  let ?cur = "cur\<lparr>data := d, raw_pos := p, dup_pos := END_OF_FILE\<rparr>"
  show ?case
  proof (cases "d = data prev")
    case True
    then obtain s1 prev1 where s1: "seq_insertDuplicate s INDEXFILE prev ?cur = Inr (s1, prev1)" "bulk_inv s1 xs prev1"
      "data prev1 = data prev" "entries s1 (xs @ [prev1]) = insert_entry d p (entries s (xs @ [prev]))"
      using bulk_dup_step[OF Cons.prems(1), of ?cur p] by auto
    have "\<forall>y\<in>set zs. data prev1 \<le> fst y" using srt(2) True s1(3) by simp
    from Cons.IH[OF s1(2) srt(1) this, of "?cur\<lparr>dup_pos := dup_pos prev\<rparr>" "rs @ [p]"]
    show ?thesis using True s1 z by (simp add: Let_def)
  next
    case False
    then have lt: "data prev < d" using Cons.prems(3) z by auto
    let ?n = "seq_setNext (seq_setCurrent ?cur (current_pos prev + sizeof_sir) INDEXFILE) END_OF_FILE INDEXFILE"
    let ?prev = "seq_setNext prev (current_pos ?n) (current_file ?n)"
    have n: "data ?n = d" "raw_pos ?n = p" "dup_pos ?n = END_OF_FILE"
      "cur_ptr ?n = (current_pos prev + sizeof_sir, INDEXFILE)" "next_ptr ?n = end_mark"
      by (simp_all add: seq_setNext_def seq_setCurrent_def cur_ptr_def next_ptr_def)
    obtain s1 s2 where s2: "write_index s (current_pos ?prev) ?prev = Inr s1" "write_index s1 (current_pos ?n) ?n = Inr s2"
      "bulk_inv s2 (xs @ [?prev]) ?n" "entries s2 (xs @ [?prev, ?n]) = insert_entry d p (entries s (xs @ [prev]))"
      using bulk_new_step[OF Cons.prems(1), of ?n p ?prev] n lt by auto
    have "\<forall>y\<in>set zs. data ?n \<le> fst y" using srt(2) n(1) by simp
    from Cons.IH[OF s2(3) srt(1) this, of ?n "rs @ [p]"] s2(4)
    have "\<exists>s'. bulk_insert_loop s2 ?n ?n zs (rs @ [p]) = Inr (s', (rs @ [p]) @ map snd zs) \<and>
      seq_repr s' (load_entries zs (insert_entry d p (entries s (xs @ [prev])))) \<and> aux_file s' = []" by simp
    moreover have "bulk_insert_loop s prev cur (z # zs) rs = bulk_insert_loop s2 ?n ?n zs (rs @ [p])"
      using False s2(1,2) z by (simp add: Let_def)
    ultimately show ?thesis using z by simp
  qed
qed

text \<open>An index without records, any sorting of the pairs.\<close>

lemma seq_bulk_insert_empty:
  assumes files: "index_file s = []" "aux_file s = []" and ne: "records \<noteq> []"
    and srt: "sorted_wrt (\<le>) (map fst (srt records))" "mset (srt records) = mset records"
  shows "\<exists>s'. seq_bulk_insert srt s records = Inr (s', map snd (srt records), replicate (length records) False) \<and>
     seq_repr s' (load_entries (srt records) []) \<and> aux_file s' = []"
proof -
  obtain d p zs where z: "srt records = (d, p) # zs"
    using srt(2) ne by (cases "srt records") auto
  let ?r = "seq_setNext (seq_setCurrent (new_seq_record d p) sizeof_sih INDEXFILE) END_OF_FILE INDEXFILE"
  let ?s0 = "s\<lparr>index_header := \<lparr>sih_next_pos = sizeof_sih, sih_next_file = INDEXFILE\<rparr>\<rparr>"
  let ?s1 = "?s0\<lparr>index_file := [?r]\<rparr>"
  have z0: "slot_pos sizeof_sih sizeof_sir 0 = sizeof_sih" by (simp add: slot_pos_def)
  have r: "data ?r = d" "raw_pos ?r = p" "dup_pos ?r = END_OF_FILE" "cur_ptr ?r = (sizeof_sih, INDEXFILE)"
    "next_ptr ?r = end_mark"
    by (simp_all add: seq_setNext_def seq_setCurrent_def new_seq_record_def cur_ptr_def next_ptr_def)
  have w: "write_index ?s0 sizeof_sih ?r = Inr ?s1"
    using moveWriteRecord_end[of sizeof_sih sizeof_sir "[]" ?r] files(1)
    by (simp add: write_index_def end_pos_def z0)
  have inv: "bulk_inv ?s1 [] ?r"
    using no_dups[OF r(3), of ?s1] r files(2) by (simp add: bulk_inv_def header_ptr_def in_file_order_def z0)
  have "entries ?s1 [?r] = [(d, [p])]" using no_dups[OF r(3), of ?s1] r by (simp add: entry_def)
  then obtain s2 where s2: "bulk_insert_loop ?s1 ?r ?r zs [p] = Inr (s2, [p] @ map snd zs)"
    "seq_repr s2 (load_entries zs [(d, [p])])" "aux_file s2 = []"
    using bulk_insert_loop_wf[OF inv, of zs ?r "[p]"] srt(1) z r(1) by auto
  have "end_pos sizeof_sih sizeof_sir (index_file s) = sizeof_sih" by (simp add: files(1) end_pos_def z0)
  then have "seq_bulk_insert srt s records = Inr (s2, map snd (srt records), replicate (length records) False)"
    using ne z w s2(1) by (simp add: seq_bulk_insert_def Let_def)
  then show ?thesis using s2(2,3) z by simp
qed

text \<open>On an index that has records it does nothing.\<close>

lemma seq_bulk_insert_nonempty:
  "index_file s \<noteq> [] \<Longrightarrow> records \<noteq> [] \<Longrightarrow>
     seq_bulk_insert srt s records = Inr (s, [], replicate (length records) False)"
  by (simp add: seq_bulk_insert_def end_pos_def slot_pos_def)

end
