(* ===== verification/SeqExample.thy ===== *)
theory SeqExample
  imports SeqBulk
begin

text \<open>
  Concrete indexes with integer keys, reached from empty files by the operations; the witnesses of
  the properties are stated on them.
\<close>

definition demo_overlay :: "seq_header \<Rightarrow> int seq_record \<Rightarrow> int seq_record" where
  "demo_overlay h r = r\<lparr>raw_pos := sih_next_pos h\<rparr>"

definition demo_rec :: "int \<Rightarrow> int \<Rightarrow> int \<Rightarrow> int \<times> file_pos \<Rightarrow> int \<times> file_pos \<Rightarrow> int seq_record" where
  "demo_rec k p d c n = \<lparr>data = k, raw_pos = p, dup_pos = d, current_pos = fst c, current_file = snd c,
     next_pos = fst n, next_file = snd n\<rparr>"

text \<open>After 10; after 10, 20; after 10, 20, 15; and after 10, 20, 15 and a second 10.\<close>

definition demo_one :: "int seq_index" where
  "demo_one = \<lparr>index_header = \<lparr>sih_next_pos = 24, sih_next_file = INDEXFILE\<rparr>,
     index_file = [demo_rec 10 100 (- 1) (24, INDEXFILE) (- 1, INDEXFILE)],
     aux_file = [], duplicates_file = []\<rparr>"

definition demo_two :: "int seq_index" where
  "demo_two = \<lparr>index_header = \<lparr>sih_next_pos = 24, sih_next_file = INDEXFILE\<rparr>,
     index_file = [demo_rec 10 100 (- 1) (24, INDEXFILE) (112, INDEXFILE),
       demo_rec 20 200 (- 1) (112, INDEXFILE) (- 1, INDEXFILE)],
     aux_file = [], duplicates_file = []\<rparr>"

definition demo_three :: "int seq_index" where
  "demo_three = \<lparr>index_header = \<lparr>sih_next_pos = 24, sih_next_file = INDEXFILE\<rparr>,
     index_file = [demo_rec 10 100 (- 1) (24, INDEXFILE) (0, AUXFILE),
       demo_rec 20 200 (- 1) (112, INDEXFILE) (- 1, INDEXFILE)],
     aux_file = [demo_rec 15 150 (- 1) (0, AUXFILE) (112, INDEXFILE)], duplicates_file = []\<rparr>"

definition demo_index :: "int seq_index" where
  "demo_index = \<lparr>index_header = \<lparr>sih_next_pos = 24, sih_next_file = INDEXFILE\<rparr>,
     index_file = [demo_rec 10 100 0 (24, INDEXFILE) (0, AUXFILE),
       demo_rec 20 200 (- 1) (112, INDEXFILE) (- 1, INDEXFILE)],
     aux_file = [demo_rec 15 150 (- 1) (0, AUXFILE) (112, INDEXFILE)],
     duplicates_file = [demo_rec 10 101 (- 1) (0, CHR 0x00) (0, CHR 0x00)]\<rparr>"

lemma demo_add_one: "seq_add demo_overlay False createFile 10 100 = Inr (demo_one, [100, 100])"
  by code_simp

lemma demo_add_two: "seq_add demo_overlay False demo_one 20 200 = Inr (demo_two, [200])"
  by code_simp

lemma demo_add_three: "seq_add demo_overlay False demo_two 15 150 = Inr (demo_three, [150])"
  by code_simp

lemma demo_add_dup: "seq_add demo_overlay False demo_three 10 101 = Inr (demo_index, [101])"
  by code_simp

lemmas demo_adds = demo_add_one demo_add_two demo_add_three demo_add_dup

lemma demo_reach:
  "seq_reach demo_overlay False demo_index [(10, [100, 101]), (15, [150]), (20, [200])]"
proof -
  have "seq_reach demo_overlay False demo_one (spec_step False (Add 10 100) [])"
    by (rule seq_reach.step[OF seq_reach.init]) (auto intro: seq_step.added demo_adds)
  then have "seq_reach demo_overlay False demo_two (spec_step False (Add 20 200) [(10, [100])])"
    by (intro seq_reach.step) (auto intro: seq_step.added demo_adds)
  then have "seq_reach demo_overlay False demo_three (spec_step False (Add 15 150) [(10, [100]), (20, [200])])"
    by (intro seq_reach.step) (auto intro: seq_step.added demo_adds)
  then have "seq_reach demo_overlay False demo_index
      (spec_step False (Add 10 101) [(10, [100]), (15, [150]), (20, [200])])"
    by (intro seq_reach.step) (auto intro: seq_step.added demo_adds)
  then show ?thesis by simp
qed

lemma demo_repr: "seq_repr demo_index [(10, [100, 101]), (15, [150]), (20, [200])]"
  using seq_reach_inv[OF demo_reach] by (simp add: seq_inv_def)

text \<open>Keys 10, 20, and 5 in front: the header points to the auxiliary file.\<close>

definition demo_front :: "int seq_index" where
  "demo_front = \<lparr>index_header = \<lparr>sih_next_pos = 0, sih_next_file = AUXFILE\<rparr>,
     index_file = [demo_rec 10 100 (- 1) (24, INDEXFILE) (112, INDEXFILE),
       demo_rec 20 200 (- 1) (112, INDEXFILE) (- 1, INDEXFILE)],
     aux_file = [demo_rec 5 50 (- 1) (0, AUXFILE) (24, INDEXFILE)], duplicates_file = []\<rparr>"

lemma demo_add_front: "seq_add demo_overlay False demo_two 5 50 = Inr (demo_front, [50])"
  by code_simp

lemma demo_two_repr: "seq_repr demo_two [(10, [100]), (20, [200])]"
proof -
  have "seq_reach demo_overlay False demo_one (spec_step False (Add 10 100) [])"
    by (rule seq_reach.step[OF seq_reach.init]) (auto intro: seq_step.added demo_adds)
  then have "seq_reach demo_overlay False demo_two (spec_step False (Add 20 200) [(10, [100])])"
    by (intro seq_reach.step) (auto intro: seq_step.added demo_adds)
  then show ?thesis using seq_reach_inv[of demo_overlay False demo_two] by (simp add: seq_inv_def)
qed

lemma demo_front_repr: "seq_repr demo_front [(5, [50]), (10, [100]), (20, [200])]"
proof -
  have "front_ok demo_two [(10, [100]), (20, [200])] 5" by (simp add: front_ok_def demo_two_def)
  from seq_add_inserted[OF demo_two_repr this, of False demo_overlay 50] show ?thesis
    by (auto simp: demo_add_front)
qed

lemma demo_three_repr: "seq_repr demo_three [(10, [100]), (15, [150]), (20, [200])]"
proof -
  have "front_ok demo_two [(10, [100]), (20, [200])] 15" by (simp add: front_ok_def demo_two_def)
  from seq_add_inserted[OF demo_two_repr this, of False demo_overlay 150] show ?thesis
    by (auto simp: demo_add_three)
qed

end
