(* ===== verification/SeqTheorems.thy ===== *)
theory SeqTheorems
  imports SeqExample
begin

text \<open>
  The properties of the sequential index, each applied to a concrete index.
\<close>

section \<open>Sequences of operations\<close>

text \<open>
  C2: Every index that additions and removals reach from empty files, with no key added in front of
  all others, holds exactly the list of keys and positions the specification has after the same
  operations: \<open>search\<close> and \<open>range_search\<close> return, for every key and every range, the
  positions of that list.
\<close>

theorem seq_reachable_refines:
  assumes "seq_reach ov pk s m"
  shows "seq_repr s m \<and> seq_search s k = Inr (lookup_entry k m) \<and>
     seq_range_search s lo hi = Inr (range_entry lo hi m)"
proof -
  have "seq_repr s m" using seq_reach_inv[OF assms] by (simp add: seq_inv_def)
  then show ?thesis by (simp add: seq.search_finds seq.range_finds)
qed

lemma seq_reachable_refines_witness:
  "seq_search demo_index 10 = Inr [100, 101] \<and> seq_range_search demo_index 11 20 = Inr [150, 200]"
proof -
  have "lookup_entry (10 :: int) [(10, [100, 101]), (15, [150]), (20, [200])] = [100, 101]"
    "range_entry (11 :: int) 20 [(10, [100, 101]), (15, [150]), (20, [200])] = [150, 200]"
    by code_simp+
  then show ?thesis
    using seq_reachable_refines[OF demo_reach, of 10 11 20] by simp
qed

text \<open>
  C3: Such an index takes every next operation, also the first addition in front of all keys: no operation reads outside
  the files, at a position that is no record, or a record that was never read, and none runs for ever.  If the
  operation does not add a key in front of all others, the index it leads to is reachable again, with the list of the
  specification.
\<close>

theorem seq_reachable_progress:
  assumes "seq_reach ov pk s m"
  shows "\<exists>s'. seq_step ov pk s a s' \<and> (m = [] \<or> fst (hd m) \<le> op_key a \<longrightarrow> seq_reach ov pk s' (spec_step pk a m))"
  using seq_reach_step[OF assms] seq_reach.step[OF assms] by blast

lemma seq_reachable_progress_witness:
  "\<exists>s'. seq_step demo_overlay False demo_index (Remove 15) s' \<and>
     seq_reach demo_overlay False s' [(10, [100, 101]), (20, [200])]"
proof -
  have "spec_step False (Remove 15) [(10 :: int, [100, 101]), (15, [150]), (20, [200])] = [(10, [100, 101]), (20, [200])]"
    by code_simp
  then show ?thesis using seq_reachable_progress[OF demo_reach, of "Remove 15"] by simp
qed

text \<open>
  C6: In a reachable index the auxiliary file has at most as many records as the logarithm of the
  number of records of the index file.
\<close>

theorem seq_reachable_aux_log:
  assumes "seq_reach ov pk s m" "m \<noteq> []"
  shows "2 ^ length (aux_file s) \<le> length (index_file s)"
  using seq_reach_inv[OF assms(1)] assms(2) by (simp add: seq_inv_def validNumberRecords_iff)

lemma seq_reachable_aux_log_witness: "(2 :: nat) ^ length (aux_file demo_index) \<le> length (index_file demo_index)"
  by (rule seq_reachable_aux_log[OF demo_reach]) simp

section \<open>The operations one by one\<close>

text \<open>
  C7: \<open>add\<close> on an index that represents a list, provided the header points into the index file or
  the key is not smaller than all others (\<open>front_ok\<close>): a second record of a primary key is refused; otherwise
  the entry is inserted, and the position is returned (twice, if the index was empty).
\<close>

theorem seq_add_correct:
  assumes "seq_repr s m" "front_ok s m k"
  shows "if pk \<and> k \<in> fst ` set m then seq_add ov pk s k p = Inl RuntimeError
     else \<exists>s'. seq_add ov pk s k p = Inr (s', if m = [] then [p, p] else [p]) \<and>
       seq_repr s' (insert_entry k p m) \<and> validNumberRecords s'"
proof (cases "pk \<and> k \<in> fst ` set m")
  case True
  then show ?thesis using seq_add_refused[OF assms] by simp
next
  case False
  show ?thesis by (rule seq_add_inserted[OF assms False, of ov p]) (use False in auto)
qed

lemma seq_add_correct_witness:
  "seq_add demo_overlay True demo_front 20 7 = Inl RuntimeError \<and>
   (\<exists>s'. seq_add demo_overlay True demo_front 7 70 = Inr (s', [70]) \<and>
      seq_repr s' [(5, [50]), (7, [70]), (10, [100]), (20, [200])])"
proof -
  have "front_ok demo_front [(5, [50]), (10, [100]), (20, [200])] k" if "5 \<le> k" for k
    using that by (simp add: front_ok_def)
  from seq_add_correct[OF demo_front_repr this, of 20 True demo_overlay 7]
    seq_add_correct[OF demo_front_repr this, of 7 True demo_overlay 70]
  show ?thesis by auto
qed

text \<open>
  C8: \<open>remove\<close>, provided the header points into the index file or the key is not in front of the
  index file (\<open>removable\<close>): it deletes the entry, returns the first position of the key and leaves a rebuilt
  index; for a key that is not there it does nothing.
\<close>

theorem seq_remove_correct:
  assumes "seq_repr s m" "removable s k"
  shows "if k \<in> fst ` set m
     then \<exists>s'. seq_remove s k = Inr (s', [hd (lookup_entry k m)]) \<and> seq_repr s' (delete_entry k m) \<and>
       aux_file s' = [] \<and> length (index_file s') = length m - 1
     else seq_remove s k = Inr (s, [])"
  using seq_remove_repr[OF assms] by (cases "k \<in> fst ` set m") auto

lemma seq_remove_correct_witness:
  "\<exists>s'. seq_remove demo_index 10 = Inr (s', [100]) \<and> seq_repr s' [(15, [150]), (20, [200])] \<and> aux_file s' = []"
proof -
  have "removable demo_index 10" "delete_entry (10 :: int) [(10, [100, 101]), (15, [150]), (20, [200])] = [(15, [150]), (20, [200])]"
    "lookup_entry (10 :: int) [(10, [100, 101]), (15, [150]), (20, [200])] = [100, 101]"
    by code_simp+
  then show ?thesis using seq_remove_correct[OF demo_repr, of 10] by auto
qed

text \<open>
  C9: \<open>search\<close> returns the positions of a key, the first one first, and nothing for a key that
  is not in the index, also where the header points to the auxiliary file.
\<close>

theorem seq_search_correct:
  assumes "seq_repr s m"
  shows "seq_search s k = Inr (lookup_entry k m)"
  by (rule seq.search_finds[OF assms])

lemma seq_search_correct_witness: "seq_search demo_front 5 = Inr [50]"
proof -
  have "lookup_entry (5 :: int) [(5, [50]), (10, [100]), (20, [200])] = [50]" by code_simp
  then show ?thesis using seq_search_correct[OF demo_front_repr, of 5] by simp
qed

text \<open>
  C10: \<open>range_search\<close> returns the positions of all keys between the two bounds, both included,
  in the order of the keys; and searching from a key to itself is searching the key.
\<close>

theorem seq_range_search_correct:
  assumes "seq_repr s m"
  shows "seq_range_search s lo hi = Inr (range_entry lo hi m) \<and> seq_range_search s k k = seq_search s k"
  using seq.range_finds[OF assms] seq.point_range[OF assms] by blast

lemma seq_range_search_correct_witness: "seq_range_search demo_front 5 10 = Inr [50, 100]"
proof -
  have "range_entry (5 :: int) 10 [(5, [50]), (10, [100]), (20, [200])] = [50, 100]" by code_simp
  then show ?thesis using seq_range_search_correct[OF demo_front_repr, of 5 10 0] by simp
qed

text \<open>
  C11: \<open>rebuild\<close> keeps the list the index represents, empties the auxiliary file and puts one
  record per key into the index file.
\<close>

theorem seq_rebuild_correct:
  assumes "seq_repr s m"
  shows "\<exists>s'. rebuild s = Inr s' \<and> seq_repr s' m \<and> aux_file s' = [] \<and> length (index_file s') = length m \<and>
     sih_next_file (index_header s') = INDEXFILE"
proof -
  obtain L where "seq_wf s L" "m = entries s L" using assms by (auto simp: seq_repr_def)
  then show ?thesis using rebuild_links[of s L] by (auto simp: seq_wf_def)
qed

lemma seq_rebuild_correct_witness:
  "\<exists>s'. rebuild demo_front = Inr s' \<and> seq_repr s' [(5, [50]), (10, [100]), (20, [200])] \<and> length (index_file s') = 3"
  using seq_rebuild_correct[OF demo_front_repr] by auto

text \<open>
  C12: The binary search of a sorted index file ends, reads only records of the file, and reports the
  record with the key or the gap the key falls into.
\<close>

theorem binarySearch_correct:
  assumes "index_sorted (index_file s)" "index_file s \<noteq> []"
  shows "\<exists>b. binarySearch s d = Inr b \<and> bs_found (index_file s) (index_header s) d b"
  by (rule binarySearch_found[OF assms])

lemma binarySearch_correct_witness: "\<exists>b. binarySearch demo_index 15 = Inr b \<and> location b \<noteq> REC_CUR"
proof -
  have "index_sorted (index_file demo_index)"
    by (simp add: index_sorted_def demo_index_def demo_rec_def slot_pos_def sizeof_sih_def sizeof_sir_def All_less_Suc2)
  moreover have "index_file demo_index \<noteq> []" by (simp add: demo_index_def)
  ultimately obtain b where b: "binarySearch demo_index 15 = Inr b"
    "bs_found (index_file demo_index) (index_header demo_index) 15 b"
    using binarySearch_correct by blast
  have "data r \<noteq> 15" if "r \<in> set (index_file demo_index)" for r
    using that by (auto simp: demo_index_def demo_rec_def)
  with b(2) have "location b \<noteq> REC_CUR" by cases (auto dest: nth_mem)
  with b(1) show ?thesis by blast
qed

text \<open>
  C13: What was added is found, provided the header points into the index file or the key is not smaller than all others
  (\<open>front_ok\<close>): after an addition that returned, a search of the key returns the positions it had, with the new one behind the first; searches of other keys return what they did.
\<close>

theorem seq_add_then_search:
  assumes "seq_repr s m" "front_ok s m k" "seq_add ov pk s k p = Inr (s', ps)"
  shows "seq_search s' k' = Inr (if k' = k then (if k \<in> fst ` set m then hd (lookup_entry k m) # p # tl (lookup_entry k m)
     else [p]) else lookup_entry k' m)"
  by (rule seq.add_then_search[OF assms])

lemma seq_add_then_search_witness:
  "seq_search demo_index 10 = Inr [100, 101] \<and> seq_search demo_front 20 = Inr [200]"
proof -
  have ok: "front_ok demo_three [(10, [100]), (15, [150]), (20, [200])] 10"
    "front_ok demo_two [(10, [100]), (20, [200])] 5"
    by (simp_all add: front_ok_def demo_two_def)
  show ?thesis
    using seq_add_then_search[OF demo_three_repr ok(1) demo_add_dup, of 10]
      seq_add_then_search[OF demo_two_repr ok(2) demo_add_front, of 20]
    by (simp add: lookup_entry_def)
qed

text \<open>
  What was removed is gone, with all its duplicates, and nothing else.
\<close>

lemma seq_remove_then_search:
  assumes "seq_repr s m" "removable s k" "seq_remove s k = Inr (s', ps)"
  shows "seq_search s' k' = Inr (if k' = k then [] else lookup_entry k' m)"
  by (rule seq.remove_then_search[OF assms])

lemma seq_remove_then_search_witness:
  "\<exists>s' ps. seq_remove demo_index 15 = Inr (s', ps) \<and> seq_search s' 15 = Inr [] \<and> seq_search s' 10 = Inr [100, 101]"
proof -
  have ok: "removable demo_index 15" by code_simp
  obtain s' ps where rm: "seq_remove demo_index 15 = Inr (s', ps)"
    using seq.remove_deletes[OF demo_repr ok] by auto
  show ?thesis using rm seq_remove_then_search[OF demo_repr ok rm, of 15]
      seq_remove_then_search[OF demo_repr ok rm, of 10] by (simp add: lookup_entry_def)
qed

section \<open>Many records at once\<close>

text \<open>
  C14: \<open>bulk_insert\<close> on an index without records, with any sorting of the pairs by key, builds
  the index that inserting them in that order would give; the flags it returns are all false.
\<close>

theorem seq_bulk_insert_correct:
  assumes "index_file s = []" "aux_file s = []" "records \<noteq> []"
    "sorted_wrt (\<le>) (map fst (srt records))" "mset (srt records) = mset records"
  shows "\<exists>s'. seq_bulk_insert srt s records = Inr (s', map snd (srt records), replicate (length records) False) \<and>
     seq_repr s' (load_entries (srt records) [])"
  using seq_bulk_insert_empty[where srt = srt, OF assms] by blast

lemma seq_bulk_insert_correct_witness:
  "\<exists>s'. seq_bulk_insert (sort_key fst) createFile [(7 :: int, 1), (3, 2), (7, 3)] = Inr (s', [2, 1, 3], [False, False, False]) \<and>
     seq_repr s' [(3, [2]), (7, [1, 3])]"
proof -
  have "sort_key fst [(7 :: int, 1), (3, 2), (7, 3 :: int)] = [(3, 2), (7, 1), (7, 3)]" by code_simp
  moreover have "replicate (length [(7 :: int, 1 :: int), (3, 2), (7, 3)]) False = [False, False, False]" by simp
  ultimately show ?thesis
    using seq_bulk_insert_correct[of createFile "[(7 :: int, 1), (3, 2), (7, 3)]" "sort_key fst"]
    by (simp add: createFile_def)
qed

text \<open>
  On an index that has records already \<open>bulk_insert\<close> inserts nothing and reports nothing:
  it returns no positions and raises no error.
\<close>

lemma seq_bulk_insert_ignored:
  assumes "index_file s \<noteq> []" "records \<noteq> []"
  shows "seq_bulk_insert srt s records = Inr (s, [], replicate (length records) False)"
  by (rule seq_bulk_insert_nonempty[OF assms])

lemma seq_bulk_insert_ignored_witness:
  "seq_bulk_insert (sort_key fst) demo_one [(1, 10)] = Inr (demo_one, [], [False])"
  using seq_bulk_insert_ignored[of demo_one "[(1, 10)]" "sort_key fst"] by (simp add: demo_one_def)

text \<open>
  C15: \<open>loadRecords\<close> adds a list of pairs and rebuilds once.  On an index that is not empty and whose header points into the
  index file, with pairs of which no key lies in front of the first key of the index, and, for a primary key, with different
  and new keys only, the result is the index one gets by inserting the pairs in their order, in one sorted file.
\<close>

theorem loadRecords_correct:
  assumes "seq_repr s m" "sih_next_file (index_header s) = INDEXFILE" "m \<noteq> []"
    "\<forall>x\<in>set xs. fst (hd m) \<le> fst x" "pk \<longrightarrow> distinct (map fst xs) \<and> fst ` set xs \<inter> fst ` set m = {}"
  shows "\<exists>s'. loadRecords ov pk s xs = Inr s' \<and> seq_repr s' (load_entries xs m) \<and> aux_file s' = []"
  using assms by (intro loadRecords_repr) (simp_all add: load_inv_def)

lemma loadRecords_correct_witness:
  "\<exists>s'. loadRecords demo_overlay True demo_two [(30, 300), (15, 150)] = Inr s' \<and>
     seq_repr s' [(10, [100]), (15, [150]), (20, [200]), (30, [300])]"
  using loadRecords_correct[OF demo_two_repr, of "[(30, 300), (15, 150)]" True demo_overlay]
  by (auto simp: demo_two_def)

section \<open>In front of the index file\<close>

text \<open>
  C16: Where the header points to an auxiliary record, adding a key smaller than every other one
  appends the new record, which goes on to the old first one, to the auxiliary file, but writes the new header over the
  first record of the auxiliary file, whichever it is, and leaves the header of the index file as it was, so that the
  search still starts at the old first record.
\<close>

theorem seq_add_in_front_damages:
  assumes "seq_repr s m" "m \<noteq> []" "sih_next_file (index_header s) \<noteq> INDEXFILE" "k < fst (hd m)"
  shows "\<exists>s'. add_place ov pk s k p = Inr (s', []) \<and> index_header s' = index_header s \<and> index_file s' = index_file s \<and>
     aux_file s \<noteq> [] \<and> aux_file s' =
       ov \<lparr>sih_next_pos = end_pos 0 sizeof_sir (aux_file s), sih_next_file = AUXFILE\<rparr> (hd (aux_file s)) #
       tl (aux_file s) @ [seq_setCurrent (seq_setNext (new_seq_record k p) (sih_next_pos (index_header s)) AUXFILE)
         (end_pos 0 sizeof_sir (aux_file s)) AUXFILE]"
  by (rule add_place_damages[OF assms])

lemma seq_add_in_front_damages_witness:
  "\<exists>s' r'. add_place demo_overlay False demo_front 3 30 = Inr (s', []) \<and> index_header s' = index_header demo_front \<and>
     aux_file s' = [(hd (aux_file demo_front))\<lparr>raw_pos := 88\<rparr>, r'] \<and> data r' = 3 \<and> raw_pos r' = 30 \<and> next_pos r' = 0"
  using seq_add_in_front_damages[OF demo_front_repr, of 3 demo_overlay False 30]
  by (auto simp: demo_front_def demo_overlay_def end_pos_def slot_pos_def sizeof_sir_def new_seq_record_def seq_setNext_def seq_setCurrent_def)



end
