(* ===== verification/AvlModel.thy ===== *)
theory AvlModel
  imports IndexBase
begin

text \<open>
  The AVL index (\<open>libs/Indexes/AVL\<close>), as written: an index file with a header and the nodes of a
  search tree, which point to each other by their byte positions, and the duplicate file.  The slots
  of erased nodes form a list that starts in the header.  The object keeps a copy of the header;
  the stream is static, and it stays open when an exception leaves an operation
  (\<open>stream_open\<close>).  Opening an open stream sets its failure state (\<open>stream_failed\<close>), in which
  reads and writes do nothing, until it is closed.
\<close>

section \<open>Data\<close>

record avl_header =
  rootPointer :: physical_pos
  lastDelete :: physical_pos

record 'k avl_node = "'k index_record" +
  node_pos :: physical_pos
  leftChildren :: physical_pos
  rightChildren :: physical_pos
  nextDelete :: physical_pos
  node_height :: physical_pos

text \<open>
  The index: the header in the object, the header in the file (\<open>None\<close> in a file that is shorter), the
  nodes behind it, the duplicate file, whether the key is a primary key, and the state of the stream.
\<close>

record 'k avl_index =
  mem_header :: avl_header
  file_header :: "avl_header option"
  node_file :: "'k avl_node list"
  dup_file :: "'k avl_node list"
  is_pk :: bool
  stream_open :: bool
  stream_failed :: bool

text \<open>The sizes for \<open>KEY_TYPE = int\<close> on x86-64; the lemmas use only that they are positive.\<close>

definition sizeof_avh :: int where "sizeof_avh = 32"
definition sizeof_avn :: int where "sizeof_avn = 120"

lemma sizeof_avl_pos [simp]: "0 \<le> sizeof_avh" "0 < sizeof_avn" "sizeof_avn \<noteq> 0" "sizeof_avh \<noteq> - 1"
  by (simp_all add: sizeof_avh_def sizeof_avn_def)

text \<open>
  A node as \<open>add\<close> makes it.  The members without an initialiser are positions, whose default
  constructor sets 0; so \<open>dup_pos\<close> is 0, and not the position that stands for none.
\<close>

definition new_avl_node :: "'k \<Rightarrow> physical_pos \<Rightarrow> 'k avl_node" where
  "new_avl_node d raw =
     \<lparr>data = d, raw_pos = raw, dup_pos = 0, node_pos = 0, leftChildren = - 1, rightChildren = - 1,
      nextDelete = - 1, node_height = 0\<rparr>"

section \<open>Access to the files\<close>

definition avl_read :: "'k avl_index \<Rightarrow> physical_pos \<Rightarrow> 'k avl_node io" where
  "avl_read s p =
     (if stream_failed s then Inl Uninitialised else moveReadRecord sizeof_avh sizeof_avn (node_file s) p)"

definition avl_write :: "'k avl_index \<Rightarrow> physical_pos \<Rightarrow> 'k avl_node \<Rightarrow> 'k avl_index io" where
  "avl_write s p x =
     (if stream_failed s then Inr s
      else bind_io (moveWriteRecord sizeof_avh sizeof_avn (node_file s) p x) (\<lambda>xs. Inr (s\<lparr>node_file := xs\<rparr>)))"

definition avl_write_header :: "'k avl_index \<Rightarrow> 'k avl_index" where
  "avl_write_header s = (if stream_failed s then s else s\<lparr>file_header := Some (mem_header s)\<rparr>)"

definition avl_open :: "'k avl_index \<Rightarrow> 'k avl_index" where
  "avl_open s = s\<lparr>stream_failed := stream_open s, stream_open := True\<rparr>"

definition avl_close :: "'k avl_index \<Rightarrow> 'k avl_index" where
  "avl_close s = s\<lparr>stream_open := False\<rparr>"

text \<open>
  \<open>initFile\<close> and \<open>initIndex\<close>, on the contents of the two files: an index file that is too short for a header gets
  one.  \<open>initFile\<close> closes the stream in any case.
\<close>

definition avl_initFile :: "'k avl_index \<Rightarrow> 'k avl_index" where
  "avl_initFile s = s\<lparr>stream_open := False\<rparr>"

definition avl_initIndex :: "'k avl_index \<Rightarrow> 'k avl_index" where
  "avl_initIndex s =
     (let s1 = avl_open (avl_initFile s) in
      avl_close (case file_header s1 of
          None \<Rightarrow> avl_write_header (s1\<lparr>mem_header := \<lparr>rootPointer = - 1, lastDelete = - 1\<rparr>\<rparr>)
        | Some h \<Rightarrow> s1\<lparr>mem_header := h\<rparr>))"

section \<open>Heights and rotations\<close>

definition avl_height :: "'k avl_index \<Rightarrow> physical_pos \<Rightarrow> int io" where
  "avl_height s p = (if p = - 1 then Inr (- 1) else bind_io (avl_read s p) (\<lambda>node. Inr (node_height node)))"

definition balancingFactor :: "'k avl_index \<Rightarrow> physical_pos \<Rightarrow> int io" where
  "balancingFactor s p =
     (if p = - 1 then Inr 0
      else bind_io (avl_read s p) (\<lambda>node.
           bind_io (avl_height s (leftChildren node)) (\<lambda>hl.
           bind_io (avl_height s (rightChildren node)) (\<lambda>hr. Inr (hl - hr)))))"

definition isBalanced :: "'k avl_index \<Rightarrow> physical_pos \<Rightarrow> bool io" where
  "isBalanced s p =
     (if p = - 1 then Inr True else bind_io (balancingFactor s p) (\<lambda>b. Inr (\<not> \<bar>b\<bar> > 1)))"

definition updateHeigth :: "'k avl_index \<Rightarrow> physical_pos \<Rightarrow> 'k avl_index io" where
  "updateHeigth s p =
     (if p = - 1 then Inr s
      else bind_io (avl_read s p) (\<lambda>node.
           bind_io (avl_height s (leftChildren node)) (\<lambda>hLeft.
           bind_io (avl_height s (rightChildren node)) (\<lambda>hRight.
           avl_write s p (node\<lparr>node_height := 1 + (if hRight > hLeft then hRight else hLeft), node_pos := p\<rparr>)))))"

definition leftRotation :: "'k avl_index \<Rightarrow> physical_pos \<Rightarrow> 'k avl_index io" where
  "leftRotation s p =
     bind_io (avl_read s p) (\<lambda>a.
     let child = rightChildren a in
     bind_io (avl_read s child) (\<lambda>b.
     let a1 = a\<lparr>rightChildren := leftChildren b\<rparr>;
         b1 = b\<lparr>leftChildren := child\<rparr> in
     bind_io (avl_write s p (b1\<lparr>node_pos := p\<rparr>)) (\<lambda>s1.
     bind_io (avl_write s1 child (a1\<lparr>node_pos := child\<rparr>)) (\<lambda>s2.
     bind_io (updateHeigth s2 child) (\<lambda>s3. updateHeigth s3 p)))))"

definition rightRotation :: "'k avl_index \<Rightarrow> physical_pos \<Rightarrow> 'k avl_index io" where
  "rightRotation s p =
     bind_io (avl_read s p) (\<lambda>a.
     let child = leftChildren a in
     bind_io (avl_read s child) (\<lambda>b.
     let a1 = a\<lparr>leftChildren := rightChildren b\<rparr>;
         b1 = b\<lparr>rightChildren := child\<rparr> in
     bind_io (avl_write s p (b1\<lparr>node_pos := p\<rparr>)) (\<lambda>s1.
     bind_io (avl_write s1 child (a1\<lparr>node_pos := child\<rparr>)) (\<lambda>s2.
     bind_io (updateHeigth s2 child) (\<lambda>s3. updateHeigth s3 p)))))"

definition avl_balance :: "'k avl_index \<Rightarrow> physical_pos \<Rightarrow> 'k avl_index io" where
  "avl_balance s p =
     (if p = - 1 then Inr s
      else bind_io (avl_read s p) (\<lambda>node.
           bind_io (balancingFactor s p) (\<lambda>balance.
           if balance > 1 then
             bind_io (balancingFactor s (leftChildren node)) (\<lambda>bl.
             bind_io (if bl \<le> - 1 then leftRotation s (leftChildren node) else Inr s) (\<lambda>s1.
             rightRotation s1 p))
           else if balance < - 1 then
             bind_io (balancingFactor s (rightChildren node)) (\<lambda>br.
             bind_io (if br \<ge> 1 then rightRotation s (rightChildren node) else Inr s) (\<lambda>s1.
             leftRotation s1 p))
           else Inr s)))"

text \<open>The end of \<open>insert\<close> and \<open>erase\<close>.\<close>

definition avl_rebalance :: "'k avl_index \<Rightarrow> physical_pos \<Rightarrow> 'k avl_index io" where
  "avl_rebalance s p =
     bind_io (updateHeigth s p) (\<lambda>s1.
     bind_io (isBalanced s1 p) (\<lambda>b. if b then Inr s1 else avl_balance s1 p))"

section \<open>Insertion\<close>

text \<open>The slot of a new node: the last erased one, or the end of the file.\<close>

definition avl_insertPointer :: "'k avl_index \<Rightarrow> ('k avl_index \<times> physical_pos) io" where
  "avl_insertPointer s =
     (if lastDelete (mem_header s) \<noteq> - 1 then
        bind_io (avl_read s (lastDelete (mem_header s))) (\<lambda>tempNode.
        Inr (avl_write_header (s\<lparr>mem_header := (mem_header s)\<lparr>lastDelete := nextDelete tempNode\<rparr>\<rparr>),
             lastDelete (mem_header s)))
      else Inr (s, end_pos sizeof_avh sizeof_avn (node_file s)))"

definition avl_insertChild ::
  "'k avl_index \<Rightarrow> physical_pos \<Rightarrow> (physical_pos \<Rightarrow> 'k avl_node) \<Rightarrow> 'k avl_node \<Rightarrow> 'k avl_index io" where
  "avl_insertChild s cPointer cNode iNode =
     bind_io (avl_insertPointer s) (\<lambda>(s1, insertPointer).
     bind_io (avl_write s1 insertPointer (iNode\<lparr>node_pos := insertPointer\<rparr>)) (\<lambda>s2.
     avl_write s2 cPointer ((cNode insertPointer)\<lparr>node_pos := cPointer\<rparr>)))"

definition avl_insertDuplicate :: "'k avl_index \<Rightarrow> 'k avl_node \<Rightarrow> 'k avl_node \<Rightarrow> 'k avl_index io" where
  "avl_insertDuplicate s cNode iNode =
     bind_io (insertDuplicate sizeof_avh sizeof_avn node_pos (node_file s) (dup_file s) cNode iNode)
       (\<lambda>(xs, ds, _). Inr (s\<lparr>node_file := xs, dup_file := ds\<rparr>))"

fun avl_insert ::
  "nat \<Rightarrow> ('k :: linorder) avl_index \<Rightarrow> physical_pos \<Rightarrow> 'k avl_node \<Rightarrow> 'k avl_index io" where
  "avl_insert 0 s cPointer iNode = Inl OutOfFuel"
| "avl_insert (Suc n) s cPointer iNode =
     (if cPointer = - 1 then
        bind_io (avl_write s sizeof_avh (iNode\<lparr>node_pos := sizeof_avh\<rparr>)) (\<lambda>s1.
        Inr (avl_write_header (s1\<lparr>mem_header := (mem_header s1)\<lparr>rootPointer := sizeof_avh\<rparr>\<rparr>)))
      else bind_io (avl_read s cPointer) (\<lambda>cNode.
        if data iNode > data cNode then
          bind_io (if rightChildren cNode \<noteq> - 1 then avl_insert n s (rightChildren cNode) iNode
                   else avl_insertChild s cPointer (\<lambda>p. cNode\<lparr>rightChildren := p\<rparr>) iNode)
            (\<lambda>s1. avl_rebalance s1 cPointer)
        else if data iNode < data cNode then
          bind_io (if leftChildren cNode \<noteq> - 1 then avl_insert n s (leftChildren cNode) iNode
                   else avl_insertChild s cPointer (\<lambda>p. cNode\<lparr>leftChildren := p\<rparr>) iNode)
            (\<lambda>s1. avl_rebalance s1 cPointer)
        else if is_pk s then Inl RuntimeError
        else avl_insertDuplicate s cNode iNode))"

section \<open>Search\<close>

fun avl_find :: "nat \<Rightarrow> ('k :: linorder) avl_index \<Rightarrow> physical_pos \<Rightarrow> 'k \<Rightarrow> 'k avl_node io" where
  "avl_find 0 s currentPointer item = Inl OutOfFuel"
| "avl_find (Suc n) s currentPointer item =
     (if currentPointer = - 1 then Inl RuntimeError
      else bind_io (avl_read s currentPointer) (\<lambda>cNode.
        if item > data cNode then avl_find n s (rightChildren cNode) item
        else if item < data cNode then avl_find n s (leftChildren cNode) item
        else Inr cNode))"

fun avl_maxNode :: "nat \<Rightarrow> 'k avl_index \<Rightarrow> physical_pos \<Rightarrow> physical_pos io" where
  "avl_maxNode 0 s p = Inl OutOfFuel"
| "avl_maxNode (Suc n) s p =
     (if p = - 1 then Inl RuntimeError
      else bind_io (avl_read s p) (\<lambda>node.
        if rightChildren node = - 1 then Inr p else avl_maxNode n s (rightChildren node)))"

definition avl_raw_records :: "'k avl_index \<Rightarrow> 'k avl_node \<Rightarrow> physical_pos list \<Rightarrow> physical_pos list io" where
  "avl_raw_records s x records = getAllRawCurrentRecords sizeof_avn (dup_file s) x records"

fun avl_rangeSearch ::
  "nat \<Rightarrow> ('k :: linorder) avl_index \<Rightarrow> physical_pos \<Rightarrow> 'k \<Rightarrow> 'k \<Rightarrow> physical_pos list \<Rightarrow> physical_pos list io" where
  "avl_rangeSearch 0 s cPointer begin_key end_key records = Inl OutOfFuel"
| "avl_rangeSearch (Suc n) s cPointer begin_key end_key records =
     (if cPointer = - 1 then Inr records
      else bind_io (avl_read s cPointer) (\<lambda>cNode.
        bind_io (if data cNode > begin_key then avl_rangeSearch n s (leftChildren cNode) begin_key end_key records
                 else Inr records) (\<lambda>records1.
        bind_io (if data cNode \<ge> begin_key \<and> data cNode \<le> end_key then avl_raw_records s cNode records1
                 else Inr records1) (\<lambda>records2.
        if data cNode < end_key then avl_rangeSearch n s (rightChildren cNode) begin_key end_key records2
        else Inr records2))))"

section \<open>Erasing\<close>

text \<open>
  The three branches for a node with at most one child: the parent, if there is one, points to \<open>child\<close>
  instead, and the slot becomes the first one of the list of erased slots.
\<close>

definition avl_unlink ::
  "'k avl_index \<Rightarrow> physical_pos \<Rightarrow> physical_pos \<Rightarrow> 'k avl_node \<Rightarrow> physical_pos \<Rightarrow> ('k avl_index \<times> 'k avl_node) io" where
  "avl_unlink s cPointer pPointer cNode child =
     bind_io (if pPointer \<noteq> - 1 then
         bind_io (avl_read s pPointer) (\<lambda>pNode.
         let pNode1 = (if leftChildren pNode = cPointer then pNode\<lparr>leftChildren := child\<rparr>
                       else if rightChildren pNode = cPointer then pNode\<lparr>rightChildren := child\<rparr>
                       else pNode)
         in avl_write s pPointer (pNode1\<lparr>node_pos := pPointer\<rparr>))
       else Inr s) (\<lambda>s1.
     let cNode1 = cNode\<lparr>nextDelete := lastDelete (mem_header s1), node_pos := cPointer\<rparr> in
     bind_io (avl_write s1 cPointer cNode1) (\<lambda>s2.
     Inr (avl_write_header (s2\<lparr>mem_header := (mem_header s2)\<lparr>lastDelete := cPointer\<rparr>\<rparr>), cNode1)))"

fun avl_fixValue ::
  "nat \<Rightarrow> ('k :: linorder) avl_index \<Rightarrow> physical_pos \<Rightarrow> 'k \<Rightarrow> 'k avl_node \<Rightarrow> 'k avl_index io" where
  "avl_fixValue 0 s cPointer item1 tempNode = Inl OutOfFuel"
| "avl_fixValue (Suc n) s cPointer item1 tempNode =
     (if cPointer = - 1 then Inr s
      else bind_io (avl_read s cPointer) (\<lambda>cNode.
        if data cNode > item1 then avl_fixValue n s (leftChildren cNode) item1 tempNode
        else if data cNode < item1 then avl_fixValue n s (rightChildren cNode) item1 tempNode
        else avl_write s cPointer (cNode\<lparr>data := data tempNode, raw_pos := raw_pos tempNode,
               dup_pos := dup_pos tempNode, node_pos := cPointer\<rparr>)))"

text \<open>
  \<open>erase\<close>: the variable \<open>cNode\<close> of the caller is the last component; \<open>None\<close> is a node that was never read.
\<close>

fun avl_erase ::
  "nat \<Rightarrow> ('k :: linorder) avl_index \<Rightarrow> physical_pos \<Rightarrow> physical_pos \<Rightarrow> 'k avl_node option \<Rightarrow> 'k \<Rightarrow>
     ('k avl_index \<times> bool \<times> 'k avl_node option) io" where
  "avl_erase 0 s cPointer pPointer cNode item = Inl OutOfFuel"
| "avl_erase (Suc n) s cPointer pPointer cNode item =
     (if cPointer = - 1 then Inr (s, False, cNode)
      else bind_io (avl_read s cPointer) (\<lambda>cNode.
        bind_io
          (if item > data cNode then avl_erase n s (rightChildren cNode) cPointer (Some cNode) item
           else if item < data cNode then avl_erase n s (leftChildren cNode) cPointer (Some cNode) item
           else if leftChildren cNode = - 1 \<and> rightChildren cNode = - 1 then
             bind_io (avl_unlink s cPointer pPointer cNode (- 1)) (\<lambda>(s1, cNode1). Inr (s1, True, Some cNode1))
           else if leftChildren cNode = - 1 then
             bind_io (avl_unlink s cPointer pPointer cNode (rightChildren cNode)) (\<lambda>(s1, cNode1).
             Inr (s1, True, Some cNode1))
           else if rightChildren cNode = - 1 then
             bind_io (avl_unlink s cPointer pPointer cNode (leftChildren cNode)) (\<lambda>(s1, cNode1).
             Inr (s1, True, Some cNode1))
           else
             bind_io (avl_maxNode n s (leftChildren cNode)) (\<lambda>newPos.
             bind_io (avl_read s newPos) (\<lambda>tempNode.
             bind_io (avl_erase n s (rootPointer (mem_header s)) (- 1) None (data tempNode)) (\<lambda>(s1, _, _).
             bind_io (avl_fixValue n s1 cPointer (data cNode) tempNode) (\<lambda>s2.
             Inr (s2, True, Some cNode))))))
          (\<lambda>(s1, erased, cNode1).
            if erased then bind_io (avl_rebalance s1 cPointer) (\<lambda>s2. Inr (s2, True, cNode1))
            else Inr (s1, False, cNode1))))"

section \<open>The operations of the index\<close>

text \<open>
  The recursions go down the tree.  A walk that meets a node twice never ends, so the number of nodes
  bounds every walk that returns; \<open>erase\<close> makes a second one from the root.
\<close>

definition avl_fuel :: "'k avl_index \<Rightarrow> nat" where
  "avl_fuel s = 2 * length (node_file s) + 2"

text \<open>
  An operation returns the index also when it throws.  The exceptions are thrown before anything is
  written, and they leave the stream open.
\<close>

definition avl_add :: "('k :: linorder) avl_index \<Rightarrow> 'k \<Rightarrow> physical_pos \<Rightarrow> 'k avl_index \<times> physical_pos list io" where
  "avl_add s k raw =
     (let s0 = avl_open s in
      case avl_insert (avl_fuel s) s0 (rootPointer (mem_header s)) (new_avl_node k raw) of
        Inl e \<Rightarrow> (s0, Inl e)
      | Inr s1 \<Rightarrow> (avl_close s1, Inr [raw]))"

definition avl_search :: "('k :: linorder) avl_index \<Rightarrow> 'k \<Rightarrow> 'k avl_index \<times> physical_pos list io" where
  "avl_search s item =
     (let s0 = avl_open s in
      case bind_io (avl_find (avl_fuel s) s0 (rootPointer (mem_header s)) item) (\<lambda>x. avl_raw_records s0 x []) of
        Inl e \<Rightarrow> (s0, Inl e)
      | Inr records \<Rightarrow> (avl_close s0, Inr records))"

text \<open>\<open>remove\<close>: the raw position of \<open>currentNode\<close>, which is 0 when it was never read.\<close>

definition avl_remove :: "('k :: linorder) avl_index \<Rightarrow> 'k \<Rightarrow> 'k avl_index \<times> physical_pos list io" where
  "avl_remove s item =
     (let s0 = avl_open s in
      case avl_erase (avl_fuel s) s0 (rootPointer (mem_header s)) (- 1) None item of
        Inl e \<Rightarrow> (s0, Inl e)
      | Inr (s1, _, cNode) \<Rightarrow> (avl_close s1, Inr [case cNode of None \<Rightarrow> 0 | Some x \<Rightarrow> raw_pos x]))"

definition avl_range_search :: "('k :: linorder) avl_index \<Rightarrow> 'k \<Rightarrow> 'k \<Rightarrow> 'k avl_index \<times> physical_pos list io" where
  "avl_range_search s start_key end_key =
     (let s0 = avl_open s in
      case avl_rangeSearch (avl_fuel s) s0 (rootPointer (mem_header s)) start_key end_key [] of
        Inl e \<Rightarrow> (s0, Inl e)
      | Inr records \<Rightarrow> (avl_close s0, Inr records))"

text \<open>\<open>bulk_insert\<close> returns no positions and no flags; its handler closes the stream.\<close>

fun avl_bulk_loop ::
  "('k :: linorder) avl_index \<Rightarrow> ('k \<times> physical_pos) list \<Rightarrow> 'k avl_index \<times> io_error option" where
  "avl_bulk_loop s [] = (s, None)"
| "avl_bulk_loop s ((k, raw) # records) =
     (case avl_insert (avl_fuel s) s (rootPointer (mem_header s)) (new_avl_node k raw) of
        Inl e \<Rightarrow> (s, Some e)
      | Inr s1 \<Rightarrow> avl_bulk_loop s1 records)"

definition avl_bulk_insert ::
  "('k :: linorder) avl_index \<Rightarrow> ('k \<times> physical_pos) list \<Rightarrow> 'k avl_index \<times> (physical_pos list \<times> bool list) io" where
  "avl_bulk_insert s records =
     (if records = [] then (s, Inr ([], []))
      else case avl_bulk_loop (avl_open s) records of
             (s1, None) \<Rightarrow> (avl_close s1, Inr ([], []))
           | (s1, Some e) \<Rightarrow> (avl_close s1, Inl e))"

definition avl_index_name :: string where
  "avl_index_name = ''AVL''"

end
