(* ===== verification/AvlTree.thy ===== *)
theory AvlTree
  imports IndexSpec "HOL-Library.Tree"
begin

text \<open>
  The reference definition of the AVL index: search trees of keys with a value, insertion and the
  removal of a node with at most one child with rebalancing on the way up, and the replacement of an
  entry.  The lemmas show that they keep the trees balanced and what they do to the list of entries.
\<close>

type_synonym ('k, 'v) avl_tree = "('k \<times> 'v) tree"

section \<open>Balance\<close>

fun t_rot_left :: "'a tree \<Rightarrow> 'a tree" where
  "t_rot_left (Node l a (Node m b r)) = Node (Node l a m) b r"
| "t_rot_left t = t"

fun t_rot_right :: "'a tree \<Rightarrow> 'a tree" where
  "t_rot_right (Node (Node l a m) b r) = Node l a (Node m b r)"
| "t_rot_right t = t"

fun t_factor :: "'a tree \<Rightarrow> int" where
  "t_factor Leaf = 0"
| "t_factor (Node l a r) = int (height l) - int (height r)"

fun t_balance :: "'a tree \<Rightarrow> 'a tree" where
  "t_balance Leaf = Leaf"
| "t_balance (Node l a r) =
     (if t_factor (Node l a r) > 1 then t_rot_right (Node (if t_factor l \<le> - 1 then t_rot_left l else l) a r)
      else if t_factor (Node l a r) < - 1 then t_rot_left (Node l a (if t_factor r \<ge> 1 then t_rot_right r else r))
      else Node l a r)"

fun avl_tree :: "'a tree \<Rightarrow> bool" where
  "avl_tree Leaf \<longleftrightarrow> True"
| "avl_tree (Node l a r) \<longleftrightarrow> \<bar>int (height l) - int (height r)\<bar> \<le> 1 \<and> avl_tree l \<and> avl_tree r"

lemma inorder_rot [simp]: "inorder (t_rot_left t) = inorder t" "inorder (t_rot_right t) = inorder t"
  by (cases t rule: t_rot_left.cases; simp) (cases t rule: t_rot_right.cases; simp)

lemma inorder_t_balance [simp]: "inorder (t_balance t) = inorder t"
  by (cases t) simp_all

lemma t_balance_avl: "avl_tree (Node l a r) \<Longrightarrow> t_balance (Node l a r) = Node l a r"
  by auto

text \<open>A node whose subtrees differ by at most two in height.\<close>

lemma avl_t_balance:
  assumes "avl_tree l" "avl_tree r" "\<bar>int (height l) - int (height r)\<bar> \<le> 2"
  shows "avl_tree (t_balance (Node l a r)) \<and>
     height (t_balance (Node l a r)) \<in> {max (height l) (height r), Suc (max (height l) (height r))} \<and>
     (\<bar>int (height l) - int (height r)\<bar> \<le> 1 \<longrightarrow>
        height (t_balance (Node l a r)) = Suc (max (height l) (height r)))"
proof -
  consider "height l = height r + 2" | "height r = height l + 2" | "\<bar>int (height l) - int (height r)\<bar> \<le> 1"
    using assms(3) by linarith
  then show ?thesis
  proof cases
    case 1
    then obtain ll x lr where l: "l = Node ll x lr" by (cases l) auto
    show ?thesis
    proof (cases "t_factor l \<le> - 1")
      case True
      then obtain m1 y m2 where "lr = Node m1 y m2" using l by (cases lr) auto
      then show ?thesis using 1 True assms(1,2) by (auto simp: l)
    next
      case False
      then show ?thesis using 1 assms(1,2) by (auto simp: l)
    qed
  next
    case 2
    then obtain rl x rr where r: "r = Node rl x rr" by (cases r) auto
    show ?thesis
    proof (cases "t_factor r \<ge> 1")
      case True
      then obtain m1 y m2 where "rl = Node m1 y m2" using r by (cases rl) auto
      then show ?thesis using 2 True assms(1,2) by (auto simp: r)
    next
      case False
      then show ?thesis using 2 assms(1,2) by (auto simp: r)
    qed
  next
    case 3
    then have "t_balance (Node l a r) = Node l a r" using assms(1,2) by (intro t_balance_avl) simp
    then show ?thesis using 3 assms(1,2) by (simp only:) simp
  qed
qed

section \<open>Insertion\<close>

abbreviation keys :: "('k \<times> 'v) tree \<Rightarrow> 'k set" where
  "keys t \<equiv> fst ` set_tree t"

definition search_tree :: "('k :: linorder \<times> 'v) tree \<Rightarrow> bool" where
  "search_tree t \<longleftrightarrow> sorted_wrt (<) (map fst (inorder t))"

lemma search_tree_simps [simp]:
  "search_tree Leaf"
  "search_tree (Node l a r) \<longleftrightarrow> search_tree l \<and> search_tree r \<and> (\<forall>k\<in>keys l. k < fst a) \<and> (\<forall>k\<in>keys r. fst a < k)"
  by (auto simp: search_tree_def sorted_wrt_append intro: less_trans)

fun t_insert :: "'k :: linorder \<Rightarrow> 'v \<Rightarrow> ('k, 'v) avl_tree \<Rightarrow> ('k, 'v) avl_tree" where
  "t_insert k v Leaf = Node Leaf (k, v) Leaf"
| "t_insert k v (Node l a r) =
     (if k > fst a then t_balance (Node l a (t_insert k v r))
      else if k < fst a then t_balance (Node (t_insert k v l) a r)
      else Node l a r)"

text \<open>Insertion in a list of entries; the first value of a key stays.\<close>

fun put_new :: "'k :: linorder \<Rightarrow> 'v \<Rightarrow> ('k \<times> 'v) list \<Rightarrow> ('k \<times> 'v) list" where
  "put_new k v [] = [(k, v)]"
| "put_new k v (e # m) = (if k < fst e then (k, v) # e # m else if k = fst e then e # m else e # put_new k v m)"

lemma put_new_append:
  "sorted_wrt (<) (map fst (m @ e # n)) \<Longrightarrow>
     put_new k v (m @ e # n) = (if k < fst e then put_new k v m @ e # n else m @ put_new k v (e # n))"
  by (induction m) auto

lemma inorder_t_insert: "search_tree t \<Longrightarrow> inorder (t_insert k v t) = put_new k v (inorder t)"
proof (induction t)
  case (Node l a r)
  have "sorted_wrt (<) (map fst (inorder l @ a # inorder r))" using Node.prems unfolding search_tree_def by simp
  note put = put_new_append[OF this, of k v]
  from Node show ?case by (cases "fst a" k rule: linorder_cases) (auto simp: put)
qed simp

lemma avl_t_insert:
  "avl_tree t \<Longrightarrow> avl_tree (t_insert k v t) \<and> height (t_insert k v t) \<in> {height t, Suc (height t)}"
proof (induction t)
  case (Node l a r)
  have l: "avl_tree (t_insert k v l)" "height (t_insert k v l) \<in> {height l, Suc (height l)}"
    and r: "avl_tree (t_insert k v r)" "height (t_insert k v r) \<in> {height r, Suc (height r)}"
    using Node by simp_all
  consider "fst a < k" | "k < fst a" | "k = fst a" using linorder_less_linear by blast
  then show ?case
  proof cases
    case 1
    have "\<bar>int (height l) - int (height (t_insert k v r))\<bar> \<le> 2" using Node.prems r(2) by auto
    note b = avl_t_balance[OF _ r(1) this, of a]
    then show ?thesis using Node.prems r(2) 1 by (auto simp del: t_balance.simps simp: max_def split: if_splits)
  next
    case 2
    have "\<bar>int (height (t_insert k v l)) - int (height r)\<bar> \<le> 2" using Node.prems l(2) by auto
    note b = avl_t_balance[OF l(1) _ this, of a]
    then show ?thesis using Node.prems l(2) 2 by (auto simp del: t_balance.simps simp: max_def split: if_splits)
  next
    case 3
    with Node.prems show ?thesis by simp
  qed
qed simp

section \<open>Removal\<close>

text \<open>The node of a key has at most one child.\<close>

fun one_child :: "'k :: linorder \<Rightarrow> ('k, 'v) avl_tree \<Rightarrow> bool" where
  "one_child k Leaf \<longleftrightarrow> False"
| "one_child k (Node l a r) \<longleftrightarrow>
     (if k > fst a then one_child k r else if k < fst a then one_child k l else l = Leaf \<or> r = Leaf)"

text \<open>Removal of a node with at most one child.\<close>

fun t_erase :: "'k :: linorder \<Rightarrow> ('k, 'v) avl_tree \<Rightarrow> ('k, 'v) avl_tree" where
  "t_erase k Leaf = Leaf"
| "t_erase k (Node l a r) =
     (if k > fst a then t_balance (Node l a (t_erase k r))
      else if k < fst a then t_balance (Node (t_erase k l) a r)
      else if l = Leaf then r else l)"

lemma one_child_key: "one_child k t \<Longrightarrow> k \<in> keys t"
  by (induction t) (auto split: if_splits)

lemma key_less: "search_tree (Node l a r) \<Longrightarrow> k \<in> keys l \<Longrightarrow> k < fst a"
  "search_tree (Node l a r) \<Longrightarrow> k \<in> keys r \<Longrightarrow> fst a < k"
  by auto

lemma keys_filter: "k \<notin> keys t \<Longrightarrow> filter (\<lambda>e. fst e \<noteq> k) (inorder t) = inorder t"
  by (auto simp: filter_id_conv)

lemma inorder_t_erase:
  "search_tree t \<Longrightarrow> one_child k t \<Longrightarrow> inorder (t_erase k t) = filter (\<lambda>e. fst e \<noteq> k) (inorder t)"
proof (induction t)
  case (Node l a r)
  have "k \<notin> keys r" if "k \<le> fst a" using Node.prems(1) that by auto
  moreover have "k \<notin> keys l" if "fst a \<le> k" using Node.prems(1) that by auto
  ultimately show ?case using Node
    by (cases "fst a" k rule: linorder_cases) (auto simp: keys_filter simp del: t_balance.simps)
qed simp

lemma avl_t_erase:
  "avl_tree t \<Longrightarrow> one_child k t \<Longrightarrow> avl_tree (t_erase k t) \<and> Suc (height (t_erase k t)) \<in> {height t, Suc (height t)}"
proof (induction t)
  case (Node l a r)
  consider "fst a < k" | "k < fst a" | "k = fst a" using linorder_less_linear by blast
  then show ?case
  proof cases
    case 1
    then have r: "avl_tree (t_erase k r)" "Suc (height (t_erase k r)) \<in> {height r, Suc (height r)}" using Node by auto
    have "\<bar>int (height l) - int (height (t_erase k r))\<bar> \<le> 2" using Node.prems r(2) by auto
    note b = avl_t_balance[OF _ r(1) this, of a]
    then show ?thesis using Node.prems r(2) 1 by (auto simp del: t_balance.simps simp: max_def split: if_splits)
  next
    case 2
    then have l: "avl_tree (t_erase k l)" "Suc (height (t_erase k l)) \<in> {height l, Suc (height l)}" using Node by auto
    have "\<bar>int (height (t_erase k l)) - int (height r)\<bar> \<le> 2" using Node.prems l(2) by auto
    note b = avl_t_balance[OF l(1) _ this, of a]
    then show ?thesis using Node.prems l(2) 2 by (auto simp del: t_balance.simps simp: max_def split: if_splits)
  next
    case 3
    with Node.prems show ?thesis by auto
  qed
qed simp

text \<open>The last entry of the left subtree of a node that has two children.\<close>

fun before_key :: "'k :: linorder \<Rightarrow> ('k, 'v) avl_tree \<Rightarrow> 'k \<times> 'v" where
  "before_key k (Node l a r) =
     (if k > fst a then before_key k r else if k < fst a then before_key k l else last (inorder l))"
| "before_key k Leaf = undefined"

definition set_entry :: "'k \<Rightarrow> 'k \<times> 'v \<Rightarrow> 'k \<times> 'v \<Rightarrow> 'k \<times> 'v" where
  "set_entry k e e' = (if fst e' = k then e else e')"

text \<open>Removal of any key.\<close>

definition t_remove :: "'k :: linorder \<Rightarrow> ('k, 'v) avl_tree \<Rightarrow> ('k, 'v) avl_tree" where
  "t_remove k t = (if one_child k t then t_erase k t
     else map_tree (set_entry k (before_key k t)) (t_erase (fst (before_key k t)) t))"

lemma last_one_child: "search_tree t \<Longrightarrow> t \<noteq> Leaf \<Longrightarrow> one_child (fst (last (inorder t))) t"
proof (induction t)
  case (Node l a r)
  show ?case
  proof (cases "r = Leaf")
    case False
    then have r: "one_child (fst (last (inorder r))) r" using Node by simp
    have "fst a < fst (last (inorder r))" using key_less(2)[OF Node.prems(1) one_child_key[OF r]] .
    then show ?thesis using r False by simp
  qed simp
qed simp

lemma last_in_keys: "t \<noteq> Leaf \<Longrightarrow> fst (last (inorder t)) \<in> keys t"
  by (metis eq_inorder_Nil image_eqI last_in_set set_inorder)

lemma before_key_in:
  assumes "search_tree t" "k \<in> keys t" "\<not> one_child k t"
  shows "one_child (fst (before_key k t)) t \<and> (\<exists>m n v. inorder t = m @ before_key k t # (k, v) # n)"
  using assms
proof (induction t)
  case (Node l a r)
  consider "fst a < k" | "k < fst a" | "k = fst a" using linorder_less_linear by blast
  then show ?case
  proof cases
    case 1
    then have "k \<in> keys r" using Node.prems by auto
    moreover have "\<not> one_child k r" using Node.prems(3) 1 by simp
    ultimately have r: "one_child (fst (before_key k r)) r" "\<exists>m n v. inorder r = m @ before_key k r # (k, v) # n"
      using Node.IH(2) Node.prems(1) by simp_all
    have "fst a < fst (before_key k r)" using key_less(2)[OF Node.prems(1) one_child_key[OF r(1)]] .
    moreover obtain m n v where "inorder r = m @ before_key k r # (k, v) # n" using r(2) by blast
    then have "inorder (Node l a r) = (inorder l @ a # m) @ before_key k r # (k, v) # n" by simp
    ultimately show ?thesis using 1 r(1) by (metis before_key.simps(1) one_child.simps(2))
  next
    case 2
    then have "k \<in> keys l" using Node.prems by auto
    moreover have "\<not> one_child k l" using Node.prems(3) 2 by (simp split: if_splits)
    ultimately have l: "one_child (fst (before_key k l)) l" "\<exists>m n v. inorder l = m @ before_key k l # (k, v) # n"
      using Node.IH(1) Node.prems(1) by simp_all
    have "fst (before_key k l) < fst a" using key_less(1)[OF Node.prems(1) one_child_key[OF l(1)]] .
    moreover obtain m n v where "inorder l = m @ before_key k l # (k, v) # n" using l(2) by blast
    then have "inorder (Node l a r) = m @ before_key k l # (k, v) # (n @ a # inorder r)" by simp
    ultimately show ?thesis using 2 l(1) by (metis before_key.simps(1) one_child.simps(2) less_asym)
  next
    case 3
    then have nl: "l \<noteq> Leaf" using Node.prems by auto
    have one: "one_child (fst (last (inorder l))) l" using Node.prems nl by (intro last_one_child) auto
    have lt: "fst (last (inorder l)) < fst a" using key_less(1)[OF Node.prems(1) last_in_keys[OF nl]] .
    have "inorder l = butlast (inorder l) @ [last (inorder l)]" using nl by simp
    then have "inorder (Node l a r) = butlast (inorder l) @ last (inorder l) # (k, snd a) # inorder r"
      using 3 by (metis append.assoc append_Cons append_Nil inorder.simps(2) prod.collapse)
    moreover have "before_key k (Node l a r) = last (inorder l)" using 3 by simp
    ultimately show ?thesis using one lt by (metis one_child.simps(2) less_asym)
  qed
qed simp

lemma inorder_t_remove:
  assumes "search_tree t" "k \<in> keys t"
  shows "inorder (t_remove k t) = filter (\<lambda>e. fst e \<noteq> k) (inorder t)"
proof (cases "one_child k t")
  case True
  then show ?thesis using assms(1) by (simp add: t_remove_def inorder_t_erase)
next
  case False
  let ?e = "before_key k t"
  obtain m n v where one: "one_child (fst ?e) t" and io: "inorder t = m @ ?e # (k, v) # n"
    using before_key_in[OF assms False] by blast
  have srt: "sorted_wrt (<) (map fst (m @ ?e # (k, v) # n))" using assms(1) io unfolding search_tree_def by simp
  then have ne: "fst ?e < k" "\<forall>e\<in>set m. fst e < fst ?e" "\<forall>e\<in>set m. fst e < k" "\<forall>e\<in>set n. k < fst e"
    "\<forall>e\<in>set n. fst ?e < fst e"
    by (auto simp: sorted_wrt_append)
  have same: "filter (\<lambda>e. fst e \<noteq> x) xs = xs"
    if "(\<forall>e\<in>set xs. fst e < x) \<or> (\<forall>e\<in>set xs. x < fst e)" for x :: 'a and xs :: "('a \<times> 'b) list"
    using that by (auto simp: filter_id_conv)
  have "filter (\<lambda>e. fst e \<noteq> fst ?e) m = m" "filter (\<lambda>e. fst e \<noteq> fst ?e) n = n"
    "filter (\<lambda>e. fst e \<noteq> k) m = m" "filter (\<lambda>e. fst e \<noteq> k) n = n" "k \<noteq> fst ?e"
    using ne same[of m] same[of n] by auto
  then have "filter (\<lambda>e. fst e \<noteq> fst ?e) (inorder t) = m @ (k, v) # n"
    "filter (\<lambda>e. fst e \<noteq> k) (inorder t) = m @ ?e # n"
    unfolding io by auto
  moreover have "map (set_entry k ?e) (m @ (k, v) # n) = m @ ?e # n"
    using ne by (auto simp: set_entry_def intro!: map_idI)
  ultimately show ?thesis
    using False inorder_t_erase[OF assms(1) one] by (simp add: t_remove_def inorder_map)
qed

lemma avl_map_tree [simp]: "avl_tree (map_tree f t) \<longleftrightarrow> avl_tree t"
  by (induction t) simp_all

lemma avl_t_remove:
  assumes "search_tree t" "k \<in> keys t" "avl_tree t"
  shows "avl_tree (t_remove k t)"
  using before_key_in[OF assms(1,2)] avl_t_erase[OF assms(3)] by (auto simp: t_remove_def)

section \<open>Height\<close>

text \<open>A balanced tree of height \<open>h\<close> has at least \<open>2 ^ (h div 2)\<close> leaves.\<close>

lemma avl_min_size: "avl_tree t \<Longrightarrow> h \<le> height t \<Longrightarrow> 2 ^ (h div 2) \<le> size1 t"
proof (induction t arbitrary: h)
  case (Node l a r)
  show ?case
  proof (cases "h \<le> 1")
    case True
    then have "h div 2 = 0" by auto
    then show ?thesis by (simp add: size1_size)
  next
    case False
    then obtain g where h: "h = Suc (Suc g)" by (metis One_nat_def not_less_eq_eq Suc_le_D le_SucE not_le)
    have "g \<le> height l" "g \<le> height r" using Node.prems h by (auto simp: max_def split: if_splits)
    then have "2 ^ (g div 2) \<le> size1 l" "2 ^ (g div 2) \<le> size1 r" using Node by auto
    then show ?thesis by (simp add: h)
  qed
qed simp

end
