(* ===== verification/AvlStore.thy ===== *)
theory AvlStore
  imports AvlModel AvlTree
begin

text \<open>
  Search trees in the index file: \<open>tree_at f p t P\<close> says that the nodes fetched by \<open>f\<close> from position \<open>p\<close> on form
  the tree \<open>t\<close> with its heights, and that they occupy the positions \<open>P\<close>, each one once.  A rotation
  keeps the position of the root of a subtree and moves the contents of its nodes, so every step has
  a set of positions outside which nothing changes.
\<close>

interpretation avl_records:
  record_store "moveReadRecord sizeof_avh sizeof_avn" "moveWriteRecord sizeof_avh sizeof_avn"
    "\<lambda>rs r. rs @ [r]" "end_pos sizeof_avh sizeof_avn"
  by (rule record_file_store) simp_all

definition avl_fetch :: "'k avl_index \<Rightarrow> physical_pos \<Rightarrow> 'k avl_node option" where
  "avl_fetch s p = io_value (avl_read s p)"

lemma avl_fetch_read: "avl_fetch s p = Some x \<longleftrightarrow> avl_read s p = Inr x"
  by (simp add: avl_fetch_def)

lemma avl_fetch_neg1 [simp]: "avl_fetch s (- 1) = None"
  by (simp add: avl_fetch_def avl_read_def)

section \<open>Writing a node\<close>

text \<open>Only the node file changes, it keeps its length, and only nodes at \<open>Q\<close> change.\<close>

definition evolves :: "'k avl_index \<Rightarrow> 'k avl_index \<Rightarrow> physical_pos set \<Rightarrow> bool" where
  "evolves s s' Q \<longleftrightarrow> (\<exists>xs. s' = s\<lparr>node_file := xs\<rparr> \<and> length xs = length (node_file s)) \<and>
     (\<forall>q. q \<notin> Q \<longrightarrow> avl_fetch s' q = avl_fetch s q)"

lemma evolves_refl [simp]: "evolves s s Q"
  by (auto simp: evolves_def intro: exI[of _ "node_file s"])

lemma evolves_trans: "evolves s s' Q \<Longrightarrow> evolves s' s'' R \<Longrightarrow> Q \<subseteq> T \<Longrightarrow> R \<subseteq> T \<Longrightarrow> evolves s s'' T"
  by (fastforce simp: evolves_def)

lemma evolves_mono: "evolves s s' Q \<Longrightarrow> Q \<subseteq> T \<Longrightarrow> evolves s s' T"
  by (auto simp: evolves_def)

lemma evolves_fields:
  "evolves s s' Q \<Longrightarrow> mem_header s' = mem_header s \<and> file_header s' = file_header s \<and> dup_file s' = dup_file s \<and>
     is_pk s' = is_pk s \<and> stream_open s' = stream_open s \<and> stream_failed s' = stream_failed s \<and>
     length (node_file s') = length (node_file s)"
  by (auto simp: evolves_def)

lemma evolves_fetch: "evolves s s' Q \<Longrightarrow> q \<notin> Q \<Longrightarrow> avl_fetch s' q = avl_fetch s q"
  by (simp add: evolves_def)

lemma avl_write_at:
  assumes "avl_fetch s p = Some y"
  obtains s' where "avl_write s p x = Inr s'" "evolves s s' {p}" "avl_fetch s' = (avl_fetch s)(p \<mapsto> x)"
proof -
  have ok: "\<not> stream_failed s" and rd: "moveReadRecord sizeof_avh sizeof_avn (node_file s) p = Inr y"
    using assms by (auto simp: avl_fetch_read avl_read_def split: if_splits)
  obtain xs where wr: "moveWriteRecord sizeof_avh sizeof_avn (node_file s) p x = Inr xs"
    using avl_records.write_defined[OF rd] by blast
  have len: "length xs = length (node_file s)"
    using moveReadRecord_aligned[OF _ _ rd wr] by auto
  have "avl_fetch (s\<lparr>node_file := xs\<rparr>) q = ((avl_fetch s)(p \<mapsto> x)) q" for q
    using avl_records.read_written[OF rd wr] avl_records.read_unwritten[OF rd wr] ok
    by (cases "q = p") (simp_all add: avl_fetch_def avl_read_def)
  then have f: "avl_fetch (s\<lparr>node_file := xs\<rparr>) = (avl_fetch s)(p \<mapsto> x)" by blast
  then have "evolves s (s\<lparr>node_file := xs\<rparr>) {p}" using len by (auto simp: evolves_def)
  then show thesis using f wr ok by (intro that[of "s\<lparr>node_file := xs\<rparr>"]) (simp_all add: avl_write_def)
qed

lemma avl_write_same: "avl_read s p = Inr x \<Longrightarrow> avl_write s p x = Inr s"
proof -
  assume rd: "avl_read s p = Inr x"
  then have ok: "\<not> stream_failed s" and m: "moveReadRecord sizeof_avh sizeof_avn (node_file s) p = Inr x"
    by (auto simp: avl_read_def split: if_splits)
  from moveReadRecord_Inr[OF m] obtain i where "i < length (node_file s)" "p = slot_pos sizeof_avh sizeof_avn i"
    "x = node_file s ! i" by auto
  then show ?thesis using ok by (simp add: avl_write_def moveWriteRecord_slot)
qed

section \<open>Trees in the file\<close>

type_synonym avl_value = "physical_pos \<times> physical_pos"

abbreviation entry :: "'k avl_node \<Rightarrow> 'k \<times> avl_value" where
  "entry x \<equiv> (data x, raw_pos x, dup_pos x)"

fun tree_at ::
  "(physical_pos \<Rightarrow> 'k avl_node option) \<Rightarrow> physical_pos \<Rightarrow> ('k, avl_value) avl_tree \<Rightarrow> physical_pos set \<Rightarrow> bool" where
  "tree_at f p Leaf P \<longleftrightarrow> p = - 1 \<and> P = {}"
| "tree_at f p (Node l e r) P \<longleftrightarrow>
     (\<exists>x Pl Pr. f p = Some x \<and> p \<noteq> - 1 \<and> node_pos x = p \<and> e = entry x \<and>
        tree_at f (leftChildren x) l Pl \<and> tree_at f (rightChildren x) r Pr \<and>
        p \<notin> Pl \<and> p \<notin> Pr \<and> Pl \<inter> Pr = {} \<and> P = insert p (Pl \<union> Pr) \<and>
        node_height x = int (max (height l) (height r)))"

text \<open>A node with its subtrees, whatever its own height says.\<close>

definition node_at ::
  "(physical_pos \<Rightarrow> 'k avl_node option) \<Rightarrow> physical_pos \<Rightarrow> 'k avl_node \<Rightarrow> ('k, avl_value) avl_tree \<Rightarrow>
     ('k, avl_value) avl_tree \<Rightarrow> physical_pos set \<Rightarrow> physical_pos set \<Rightarrow> bool" where
  "node_at f p x l r Pl Pr \<longleftrightarrow> f p = Some x \<and> p \<noteq> - 1 \<and> node_pos x = p \<and>
     tree_at f (leftChildren x) l Pl \<and> tree_at f (rightChildren x) r Pr \<and> p \<notin> Pl \<and> p \<notin> Pr \<and> Pl \<inter> Pr = {}"

lemma tree_at_Node:
  "tree_at f p (Node l e r) P \<longleftrightarrow> (\<exists>x Pl Pr. node_at f p x l r Pl Pr \<and> e = entry x \<and> P = insert p (Pl \<union> Pr) \<and>
     node_height x = int (max (height l) (height r)))"
  by (auto simp: node_at_def)

declare tree_at.simps(2) [simp del]

lemma tree_at_NodeE:
  assumes "tree_at f p (Node l e r) P"
  obtains x Pl Pr where "node_at f p x l r Pl Pr" "e = entry x" "P = insert p (Pl \<union> Pr)"
    "node_height x = int (max (height l) (height r))"
  using assms unfolding tree_at_Node by blast

lemma node_atD:
  assumes "node_at f p x l r Pl Pr"
  shows "f p = Some x" "p \<noteq> - 1" "node_pos x = p" "tree_at f (leftChildren x) l Pl" "tree_at f (rightChildren x) r Pr"
    "p \<notin> Pl" "p \<notin> Pr" "Pl \<inter> Pr = {}"
  using assms by (simp_all add: node_at_def)

lemma node_atI:
  "f p = Some x \<Longrightarrow> p \<noteq> - 1 \<Longrightarrow> node_pos x = p \<Longrightarrow> tree_at f (leftChildren x) l Pl \<Longrightarrow>
     tree_at f (rightChildren x) r Pr \<Longrightarrow> p \<notin> Pl \<Longrightarrow> p \<notin> Pr \<Longrightarrow> Pl \<inter> Pr = {} \<Longrightarrow> node_at f p x l r Pl Pr"
  by (simp add: node_at_def)

lemma tree_at_frame: "tree_at f p t P \<Longrightarrow> (\<And>q. q \<in> P \<Longrightarrow> g q = f q) \<Longrightarrow> tree_at g p t P"
proof (induction t arbitrary: p P)
  case (Node l e r)
  obtain x Pl Pr where x: "node_at f p x l r Pl Pr" "e = entry x" "P = insert p (Pl \<union> Pr)"
    "node_height x = int (max (height l) (height r))"
    using Node.prems(1) by (rule tree_at_NodeE)
  have "node_at g p x l r Pl Pr"
    using node_atD[OF x(1)] Node.IH Node.prems(2) x(3) by (simp add: node_at_def)
  then show ?case using x unfolding tree_at_Node by blast
qed simp

lemma tree_at_root: "tree_at f p t P \<Longrightarrow> p = - 1 \<longleftrightarrow> t = Leaf"
  by (cases t) (auto elim!: tree_at_NodeE simp: node_at_def)

lemma tree_at_in: "tree_at f p t P \<Longrightarrow> p \<noteq> - 1 \<Longrightarrow> p \<in> P"
  by (cases t) (auto elim!: tree_at_NodeE)

lemma tree_at_fetch: "tree_at f p t P \<Longrightarrow> q \<in> P \<Longrightarrow> \<exists>y. f q = Some y \<and> node_pos y = q"
  by (induction t arbitrary: p P) (auto elim!: tree_at_NodeE simp: node_at_def)

lemma tree_at_neg1: "tree_at f p t P \<Longrightarrow> - 1 \<notin> P"
  by (induction t arbitrary: p P) (auto elim!: tree_at_NodeE simp: node_at_def)

lemma tree_at_card: "tree_at f p t P \<Longrightarrow> finite P \<and> card P = size t"
proof (induction t arbitrary: p P)
  case (Node l e r)
  obtain x Pl Pr where x: "node_at f p x l r Pl Pr" "P = insert p (Pl \<union> Pr)"
    using Node.prems by (rule tree_at_NodeE)
  note n = node_atD[OF x(1)]
  show ?case using Node.IH(1)[OF n(4)] Node.IH(2)[OF n(5)] n(6-8) x(2) by (simp add: card_Un_disjoint)
qed simp

text \<open>The nodes are those of the entries.\<close>

lemma tree_at_entries: "tree_at f p t P \<Longrightarrow> entry ` {y. \<exists>q\<in>P. f q = Some y} = set_tree t"
proof (induction t arbitrary: p P)
  case (Node l e r)
  obtain x Pl Pr where x: "node_at f p x l r Pl Pr" "e = entry x" "P = insert p (Pl \<union> Pr)"
    using Node.prems by (rule tree_at_NodeE)
  note n = node_atD[OF x(1)]
  have "{y. \<exists>q\<in>P. f q = Some y} = insert x ({y. \<exists>q\<in>Pl. f q = Some y} \<union> {y. \<exists>q\<in>Pr. f q = Some y})"
    using n(1) x(3) by auto
  then show ?case using Node.IH(1)[OF n(4)] Node.IH(2)[OF n(5)] x(2) by (simp add: image_Un)
qed simp

text \<open>Every position of a tree is the root of a subtree.\<close>

lemma tree_at_subtree:
  "tree_at f p t P \<Longrightarrow> q \<in> P \<Longrightarrow> \<exists>l e r Q. tree_at f q (Node l e r) Q \<and> Node l e r \<in> subtrees t \<and> Q \<subseteq> P"
proof (induction t arbitrary: p P)
  case (Node l e r)
  obtain x Pl Pr where x: "node_at f p x l r Pl Pr" "P = insert p (Pl \<union> Pr)"
    using Node.prems(1) by (rule tree_at_NodeE)
  note n = node_atD[OF x(1)]
  consider "q = p" | "q \<in> Pl" | "q \<in> Pr" using Node.prems(2) x(2) by auto
  then show ?case
  proof cases
    case 1
    then show ?thesis using Node.prems by (intro exI[of _ l] exI[of _ e] exI[of _ r] exI[of _ P]) simp
  next
    case 2
    then show ?thesis using Node.IH(1)[OF n(4)] x(2) by fastforce
  next
    case 3
    then show ?thesis using Node.IH(2)[OF n(5)] x(2) by fastforce
  qed
qed simp

lemma subtrees_avl: "u \<in> subtrees t \<Longrightarrow> avl_tree t \<Longrightarrow> avl_tree u"
  by (induction t) auto

section \<open>Heights\<close>

lemma avl_height_at: "tree_at (avl_fetch s) p t P \<Longrightarrow> avl_height s p = Inr (int (height t) - 1)"
  by (cases t) (auto elim!: tree_at_NodeE simp: avl_height_def avl_fetch_read node_at_def)

lemma node_at_heights:
  assumes "node_at (avl_fetch s) p x l r Pl Pr"
  shows "avl_read s p = Inr x" "p \<noteq> - 1" "avl_height s (leftChildren x) = Inr (int (height l) - 1)"
    "avl_height s (rightChildren x) = Inr (int (height r) - 1)"
  using node_atD[OF assms] by (simp_all add: avl_height_at avl_fetch_read)

lemma balancingFactor_at:
  "node_at (avl_fetch s) p x l r Pl Pr \<Longrightarrow> balancingFactor s p = Inr (int (height l) - int (height r))"
  using node_at_heights[of s p x l r Pl Pr] by (simp add: balancingFactor_def)

lemma balancingFactor_tree: "tree_at (avl_fetch s) p t P \<Longrightarrow> balancingFactor s p = Inr (t_factor t)"
  by (cases t) (simp add: balancingFactor_def, auto elim!: tree_at_NodeE dest: balancingFactor_at)

lemma isBalanced_at:
  "node_at (avl_fetch s) p x l r Pl Pr \<Longrightarrow> isBalanced s p = Inr (\<bar>int (height l) - int (height r)\<bar> \<le> 1)"
  using balancingFactor_at[of s p x l r Pl Pr] by (auto simp: isBalanced_def node_at_def)

definition set_height :: "'k avl_node \<Rightarrow> ('k, avl_value) avl_tree \<Rightarrow> ('k, avl_value) avl_tree \<Rightarrow> 'k avl_node" where
  "set_height x l r = x\<lparr>node_height := int (max (height l) (height r))\<rparr>"

lemma updateHeigth_write:
  assumes "node_at (avl_fetch s) p x l r Pl Pr"
  shows "updateHeigth s p = avl_write s p (set_height x l r)"
proof -
  have "x\<lparr>node_height := h, node_pos := p\<rparr> = x\<lparr>node_height := h\<rparr>" for h
    using node_atD(3)[OF assms] by simp
  moreover have "1 + (if int (height r) - 1 > int (height l) - 1 then int (height r) - 1 else int (height l) - 1) =
      int (max (height l) (height r))"
    by (simp add: max_def)
  ultimately show ?thesis using node_at_heights[OF assms]
    by (simp only: updateHeigth_def set_height_def bind_io_Inr if_False)
qed

lemma updateHeigth_at:
  assumes "node_at (avl_fetch s) p x l r Pl Pr"
  obtains s' where "updateHeigth s p = Inr s'" "evolves s s' {p}"
    "tree_at (avl_fetch s') p (Node l (entry x) r) (insert p (Pl \<union> Pr))"
    "node_at (avl_fetch s') p (set_height x l r) l r Pl Pr"
proof -
  note n = node_atD[OF assms]
  obtain s' where s': "avl_write s p (set_height x l r) = Inr s'" "evolves s s' {p}"
    "avl_fetch s' = (avl_fetch s)(p \<mapsto> set_height x l r)"
    using n(1) by (rule avl_write_at)
  have "tree_at (avl_fetch s') (leftChildren x) l Pl" "tree_at (avl_fetch s') (rightChildren x) r Pr"
    using n s'(3) by (auto intro: tree_at_frame)
  then have na: "node_at (avl_fetch s') p (set_height x l r) l r Pl Pr"
    using n s'(3) by (simp add: node_at_def set_height_def)
  then have "tree_at (avl_fetch s') p (Node l (entry x) r) (insert p (Pl \<union> Pr))"
    unfolding tree_at_Node by (intro exI conjI) (assumption, simp_all add: set_height_def)
  with na s' show thesis by (intro that[of s']) (simp_all add: updateHeigth_write[OF assms])
qed

section \<open>Rotations\<close>

text \<open>
  Two writes exchange the contents of a node and of its child; the heights of both are recomputed.
\<close>

lemma rotation_writes:
  assumes "avl_fetch s p = Some a" "avl_fetch s q = Some b"
  obtains s1 s2 where "avl_write s p b' = Inr s1" "avl_write s1 q a' = Inr s2" "evolves s s2 {p, q}"
    "avl_fetch s2 = (avl_fetch s)(p \<mapsto> b', q \<mapsto> a')"
proof -
  obtain s1 where s1: "avl_write s p b' = Inr s1" "evolves s s1 {p}" "avl_fetch s1 = (avl_fetch s)(p \<mapsto> b')"
    using assms(1) by (rule avl_write_at)
  have "\<exists>c. avl_fetch s1 q = Some c" using assms(2) s1(3) by simp
  then obtain c where c: "avl_fetch s1 q = Some c" ..
  obtain s2 where s2: "avl_write s1 q a' = Inr s2" "evolves s1 s2 {q}" "avl_fetch s2 = (avl_fetch s1)(q \<mapsto> a')"
    using c by (rule avl_write_at)
  show thesis using s1 s2 evolves_trans[OF s1(2) s2(2), of "{p, q}"] by (intro that[of s1 s2]) simp_all
qed

lemma leftRotation_at:
  assumes "node_at (avl_fetch s) p x l (Node m b r) Pl Pr"
  obtains s' where "leftRotation s p = Inr s'" "evolves s s' (insert p Pr)"
    "tree_at (avl_fetch s') p (Node (Node l (entry x) m) b r) (insert p (Pl \<union> Pr))"
proof -
  note n = node_atD[OF assms]
  obtain y Pm Pq where y: "node_at (avl_fetch s) (rightChildren x) y m r Pm Pq" "b = entry y"
    "Pr = insert (rightChildren x) (Pm \<union> Pq)"
    using n(5) by (rule tree_at_NodeE)
  note ny = node_atD[OF y(1)]
  let ?q = "rightChildren x"
  let ?a = "x\<lparr>rightChildren := leftChildren y, node_pos := ?q\<rparr>"
  let ?b = "y\<lparr>leftChildren := ?q, node_pos := p\<rparr>"
  obtain s1 s2 where s2: "avl_write s p ?b = Inr s1" "avl_write s1 ?q ?a = Inr s2"
    "evolves s s2 {p, ?q}" "avl_fetch s2 = (avl_fetch s)(p \<mapsto> ?b, ?q \<mapsto> ?a)"
    using n(1) ny(1) by (rule rotation_writes)
  have pq: "p \<noteq> ?q" "?q \<notin> Pl" "Pl \<inter> Pm = {}" "p \<notin> Pm" "p \<notin> insert ?q (Pl \<union> Pm)" "p \<notin> Pq"
    "insert ?q (Pl \<union> Pm) \<inter> Pq = {}"
    using n(6-8) ny(6-8) y(3) by auto
  have other: "avl_fetch s2 z = avl_fetch s z" if "z \<noteq> p" "z \<noteq> ?q" for z using s2(4) that by simp
  have sub: "tree_at (avl_fetch s2) (leftChildren x) l Pl" "tree_at (avl_fetch s2) (leftChildren y) m Pm"
    "tree_at (avl_fetch s2) (rightChildren y) r Pq"
    using pq n(6) ny(6,7)
    by (auto intro!: tree_at_frame[OF n(4)] tree_at_frame[OF ny(4)] tree_at_frame[OF ny(5)] other)
  have "node_at (avl_fetch s2) ?q ?a l m Pl Pm"
    by (rule node_atI) (use sub pq ny(2,6) s2(4) in simp_all)
  then obtain s3 where s3: "updateHeigth s2 ?q = Inr s3" "evolves s2 s3 {?q}"
    "tree_at (avl_fetch s3) ?q (Node l (entry ?a) m) (insert ?q (Pl \<union> Pm))"
    by (rule updateHeigth_at)
  have "avl_fetch s3 p = Some ?b" using evolves_fetch[OF s3(2), of p] s2(4) pq by simp
  moreover have "tree_at (avl_fetch s3) (rightChildren y) r Pq"
    using ny(7) by (auto intro!: tree_at_frame[OF sub(3)] evolves_fetch[OF s3(2)])
  ultimately have "node_at (avl_fetch s3) p ?b (Node l (entry ?a) m) r (insert ?q (Pl \<union> Pm)) Pq"
    using s3(3) n(2) pq by (intro node_atI) simp_all
  then obtain s4 where s4: "updateHeigth s3 p = Inr s4" "evolves s3 s4 {p}"
    "tree_at (avl_fetch s4) p (Node (Node l (entry ?a) m) (entry ?b) r) (insert p (insert ?q (Pl \<union> Pm) \<union> Pq))"
    by (rule updateHeigth_at)
  have "evolves s s4 (insert p Pr)"
    using evolves_trans[OF evolves_trans[OF s2(3) s3(2)] s4(2), of "{p, ?q}" "insert p Pr"] y(3) by auto
  moreover have "insert p (insert ?q (Pl \<union> Pm) \<union> Pq) = insert p (Pl \<union> Pr)" using y(3) by auto
  moreover have "leftRotation s p = Inr s4"
    using n(1) ny(1) s2(1,2) s3(1) s4(1) by (simp add: leftRotation_def avl_fetch_read)
  ultimately show thesis using s4(3) y(2) by (intro that[of s4]) simp_all
qed

lemma rightRotation_at:
  assumes "node_at (avl_fetch s) p x (Node l b m) r Pl Pr"
  obtains s' where "rightRotation s p = Inr s'" "evolves s s' (insert p Pl)"
    "tree_at (avl_fetch s') p (Node l b (Node m (entry x) r)) (insert p (Pl \<union> Pr))"
proof -
  note n = node_atD[OF assms]
  obtain y Pm Pq where y: "node_at (avl_fetch s) (leftChildren x) y l m Pq Pm" "b = entry y"
    "Pl = insert (leftChildren x) (Pq \<union> Pm)"
    using n(4) by (rule tree_at_NodeE)
  note ny = node_atD[OF y(1)]
  let ?q = "leftChildren x"
  let ?a = "x\<lparr>leftChildren := rightChildren y, node_pos := ?q\<rparr>"
  let ?b = "y\<lparr>rightChildren := ?q, node_pos := p\<rparr>"
  obtain s1 s2 where s2: "avl_write s p ?b = Inr s1" "avl_write s1 ?q ?a = Inr s2"
    "evolves s s2 {p, ?q}" "avl_fetch s2 = (avl_fetch s)(p \<mapsto> ?b, ?q \<mapsto> ?a)"
    using n(1) ny(1) by (rule rotation_writes)
  have pq: "p \<noteq> ?q" "?q \<notin> Pr" "Pm \<inter> Pr = {}" "p \<notin> Pm" "p \<notin> insert ?q (Pm \<union> Pr)" "p \<notin> Pq"
    "Pq \<inter> insert ?q (Pm \<union> Pr) = {}"
    using n(6-8) ny(6-8) y(3) by auto
  have other: "avl_fetch s2 z = avl_fetch s z" if "z \<noteq> p" "z \<noteq> ?q" for z using s2(4) that by simp
  have sub: "tree_at (avl_fetch s2) (rightChildren x) r Pr" "tree_at (avl_fetch s2) (rightChildren y) m Pm"
    "tree_at (avl_fetch s2) (leftChildren y) l Pq"
    using pq n(7) ny(6,7)
    by (auto intro!: tree_at_frame[OF n(5)] tree_at_frame[OF ny(4)] tree_at_frame[OF ny(5)] other)
  have "node_at (avl_fetch s2) ?q ?a m r Pm Pr"
    by (rule node_atI) (use sub pq ny(2,7) s2(4) in simp_all)
  then obtain s3 where s3: "updateHeigth s2 ?q = Inr s3" "evolves s2 s3 {?q}"
    "tree_at (avl_fetch s3) ?q (Node m (entry ?a) r) (insert ?q (Pm \<union> Pr))"
    by (rule updateHeigth_at)
  have "avl_fetch s3 p = Some ?b" using evolves_fetch[OF s3(2), of p] s2(4) pq by simp
  moreover have "tree_at (avl_fetch s3) (leftChildren y) l Pq"
    using ny(6) by (auto intro!: tree_at_frame[OF sub(3)] evolves_fetch[OF s3(2)])
  ultimately have "node_at (avl_fetch s3) p ?b l (Node m (entry ?a) r) Pq (insert ?q (Pm \<union> Pr))"
    using s3(3) n(2) pq by (intro node_atI) simp_all
  then obtain s4 where s4: "updateHeigth s3 p = Inr s4" "evolves s3 s4 {p}"
    "tree_at (avl_fetch s4) p (Node l (entry ?b) (Node m (entry ?a) r)) (insert p (Pq \<union> insert ?q (Pm \<union> Pr)))"
    by (rule updateHeigth_at)
  have "evolves s s4 (insert p Pl)"
    using evolves_trans[OF evolves_trans[OF s2(3) s3(2)] s4(2), of "{p, ?q}" "insert p Pl"] y(3) by auto
  moreover have "insert p (Pq \<union> insert ?q (Pm \<union> Pr)) = insert p (Pl \<union> Pr)" using y(3) by auto
  moreover have "rightRotation s p = Inr s4"
    using n(1) ny(1) s2(1,2) s3(1) s4(1) by (simp add: rightRotation_def avl_fetch_read)
  ultimately show thesis using s4(3) y(2) by (intro that[of s4]) simp_all
qed

section \<open>Rebalancing\<close>

text \<open>The positions a rebalanced node changes besides its own: those of the higher subtree.\<close>

definition balance_at ::
  "('k, avl_value) avl_tree \<Rightarrow> ('k, avl_value) avl_tree \<Rightarrow> physical_pos set \<Rightarrow> physical_pos set \<Rightarrow> physical_pos set" where
  "balance_at l r Pl Pr = (if int (height l) - int (height r) > 1 then Pl
     else if int (height l) - int (height r) < - 1 then Pr else {})"

lemma node_at_frame:
  assumes "node_at f p x l r Pl Pr" "g p = Some x" "\<And>q. q \<in> Pl \<union> Pr \<Longrightarrow> g q = f q"
  shows "node_at g p x l r Pl Pr"
  using node_atD[OF assms(1)] assms(2,3) by (intro node_atI) (auto intro: tree_at_frame)

lemma balance_left_child:
  assumes "node_at (avl_fetch s) p x l r Pl Pr" "int (height l) - int (height r) > 1"
  obtains s' where "bind_io (balancingFactor s (leftChildren x)) (\<lambda>bl.
      bind_io (if bl \<le> - 1 then leftRotation s (leftChildren x) else Inr s) F) = F s'" "evolves s s' Pl"
    "node_at (avl_fetch s') p x (if t_factor l \<le> - 1 then t_rot_left l else l) r Pl Pr"
    "\<exists>m b n. (if t_factor l \<le> - 1 then t_rot_left l else l) = Node m b n"
proof -
  note n = node_atD[OF assms(1)]
  note bf = balancingFactor_tree[OF n(4)]
  obtain ll b lr where l: "l = Node ll b lr" using assms(2) by (cases l) auto
  show thesis
  proof (cases "t_factor l \<le> - 1")
    case False
    then show thesis using assms bf l by (intro that[of s]) (auto simp del: split_paired_Ex)
  next
    case True
    then obtain m c r' where lr: "lr = Node m c r'" using l by (cases lr) auto
    obtain y Qm Qr where y: "node_at (avl_fetch s) (leftChildren x) y ll (Node m c r') Qm Qr" "b = entry y"
      "Pl = insert (leftChildren x) (Qm \<union> Qr)"
      using n(4) unfolding l lr by (rule tree_at_NodeE)
    obtain s' where s': "leftRotation s (leftChildren x) = Inr s'" "evolves s s' (insert (leftChildren x) Qr)"
      "tree_at (avl_fetch s') (leftChildren x) (Node (Node ll (entry y) m) c r') Pl"
      using leftRotation_at[OF y(1)] unfolding y(3) by metis
    have ev: "evolves s s' Pl" using s'(2) y(3) by (auto elim: evolves_mono)
    have "tree_at (avl_fetch s') (rightChildren x) r Pr"
      using n(8) by (intro tree_at_frame[OF n(5)] evolves_fetch[OF ev]) auto
    then have "node_at (avl_fetch s') p x (t_rot_left l) r Pl Pr"
      using n s'(3) y(2) evolves_fetch[OF ev] l lr by (intro node_atI) simp_all
    then show thesis using True bf s'(1) ev l lr by (intro that[of s']) (simp_all del: split_paired_Ex)
  qed
qed

lemma balance_right_child:
  assumes "node_at (avl_fetch s) p x l r Pl Pr" "int (height l) - int (height r) < - 1"
  obtains s' where "bind_io (balancingFactor s (rightChildren x)) (\<lambda>br.
      bind_io (if br \<ge> 1 then rightRotation s (rightChildren x) else Inr s) F) = F s'" "evolves s s' Pr"
    "node_at (avl_fetch s') p x l (if t_factor r \<ge> 1 then t_rot_right r else r) Pl Pr"
    "\<exists>m b n. (if t_factor r \<ge> 1 then t_rot_right r else r) = Node m b n"
proof -
  note n = node_atD[OF assms(1)]
  note bf = balancingFactor_tree[OF n(5)]
  obtain rl b rr where r: "r = Node rl b rr" using assms(2) by (cases r) auto
  show thesis
  proof (cases "t_factor r \<ge> 1")
    case False
    then show thesis using assms bf r by (intro that[of s]) (auto simp del: split_paired_Ex)
  next
    case True
    then obtain l' c m where rl: "rl = Node l' c m" using r by (cases rl) auto
    obtain y Ql Qm where y: "node_at (avl_fetch s) (rightChildren x) y (Node l' c m) rr Ql Qm" "b = entry y"
      "Pr = insert (rightChildren x) (Ql \<union> Qm)"
      using n(5) unfolding r rl by (rule tree_at_NodeE)
    obtain s' where s': "rightRotation s (rightChildren x) = Inr s'" "evolves s s' (insert (rightChildren x) Ql)"
      "tree_at (avl_fetch s') (rightChildren x) (Node l' c (Node m (entry y) rr)) Pr"
      using rightRotation_at[OF y(1)] unfolding y(3) by metis
    have ev: "evolves s s' Pr" using s'(2) y(3) by (auto elim: evolves_mono)
    have "tree_at (avl_fetch s') (leftChildren x) l Pl"
      using n(8) by (intro tree_at_frame[OF n(4)] evolves_fetch[OF ev]) auto
    then have "node_at (avl_fetch s') p x l (t_rot_right r) Pl Pr"
      using n s'(3) y(2) evolves_fetch[OF ev] r rl by (intro node_atI) simp_all
    then show thesis using True bf s'(1) ev r rl by (intro that[of s']) (simp_all del: split_paired_Ex)
  qed
qed

lemma avl_balance_at:
  assumes "node_at (avl_fetch s) p x l r Pl Pr" "\<not> \<bar>int (height l) - int (height r)\<bar> \<le> 1"
  obtains s' where "avl_balance s p = Inr s'" "evolves s s' (insert p (balance_at l r Pl Pr))"
    "tree_at (avl_fetch s') p (t_balance (Node l (entry x) r)) (insert p (Pl \<union> Pr))"
proof -
  note h = node_at_heights[OF assms(1)]
  note bf = balancingFactor_at[OF assms(1)]
  consider "int (height l) - int (height r) > 1" | "int (height l) - int (height r) < - 1" using assms(2) by linarith
  then show thesis
  proof cases
    case 1
    obtain s1 m b k where s1: "bind_io (balancingFactor s (leftChildren x)) (\<lambda>bl.
        bind_io (if bl \<le> - 1 then leftRotation s (leftChildren x) else Inr s) (\<lambda>s1. rightRotation s1 p)) = rightRotation s1 p"
      "evolves s s1 Pl" "node_at (avl_fetch s1) p x (Node m b k) r Pl Pr"
      "(if t_factor l \<le> - 1 then t_rot_left l else l) = Node m b k"
      by (rule balance_left_child[OF assms(1) 1, where F = "\<lambda>s1. rightRotation s1 p"]) force
    obtain s2 where s2: "rightRotation s1 p = Inr s2" "evolves s1 s2 (insert p Pl)"
      "tree_at (avl_fetch s2) p (Node m b (Node k (entry x) r)) (insert p (Pl \<union> Pr))"
      using s1(3) by (rule rightRotation_at)
    have "avl_balance s p = Inr s2" using h bf 1 s1(1) s2(1) by (simp add: avl_balance_def)
    moreover have "evolves s s2 (insert p Pl)" by (rule evolves_trans[OF s1(2) s2(2)]) auto
    moreover have "t_balance (Node l (entry x) r) = Node m b (Node k (entry x) r)" using 1 s1(4) by simp
    ultimately show thesis using s2(3) 1 by (intro that[of s2]) (simp_all add: balance_at_def)
  next
    case 2
    obtain s1 m b k where s1: "bind_io (balancingFactor s (rightChildren x)) (\<lambda>br.
        bind_io (if br \<ge> 1 then rightRotation s (rightChildren x) else Inr s) (\<lambda>s1. leftRotation s1 p)) = leftRotation s1 p"
      "evolves s s1 Pr" "node_at (avl_fetch s1) p x l (Node m b k) Pl Pr"
      "(if t_factor r \<ge> 1 then t_rot_right r else r) = Node m b k"
      by (rule balance_right_child[OF assms(1) 2, where F = "\<lambda>s1. leftRotation s1 p"]) force
    obtain s2 where s2: "leftRotation s1 p = Inr s2" "evolves s1 s2 (insert p Pr)"
      "tree_at (avl_fetch s2) p (Node (Node l (entry x) m) b k) (insert p (Pl \<union> Pr))"
      using s1(3) by (rule leftRotation_at)
    have "avl_balance s p = Inr s2" using h bf 2 s1(1) s2(1) by (simp add: avl_balance_def)
    moreover have "evolves s s2 (insert p Pr)" by (rule evolves_trans[OF s1(2) s2(2)]) auto
    moreover have "t_balance (Node l (entry x) r) = Node (Node l (entry x) m) b k" using 2 s1(4) by simp
    ultimately show thesis using s2(3) 2 by (intro that[of s2]) (simp_all add: balance_at_def)
  qed
qed

lemma avl_rebalance_at:
  assumes "node_at (avl_fetch s) p x l r Pl Pr"
  obtains s' where "avl_rebalance s p = Inr s'" "evolves s s' (insert p (balance_at l r Pl Pr))"
    "tree_at (avl_fetch s') p (t_balance (Node l (entry x) r)) (insert p (Pl \<union> Pr))"
proof -
  obtain s1 where s1: "updateHeigth s p = Inr s1" "evolves s s1 {p}"
    "tree_at (avl_fetch s1) p (Node l (entry x) r) (insert p (Pl \<union> Pr))"
    "node_at (avl_fetch s1) p (set_height x l r) l r Pl Pr"
    using assms by (rule updateHeigth_at)
  note bal = isBalanced_at[OF s1(4)]
  show thesis
  proof (cases "\<bar>int (height l) - int (height r)\<bar> \<le> 1")
    case True
    then have "t_balance (Node l (entry x) r) = Node l (entry x) r" by auto
    then show thesis using True s1 bal
      by (intro that[of s1]) (simp_all add: avl_rebalance_def evolves_mono[OF s1(2)])
  next
    case False
    obtain s2 where s2: "avl_balance s1 p = Inr s2" "evolves s1 s2 (insert p (balance_at l r Pl Pr))"
      "tree_at (avl_fetch s2) p (t_balance (Node l (entry (set_height x l r)) r)) (insert p (Pl \<union> Pr))"
      using s1(4) False by (rule avl_balance_at)
    have "evolves s s2 (insert p (balance_at l r Pl Pr))" by (rule evolves_trans[OF s1(2) s2(2)]) auto
    then show thesis using False s1 s2 bal
      by (intro that[of s2]) (simp_all add: avl_rebalance_def set_height_def)
  qed
qed

text \<open>Rebalancing a node of a balanced tree with correct heights changes nothing.\<close>

lemma avl_rebalance_id:
  assumes "tree_at (avl_fetch s) p t P" "avl_tree t" "q \<in> P"
  shows "avl_rebalance s q = Inr s"
proof -
  obtain l e r Q where u: "tree_at (avl_fetch s) q (Node l e r) Q" "Node l e r \<in> subtrees t"
    using tree_at_subtree[OF assms(1,3)] by blast
  obtain x Pl Pr where x: "node_at (avl_fetch s) q x l r Pl Pr" "node_height x = int (max (height l) (height r))"
    using u(1) by (rule tree_at_NodeE)
  have "set_height x l r = x" using x(2) by (simp add: set_height_def)
  then have "updateHeigth s q = Inr s"
    using updateHeigth_write[OF x(1)] avl_write_same[OF node_at_heights(1)[OF x(1)]] by simp
  then show ?thesis
    using isBalanced_at[OF x(1)] subtrees_avl[OF u(2) assms(2)] by (simp add: avl_rebalance_def)
qed

end
