(* ===== verification/AvlInsert.thy ===== *)
theory AvlInsert
  imports AvlStore
begin

text \<open>
  Insertion in the index file: a new key takes the slot that was erased last, or a new one at the end of the
  file, and the file then holds the tree of the reference definition; a second record of a key
  goes to the duplicate file or is refused.
\<close>

section \<open>Slots\<close>

lemma avl_fetch_slots:
  "\<not> stream_failed s \<Longrightarrow> dom (avl_fetch s) = slot_pos sizeof_avh sizeof_avn ` {..<length (node_file s)}"
  using moveReadRecord_slot[of sizeof_avh sizeof_avn _ "node_file s"]
    moveReadRecord_Inr[of sizeof_avh sizeof_avn "node_file s"]
  by (fastforce simp: dom_def avl_fetch_read avl_read_def)

lemma avl_fetch_card: "\<not> stream_failed s \<Longrightarrow> card (dom (avl_fetch s)) = length (node_file s)"
  by (simp add: avl_fetch_slots card_image inj_on_def)

lemma evolves_dom:
  assumes "evolves s s' Q" "\<not> stream_failed s"
  shows "dom (avl_fetch s') = dom (avl_fetch s)"
  using evolves_fields[OF assms(1)] assms(2) by (simp add: avl_fetch_slots)

text \<open>The slot of the next new node, and the header after it was taken.\<close>

definition new_pos :: "'k avl_index \<Rightarrow> physical_pos" where
  "new_pos s = (if lastDelete (mem_header s) \<noteq> - 1 then lastDelete (mem_header s)
     else end_pos sizeof_avh sizeof_avn (node_file s))"

definition pop_header :: "'k avl_index \<Rightarrow> avl_header" where
  "pop_header s = (if lastDelete (mem_header s) \<noteq> - 1
     then (mem_header s)\<lparr>lastDelete := nextDelete (the (avl_fetch s (lastDelete (mem_header s))))\<rparr> else mem_header s)"

definition pop_file_header :: "'k avl_index \<Rightarrow> avl_header option" where
  "pop_file_header s = (if lastDelete (mem_header s) \<noteq> - 1 then Some (pop_header s) else file_header s)"

text \<open>The list of erased slots can be read at its start.\<close>

definition free_start :: "'k avl_index \<Rightarrow> bool" where
  "free_start s \<longleftrightarrow> \<not> stream_failed s \<and> (lastDelete (mem_header s) \<noteq> - 1 \<longrightarrow> avl_fetch s (lastDelete (mem_header s)) \<noteq> None)"

text \<open>What an insertion changes: the new slot is taken, and only it and the positions \<open>P\<close> change.\<close>

definition grown :: "'k avl_index \<Rightarrow> 'k avl_index \<Rightarrow> physical_pos set \<Rightarrow> bool" where
  "grown s s' P \<longleftrightarrow>
     (\<exists>xs. s' = s\<lparr>mem_header := pop_header s, file_header := pop_file_header s, node_file := xs\<rparr>) \<and>
     (\<forall>z. z \<notin> P \<longrightarrow> z \<noteq> new_pos s \<longrightarrow> avl_fetch s' z = avl_fetch s z) \<and>
     dom (avl_fetch s') = insert (new_pos s) (dom (avl_fetch s))"

lemma grown_evolves:
  assumes "grown s s1 Q" "evolves s1 s2 R" "Q \<subseteq> P" "R \<subseteq> insert (new_pos s) P" "\<not> stream_failed s"
  shows "grown s s2 P"
proof -
  have "\<not> stream_failed s1" using assms(1,5) by (auto simp: grown_def)
  then have "dom (avl_fetch s2) = dom (avl_fetch s1)" using assms(2) by (rule evolves_dom[rotated])
  moreover have "avl_fetch s2 z = avl_fetch s z" if "z \<notin> P" "z \<noteq> new_pos s" for z
  proof -
    have "z \<notin> Q" "z \<notin> R" using that assms(3,4) by auto
    then show ?thesis using assms(1) that(2) evolves_fetch[OF assms(2)] by (simp add: grown_def)
  qed
  moreover have "\<exists>xs. s2 = s\<lparr>mem_header := pop_header s, file_header := pop_file_header s, node_file := xs\<rparr>"
    using assms(1,2) by (fastforce simp: grown_def evolves_def)
  ultimately show ?thesis using assms(1) by (simp add: grown_def)
qed

lemma new_pos_neq: "free_start s \<Longrightarrow> new_pos s \<noteq> - 1"
  by (simp add: new_pos_def)

lemma avl_insertPointer_eq:
  assumes "free_start s"
  shows "avl_insertPointer s =
     Inr (s\<lparr>mem_header := pop_header s, file_header := pop_file_header s\<rparr>, new_pos s)"
proof (cases "lastDelete (mem_header s) = - 1")
  case True
  then show ?thesis by (simp add: avl_insertPointer_def pop_header_def pop_file_header_def new_pos_def)
next
  case False
  then obtain d where d: "avl_fetch s (lastDelete (mem_header s)) = Some d" using assms by (auto simp: free_start_def)
  then have "avl_read s (lastDelete (mem_header s)) = Inr d" by (simp add: avl_fetch_read)
  then show ?thesis using False assms d
    by (simp add: avl_insertPointer_def pop_header_def pop_file_header_def new_pos_def
        avl_write_header_def free_start_def)
qed

lemma avl_fetch_fields [simp]:
  "avl_fetch (s\<lparr>mem_header := h\<rparr>) = avl_fetch s" "avl_fetch (s\<lparr>file_header := fh\<rparr>) = avl_fetch s"
  "avl_fetch (s\<lparr>dup_file := ds\<rparr>) = avl_fetch s" "avl_fetch (s\<lparr>stream_open := b\<rparr>) = avl_fetch s"
  by (simp_all add: avl_fetch_def avl_read_def fun_eq_iff)

text \<open>Writing a new slot.\<close>

lemma avl_write_new:
  assumes "free_start s" "s1 = s\<lparr>mem_header := h, file_header := fh\<rparr>"
  obtains xs where "avl_write s1 (new_pos s) y = Inr (s1\<lparr>node_file := xs\<rparr>)"
    "avl_fetch (s1\<lparr>node_file := xs\<rparr>) = (avl_fetch s)(new_pos s \<mapsto> y)"
proof (cases "lastDelete (mem_header s) = - 1")
  case True
  have "avl_fetch (s1\<lparr>node_file := node_file s @ [y]\<rparr>) = (avl_fetch s)(new_pos s \<mapsto> y)"
    using assms True by (auto simp: avl_fetch_def avl_read_def moveReadRecord_snoc new_pos_def free_start_def)
  moreover have "avl_write s1 (new_pos s) y = Inr (s1\<lparr>node_file := node_file s @ [y]\<rparr>)"
    using assms True by (simp add: avl_write_def moveWriteRecord_end new_pos_def free_start_def)
  ultimately show thesis by (intro that)
next
  case False
  then obtain d where d: "avl_fetch s1 (new_pos s) = Some d" using assms by (auto simp: free_start_def new_pos_def)
  obtain s' where s': "avl_write s1 (new_pos s) y = Inr s'" "evolves s1 s' {new_pos s}"
    "avl_fetch s' = (avl_fetch s1)(new_pos s \<mapsto> y)"
    using d by (rule avl_write_at)
  moreover obtain xs where "s' = s1\<lparr>node_file := xs\<rparr>" using s'(2) by (auto simp: evolves_def)
  ultimately show thesis using assms(2) by (intro that[of xs]) simp_all
qed

lemma avl_insertChild_at:
  assumes "free_start s" "avl_fetch s c = Some x" "c \<noteq> new_pos s"
  obtains s' where "avl_insertChild s c g i = Inr s'" "grown s s' {c}"
    "avl_fetch s' = (avl_fetch s)(new_pos s \<mapsto> i\<lparr>node_pos := new_pos s\<rparr>, c \<mapsto> (g (new_pos s))\<lparr>node_pos := c\<rparr>)"
proof -
  let ?s1 = "s\<lparr>mem_header := pop_header s, file_header := pop_file_header s\<rparr>"
  obtain xs where xs: "avl_write ?s1 (new_pos s) (i\<lparr>node_pos := new_pos s\<rparr>) = Inr (?s1\<lparr>node_file := xs\<rparr>)"
    "avl_fetch (?s1\<lparr>node_file := xs\<rparr>) = (avl_fetch s)(new_pos s \<mapsto> i\<lparr>node_pos := new_pos s\<rparr>)"
    using assms(1) by (rule avl_write_new) simp
  let ?s2 = "?s1\<lparr>node_file := xs\<rparr>"
  have "avl_fetch ?s2 c = Some x" using xs(2) assms(2,3) by simp
  then obtain s3 where s3: "avl_write ?s2 c ((g (new_pos s))\<lparr>node_pos := c\<rparr>) = Inr s3" "evolves ?s2 s3 {c}"
    "avl_fetch s3 = (avl_fetch ?s2)(c \<mapsto> (g (new_pos s))\<lparr>node_pos := c\<rparr>)"
    by (rule avl_write_at)
  obtain ys where ys: "s3 = ?s2\<lparr>node_file := ys\<rparr>" using s3(2) by (auto simp: evolves_def)
  have f: "avl_fetch s3 = (avl_fetch s)(new_pos s \<mapsto> i\<lparr>node_pos := new_pos s\<rparr>, c \<mapsto> (g (new_pos s))\<lparr>node_pos := c\<rparr>)"
    using s3(3) xs(2) by simp
  have "dom (avl_fetch s3) = insert (new_pos s) (dom (avl_fetch s))" using f assms(2) by auto
  then have "grown s s3 {c}" using ys f by (auto simp: grown_def)
  moreover have "avl_insertChild s c g i = Inr s3"
    using xs(1) s3(1) by (simp add: avl_insertChild_def avl_insertPointer_eq[OF assms(1)])
  ultimately show thesis using f by (intro that[of s3])
qed

section \<open>A new key\<close>

definition new_leaf :: "'k avl_node \<Rightarrow> bool" where
  "new_leaf i \<longleftrightarrow> leftChildren i = - 1 \<and> rightChildren i = - 1 \<and> node_height i = 0"

lemma new_leaf_tree:
  "new_leaf i \<Longrightarrow> f q = Some (i\<lparr>node_pos := q\<rparr>) \<Longrightarrow> q \<noteq> - 1 \<Longrightarrow> tree_at f q (Node Leaf (entry i) Leaf) {q}"
  unfolding tree_at_Node by (intro exI[of _ "i\<lparr>node_pos := q\<rparr>"] exI[of _ "{}"]) (auto simp: node_at_def new_leaf_def)

text \<open>A subtree that was replaced, and a new leaf.\<close>

lemma node_at_right:
  assumes "node_at f p x l r Pl Pr" "tree_at g (rightChildren x) r' (insert q Pr)" "q \<noteq> p" "q \<notin> Pl"
    "\<And>z. z \<notin> Pr \<Longrightarrow> z \<noteq> q \<Longrightarrow> g z = f z"
  shows "node_at g p x l r' Pl (insert q Pr)"
proof -
  note n = node_atD[OF assms(1)]
  have "tree_at g (leftChildren x) l Pl" using assms(4) n(8) by (intro tree_at_frame[OF n(4)] assms(5)) auto
  then show ?thesis using n assms(2-4) assms(5)[of p] by (intro node_atI) auto
qed

lemma node_at_left:
  assumes "node_at f p x l r Pl Pr" "tree_at g (leftChildren x) l' (insert q Pl)" "q \<noteq> p" "q \<notin> Pr"
    "\<And>z. z \<notin> Pl \<Longrightarrow> z \<noteq> q \<Longrightarrow> g z = f z"
  shows "node_at g p x l' r (insert q Pl) Pr"
proof -
  note n = node_atD[OF assms(1)]
  have "tree_at g (rightChildren x) r Pr" using assms(4) n(8) by (intro tree_at_frame[OF n(5)] assms(5)) auto
  then show ?thesis using n assms(2-4) assms(5)[of p] by (intro node_atI) auto
qed

lemma attach_right:
  assumes "free_start s" "new_leaf i" "node_at (avl_fetch s) p x l Leaf Pl Pr" "new_pos s \<noteq> p" "new_pos s \<notin> Pl"
  obtains s1 y where "avl_insertChild s p (\<lambda>p. x\<lparr>rightChildren := p\<rparr>) i = Inr s1" "grown s s1 {p}" "entry y = entry x"
    "node_at (avl_fetch s1) p y l (Node Leaf (entry i) Leaf) Pl {new_pos s}"
proof -
  note nx = node_atD[OF assms(3)]
  obtain s1 where s1: "avl_insertChild s p (\<lambda>p. x\<lparr>rightChildren := p\<rparr>) i = Inr s1" "grown s s1 {p}"
    "avl_fetch s1 = (avl_fetch s)(new_pos s \<mapsto> i\<lparr>node_pos := new_pos s\<rparr>,
       p \<mapsto> (x\<lparr>rightChildren := new_pos s\<rparr>)\<lparr>node_pos := p\<rparr>)"
    using assms(1) nx(1) assms(4)[symmetric] by (rule avl_insertChild_at)
  have new: "tree_at (avl_fetch s1) (new_pos s) (Node Leaf (entry i) Leaf) {new_pos s}"
    using s1(3) assms(4) new_pos_neq[OF assms(1)] by (intro new_leaf_tree assms(2)) simp_all
  have "tree_at (avl_fetch s1) (leftChildren x) l Pl"
    using assms(5) nx(6) by (intro tree_at_frame[OF nx(4)]) (auto simp: s1(3))
  then have "node_at (avl_fetch s1) p (x\<lparr>rightChildren := new_pos s, node_pos := p\<rparr>) l
      (Node Leaf (entry i) Leaf) Pl {new_pos s}"
    using new s1(3) nx(2,6) assms(4,5) by (intro node_atI) auto
  then show thesis by (rule that[OF s1(1,2), rotated]) simp
qed

lemma attach_left:
  assumes "free_start s" "new_leaf i" "node_at (avl_fetch s) p x Leaf r Pl Pr" "new_pos s \<noteq> p" "new_pos s \<notin> Pr"
  obtains s1 y where "avl_insertChild s p (\<lambda>p. x\<lparr>leftChildren := p\<rparr>) i = Inr s1" "grown s s1 {p}" "entry y = entry x"
    "node_at (avl_fetch s1) p y (Node Leaf (entry i) Leaf) r {new_pos s} Pr"
proof -
  note nx = node_atD[OF assms(3)]
  obtain s1 where s1: "avl_insertChild s p (\<lambda>p. x\<lparr>leftChildren := p\<rparr>) i = Inr s1" "grown s s1 {p}"
    "avl_fetch s1 = (avl_fetch s)(new_pos s \<mapsto> i\<lparr>node_pos := new_pos s\<rparr>,
       p \<mapsto> (x\<lparr>leftChildren := new_pos s\<rparr>)\<lparr>node_pos := p\<rparr>)"
    using assms(1) nx(1) assms(4)[symmetric] by (rule avl_insertChild_at)
  have new: "tree_at (avl_fetch s1) (new_pos s) (Node Leaf (entry i) Leaf) {new_pos s}"
    using s1(3) assms(4) new_pos_neq[OF assms(1)] by (intro new_leaf_tree assms(2)) simp_all
  have "tree_at (avl_fetch s1) (rightChildren x) r Pr"
    using assms(5) nx(7) by (intro tree_at_frame[OF nx(5)]) (auto simp: s1(3))
  then have "node_at (avl_fetch s1) p (x\<lparr>leftChildren := new_pos s, node_pos := p\<rparr>)
      (Node Leaf (entry i) Leaf) r {new_pos s} Pr"
    using new s1(3) nx(2,7) assms(4,5) by (intro node_atI) auto
  then show thesis by (rule that[OF s1(1,2), rotated]) simp
qed

text \<open>The end of an insertion: the subtree with the new key below the node is rebalanced.\<close>

lemma grown_rebalance:
  assumes "grown s s1 P" "node_at (avl_fetch s1) p y l r Pl Pr" "insert p (Pl \<union> Pr) = insert (new_pos s) P"
    "\<not> stream_failed s"
  obtains s2 where "avl_rebalance s1 p = Inr s2" "grown s s2 P"
    "tree_at (avl_fetch s2) p (t_balance (Node l (entry y) r)) (insert (new_pos s) P)"
proof -
  obtain s2 where s2: "avl_rebalance s1 p = Inr s2" "evolves s1 s2 (insert p (balance_at l r Pl Pr))"
    "tree_at (avl_fetch s2) p (t_balance (Node l (entry y) r)) (insert p (Pl \<union> Pr))"
    using assms(2) by (rule avl_rebalance_at)
  have "insert p (balance_at l r Pl Pr) \<subseteq> insert (new_pos s) P"
    unfolding assms(3)[symmetric] by (auto simp: balance_at_def)
  then have "grown s s2 P" by (rule grown_evolves[OF assms(1) s2(2) order_refl _ assms(4)])
  then show thesis by (rule that[OF s2(1) _ s2(3)[unfolded assms(3)]])
qed

lemma grown_mono: "grown s s' Q \<Longrightarrow> Q \<subseteq> P \<Longrightarrow> grown s s' P"
  by (auto simp: grown_def)

lemma avl_insert_new:
  assumes "new_leaf i" "free_start s"
  shows "tree_at (avl_fetch s) p t P \<Longrightarrow> t \<noteq> Leaf \<Longrightarrow> data i \<notin> keys t \<Longrightarrow> new_pos s \<notin> P \<Longrightarrow> height t \<le> n \<Longrightarrow>
     \<exists>s'. avl_insert n s p i = Inr s' \<and> grown s s' P \<and>
       tree_at (avl_fetch s') p (t_insert (data i) (raw_pos i, dup_pos i) t) (insert (new_pos s) P)"
proof (induction t arbitrary: p P n)
  case (Node l e r)
  obtain m where n: "n = Suc m" "height l \<le> m" "height r \<le> m" using Node.prems(5) by (cases n) auto
  obtain x Pl Pr where x: "node_at (avl_fetch s) p x l r Pl Pr" "e = entry x" "P = insert p (Pl \<union> Pr)"
    using Node.prems(1) by (rule tree_at_NodeE)
  note nx = node_atD[OF x(1)]
  note hx = node_at_heights(1,2)[OF x(1)]
  have ok: "\<not> stream_failed s" using assms(2) by (simp add: free_start_def)
  have nP: "new_pos s \<noteq> p" "new_pos s \<notin> Pl" "new_pos s \<notin> Pr" using Node.prems(4) x(3) by auto
  consider "data x < data i" | "data i < data x"
    using Node.prems(3) x(2) by (cases "data x" "data i" rule: linorder_cases) auto
  then show ?case
  proof cases
    case 1
    let ?r = "t_insert (data i) (raw_pos i, dup_pos i) r"
    have "\<exists>s1 y. (if rightChildren x \<noteq> - 1 then avl_insert m s (rightChildren x) i
        else avl_insertChild s p (\<lambda>p. x\<lparr>rightChildren := p\<rparr>) i) = Inr s1 \<and> grown s s1 P \<and> entry y = e \<and>
        node_at (avl_fetch s1) p y l ?r Pl (insert (new_pos s) Pr)"
    proof (cases "r = Leaf")
      case True
      then have r: "rightChildren x = - 1" "Pr = {}" using nx(5) by simp_all
      obtain s1 y where s1: "avl_insertChild s p (\<lambda>p. x\<lparr>rightChildren := p\<rparr>) i = Inr s1" "grown s s1 {p}"
        "entry y = entry x" "node_at (avl_fetch s1) p y l (Node Leaf (entry i) Leaf) Pl {new_pos s}"
        using attach_right[OF assms(2,1) x(1)[unfolded True] nP(1,2)] by metis
      have "grown s s1 P" by (rule grown_mono[OF s1(2)]) (simp add: x(3))
      then show ?thesis using s1 r True x(2) by (intro exI[of _ s1] exI[of _ y]) simp
    next
      case False
      then have r: "rightChildren x \<noteq> - 1" using tree_at_root[OF nx(5)] by simp
      obtain s1 where s1: "avl_insert m s (rightChildren x) i = Inr s1" "grown s s1 Pr"
        "tree_at (avl_fetch s1) (rightChildren x) ?r (insert (new_pos s) Pr)"
        using Node.IH(2)[OF nx(5) False _ nP(3) n(3)] Node.prems(3) by auto
      have "node_at (avl_fetch s1) p x l ?r Pl (insert (new_pos s) Pr)"
        using x(1) s1(3) nP(1,2) s1(2) by (intro node_at_right[of "avl_fetch s"]) (simp_all add: grown_def)
      moreover have "grown s s1 P" by (rule grown_mono[OF s1(2)]) (auto simp: x(3))
      ultimately show ?thesis using s1(1) r x(2) by auto
    qed
    then obtain s1 y where s1: "(if rightChildren x \<noteq> - 1 then avl_insert m s (rightChildren x) i
        else avl_insertChild s p (\<lambda>p. x\<lparr>rightChildren := p\<rparr>) i) = Inr s1" "grown s s1 P" "entry y = e"
      "node_at (avl_fetch s1) p y l ?r Pl (insert (new_pos s) Pr)" by blast
    have "insert p (Pl \<union> insert (new_pos s) Pr) = insert (new_pos s) P" using x(3) by auto
    from grown_rebalance[OF s1(2,4) this ok] obtain s2 where s2: "avl_rebalance s1 p = Inr s2" "grown s s2 P"
      "tree_at (avl_fetch s2) p (t_balance (Node l (entry y) ?r)) (insert (new_pos s) P)" by metis
    have "avl_insert n s p i = Inr s2" using n(1) hx 1 s1(1) s2(1) by simp
    then show ?thesis using s2 1 x(2) s1(3) by (simp del: t_balance.simps)
  next
    case 2
    let ?l = "t_insert (data i) (raw_pos i, dup_pos i) l"
    have "\<exists>s1 y. (if leftChildren x \<noteq> - 1 then avl_insert m s (leftChildren x) i
        else avl_insertChild s p (\<lambda>p. x\<lparr>leftChildren := p\<rparr>) i) = Inr s1 \<and> grown s s1 P \<and> entry y = e \<and>
        node_at (avl_fetch s1) p y ?l r (insert (new_pos s) Pl) Pr"
    proof (cases "l = Leaf")
      case True
      then have l: "leftChildren x = - 1" "Pl = {}" using nx(4) by simp_all
      obtain s1 y where s1: "avl_insertChild s p (\<lambda>p. x\<lparr>leftChildren := p\<rparr>) i = Inr s1" "grown s s1 {p}"
        "entry y = entry x" "node_at (avl_fetch s1) p y (Node Leaf (entry i) Leaf) r {new_pos s} Pr"
        using attach_left[OF assms(2,1) x(1)[unfolded True] nP(1,3)] by metis
      have "grown s s1 P" by (rule grown_mono[OF s1(2)]) (simp add: x(3))
      then show ?thesis using s1 l True x(2) by (intro exI[of _ s1] exI[of _ y]) simp
    next
      case False
      then have l: "leftChildren x \<noteq> - 1" using tree_at_root[OF nx(4)] by simp
      obtain s1 where s1: "avl_insert m s (leftChildren x) i = Inr s1" "grown s s1 Pl"
        "tree_at (avl_fetch s1) (leftChildren x) ?l (insert (new_pos s) Pl)"
        using Node.IH(1)[OF nx(4) False _ nP(2) n(2)] Node.prems(3) by auto
      have "node_at (avl_fetch s1) p x ?l r (insert (new_pos s) Pl) Pr"
        using x(1) s1(3) nP(1,3) s1(2) by (intro node_at_left[of "avl_fetch s"]) (simp_all add: grown_def)
      moreover have "grown s s1 P" by (rule grown_mono[OF s1(2)]) (auto simp: x(3))
      ultimately show ?thesis using s1(1) l x(2) by auto
    qed
    then obtain s1 y where s1: "(if leftChildren x \<noteq> - 1 then avl_insert m s (leftChildren x) i
        else avl_insertChild s p (\<lambda>p. x\<lparr>leftChildren := p\<rparr>) i) = Inr s1" "grown s s1 P" "entry y = e"
      "node_at (avl_fetch s1) p y ?l r (insert (new_pos s) Pl) Pr" by blast
    have "insert p (insert (new_pos s) Pl \<union> Pr) = insert (new_pos s) P" using x(3) by auto
    from grown_rebalance[OF s1(2,4) this ok] obtain s2 where s2: "avl_rebalance s1 p = Inr s2" "grown s s2 P"
      "tree_at (avl_fetch s2) p (t_balance (Node ?l (entry y) r)) (insert (new_pos s) P)" by metis
    have "avl_insert n s p i = Inr s2" using n(1) hx 2 s1(1) s2(1) by (simp add: less_not_sym)
    then show ?thesis using s2 2 x(2) s1(3) by (simp add: less_not_sym del: t_balance.simps)
  qed
qed simp

section \<open>A key that is there\<close>

lemma avl_insert_refused:
  "tree_at (avl_fetch s) p t P \<Longrightarrow> search_tree t \<Longrightarrow> is_pk s \<Longrightarrow> data i \<in> keys t \<Longrightarrow> height t \<le> n \<Longrightarrow>
     avl_insert n s p i = Inl RuntimeError"
proof (induction t arbitrary: p P n)
  case (Node l e r)
  obtain m where n: "n = Suc m" "height l \<le> m" "height r \<le> m" using Node.prems(5) by (cases n) auto
  obtain x Pl Pr where x: "node_at (avl_fetch s) p x l r Pl Pr" "e = entry x"
    using Node.prems(1) by (rule tree_at_NodeE)
  note nx = node_atD[OF x(1)]
  note hx = node_at_heights(1,2)[OF x(1)]
  consider "data x < data i" | "data i < data x" | "data i = data x" by (cases "data x" "data i" rule: linorder_cases) auto
  then show ?case
  proof cases
    case 1
    then have k: "data i \<in> keys r" using Node.prems(2,4) x(2) by auto
    then have "rightChildren x \<noteq> - 1" using tree_at_root[OF nx(5)] by auto
    then show ?thesis using Node.IH(2)[OF nx(5) _ Node.prems(3) k n(3)] Node.prems(2) 1 hx n(1) by simp
  next
    case 2
    then have k: "data i \<in> keys l" using Node.prems(2,4) x(2) by auto
    then have "leftChildren x \<noteq> - 1" using tree_at_root[OF nx(4)] by auto
    then show ?thesis using Node.IH(1)[OF nx(4) _ Node.prems(3) k n(2)] Node.prems(2) 2 hx n(1)
      by (simp add: less_not_sym)
  next
    case 3
    then show ?thesis using Node.prems(3) hx n(1) by simp
  qed
qed simp

text \<open>Writing other values into the node of a key.\<close>

lemma set_entry_absent: "k \<notin> keys t \<Longrightarrow> map_tree (set_entry k e) t = t"
  by (induction t) (auto simp: set_entry_def)

lemma tree_at_set:
  "tree_at f p t P \<Longrightarrow> search_tree t \<Longrightarrow> q \<in> P \<Longrightarrow> f q = Some x \<Longrightarrow>
     node_pos y = q \<Longrightarrow> leftChildren y = leftChildren x \<Longrightarrow> rightChildren y = rightChildren x \<Longrightarrow>
     node_height y = node_height x \<Longrightarrow>
     tree_at (f(q \<mapsto> y)) p (map_tree (set_entry (data x) (entry y)) t) P"
proof (induction t arbitrary: p P)
  case (Node l e r)
  obtain z Pl Pr where z: "node_at f p z l r Pl Pr" "e = entry z" "P = insert p (Pl \<union> Pr)"
    "node_height z = int (max (height l) (height r))"
    using Node.prems(1) by (rule tree_at_NodeE)
  note nz = node_atD[OF z(1)]
  have key: "data x \<in> keys u" if "tree_at f p' u Q" "q \<in> Q" for p' u Q
    using tree_at_entries[OF that(1)] that(2) Node.prems(4) by force
  have frame: "tree_at (f(q \<mapsto> y)) p' u Q" if "tree_at f p' u Q" "q \<notin> Q" for p' u Q
    using that by (auto intro: tree_at_frame)
  have res: ?case if "node_at (f(q \<mapsto> y)) p z' l' r' Pl Pr" "entry z' = set_entry (data x) (entry y) e"
    "l' = map_tree (set_entry (data x) (entry y)) l" "r' = map_tree (set_entry (data x) (entry y)) r"
    "node_height z' = node_height z" for z' l' r'
    using that z(3,4) unfolding tree.map(2) tree_at_Node by (intro exI[of _ z'] exI[of _ Pl] exI[of _ Pr]) simp
  consider "q = p" | "q \<in> Pl" | "q \<in> Pr" using Node.prems(3) z(3) by auto
  then show ?case
  proof cases
    case 1
    then have "z = x" using nz(1) Node.prems(4) by simp
    have "data x \<notin> keys l" "data x \<notin> keys r" using Node.prems(2) z(2) \<open>z = x\<close> by auto
    moreover have "node_at (f(q \<mapsto> y)) p y l r Pl Pr"
      using nz 1 \<open>z = x\<close> Node.prems(5-7) frame[OF nz(4)] frame[OF nz(5)] by (intro node_atI) auto
    ultimately show ?thesis using z(2) \<open>z = x\<close> Node.prems(8)
      by (intro res[of y l r]) (auto simp: set_entry_absent set_entry_def)
  next
    case 2
    then have q: "q \<notin> Pr" "q \<noteq> p" using nz by auto
    have "data x < data z" using key[OF nz(4) 2] Node.prems(2) z(2) by auto
    then have "data x \<notin> keys r" using Node.prems(2) z(2) by force
    moreover have "(f(q \<mapsto> y)) p = Some z" "search_tree l" using nz(1) q Node.prems(2) by simp_all
    then have "node_at (f(q \<mapsto> y)) p z (map_tree (set_entry (data x) (entry y)) l) r Pl Pr"
      by (intro node_atI nz Node.IH(1)[OF nz(4) _ 2 Node.prems(4-8)] frame[OF nz(5) q(1)])
    ultimately show ?thesis using z(2) \<open>data x < data z\<close>
      by (intro res[of z _ r]) (auto simp: set_entry_absent set_entry_def)
  next
    case 3
    then have q: "q \<notin> Pl" "q \<noteq> p" using nz by auto
    have "data z < data x" using key[OF nz(5) 3] Node.prems(2) z(2) by auto
    then have "data x \<notin> keys l" using Node.prems(2) z(2) by force
    moreover have "(f(q \<mapsto> y)) p = Some z" "search_tree r" using nz(1) q Node.prems(2) by simp_all
    then have "node_at (f(q \<mapsto> y)) p z l (map_tree (set_entry (data x) (entry y)) r) Pl Pr"
      by (intro node_atI nz Node.IH(2)[OF nz(5) _ 3 Node.prems(4-8)] frame[OF nz(4) q(1)])
    ultimately show ?thesis using z(2) \<open>data z < data x\<close>
      by (intro res[of z l]) (auto simp: set_entry_absent set_entry_def)
  qed
qed simp

text \<open>The node of a key, and the way to it.\<close>

lemma avl_find_at:
  "tree_at (avl_fetch s) p t P \<Longrightarrow> search_tree t \<Longrightarrow> height t < n \<Longrightarrow>
     (if k \<in> keys t then \<exists>q\<in>P. \<exists>x. avl_find n s p k = Inr x \<and> avl_fetch s q = Some x \<and> data x = k
      else avl_find n s p k = Inl RuntimeError)"
proof (induction t arbitrary: p P n)
  case Leaf
  then show ?case by (cases n) simp_all
next
  case (Node l e r)
  obtain m where n: "n = Suc m" "height l < m" "height r < m" using Node.prems(3) by (cases n) auto
  obtain x Pl Pr where x: "node_at (avl_fetch s) p x l r Pl Pr" "e = entry x" "P = insert p (Pl \<union> Pr)"
    using Node.prems(1) by (rule tree_at_NodeE)
  note nx = node_atD[OF x(1)]
  note hx = node_at_heights(1,2)[OF x(1)]
  consider "data x < k" | "k < data x" | "k = data x" by (cases "data x" k rule: linorder_cases) auto
  then show ?case
  proof cases
    case 1
    then have key: "k \<in> keys (Node l e r) \<longleftrightarrow> k \<in> keys r" using Node.prems(2) x(2) by auto
    have "avl_find n s p k = avl_find m s (rightChildren x) k" using 1 hx n(1) by simp
    then show ?thesis using Node.IH(2)[OF nx(5) _ n(3)] Node.prems(2) key x(3)
      by (cases "k \<in> keys r") (simp_all only: search_tree_simps if_True if_False simp_thms, blast)
  next
    case 2
    then have key: "k \<in> keys (Node l e r) \<longleftrightarrow> k \<in> keys l" using Node.prems(2) x(2) by auto
    have "avl_find n s p k = avl_find m s (leftChildren x) k" using 2 hx n(1) by (simp add: less_not_sym)
    then show ?thesis using Node.IH(1)[OF nx(4) _ n(2)] Node.prems(2) key x(3)
      by (cases "k \<in> keys l") (simp_all only: search_tree_simps if_True if_False simp_thms, blast)
  next
    case 3
    then show ?thesis using hx n(1) x(2,3) nx(1) by auto
  qed
qed

lemma avl_insert_dup_path:
  "tree_at (avl_fetch s) p t P \<Longrightarrow> search_tree t \<Longrightarrow> data i \<in> keys t \<Longrightarrow> \<not> is_pk s \<Longrightarrow>
     \<exists>q\<in>P. \<exists>x. avl_fetch s q = Some x \<and> data x = data i \<and>
       (\<forall>s' n. avl_insertDuplicate s x i = Inr s' \<longrightarrow> (\<forall>z\<in>P. avl_rebalance s' z = Inr s') \<longrightarrow> height t \<le> n \<longrightarrow>
          avl_insert n s p i = Inr s')"
proof (induction t arbitrary: p P)
  case (Node l e r)
  obtain x Pl Pr where x: "node_at (avl_fetch s) p x l r Pl Pr" "e = entry x" "P = insert p (Pl \<union> Pr)"
    using Node.prems(1) by (rule tree_at_NodeE)
  note nx = node_atD[OF x(1)]
  note hx = node_at_heights(1,2)[OF x(1)]
  have step: "avl_insert (Suc m) s p i = Inr s'"
    if "(if data i > data x then avl_insert m s (rightChildren x) i else avl_insert m s (leftChildren x) i) = Inr s'"
      "data i \<noteq> data x" "\<forall>z\<in>P. avl_rebalance s' z = Inr s'" "data i > data x \<longrightarrow> r \<noteq> Leaf" "data i < data x \<longrightarrow> l \<noteq> Leaf" for m s'
    using that hx tree_at_root[OF nx(4)] tree_at_root[OF nx(5)] x(3)
    by (cases "data i" "data x" rule: linorder_cases) (auto simp: less_not_sym)
  have res: ?case if "q \<in> P" "avl_fetch s q = Some y" "data y = data i"
    "\<And>s' m. avl_insertDuplicate s y i = Inr s' \<Longrightarrow> \<forall>z\<in>P. avl_rebalance s' z = Inr s' \<Longrightarrow> height l \<le> m \<Longrightarrow>
       height r \<le> m \<Longrightarrow> avl_insert (Suc m) s p i = Inr s'" for q y
  proof (intro bexI[of _ q] exI[of _ y] conjI allI impI that(1-3))
    fix s' n assume a: "avl_insertDuplicate s y i = Inr s'" "\<forall>z\<in>P. avl_rebalance s' z = Inr s'" "height (Node l e r) \<le> n"
    then obtain m where "n = Suc m" "height l \<le> m" "height r \<le> m" by (cases n) auto
    then show "avl_insert n s p i = Inr s'" using that(4)[OF a(1,2)] by simp
  qed
  consider "data x < data i" | "data i < data x" | "data i = data x" by (cases "data x" "data i" rule: linorder_cases) auto
  then show ?case
  proof cases
    case 1
    then have k: "data i \<in> keys r" "r \<noteq> Leaf" using Node.prems(2,3) x(2) by auto
    obtain q y where q: "q \<in> Pr" "avl_fetch s q = Some y" "data y = data i"
      "\<And>s' n. avl_insertDuplicate s y i = Inr s' \<Longrightarrow> \<forall>z\<in>Pr. avl_rebalance s' z = Inr s' \<Longrightarrow> height r \<le> n \<Longrightarrow>
         avl_insert n s (rightChildren x) i = Inr s'"
      using Node.IH(2)[OF nx(5) _ k(1) Node.prems(4)] Node.prems(2) by auto
    show ?thesis using 1 x(3) k(2) q(1) by (intro res[of q y] q(2,3) step) (auto intro: q(4))
  next
    case 2
    then have k: "data i \<in> keys l" "l \<noteq> Leaf" using Node.prems(2,3) x(2) by auto
    obtain q y where q: "q \<in> Pl" "avl_fetch s q = Some y" "data y = data i"
      "\<And>s' n. avl_insertDuplicate s y i = Inr s' \<Longrightarrow> \<forall>z\<in>Pl. avl_rebalance s' z = Inr s' \<Longrightarrow> height l \<le> n \<Longrightarrow>
         avl_insert n s (leftChildren x) i = Inr s'"
      using Node.IH(1)[OF nx(4) _ k(1) Node.prems(4)] Node.prems(2) by auto
    show ?thesis using 2 x(3) k(2) q(1) by (intro res[of q y] q(2,3) step) (auto intro: q(4) simp: less_not_sym)
  next
    case 3
    then show ?thesis using hx Node.prems(4) x(3) nx(1)
      by (intro res[of p x]) auto
  qed
qed simp

lemma avl_insertDuplicate_at:
  assumes "avl_fetch s q = Some x" "node_pos x = q"
  obtains s' where "avl_insertDuplicate s x i = Inr s'"
    "evolves (s\<lparr>dup_file := dup_file s @ [i\<lparr>dup_pos := dup_pos x\<rparr>]\<rparr>) s' {q}"
    "avl_fetch s' = (avl_fetch s)(q \<mapsto> x\<lparr>dup_pos := end_pos 0 sizeof_avn (dup_file s)\<rparr>)"
proof -
  let ?s = "s\<lparr>dup_file := dup_file s @ [i\<lparr>dup_pos := dup_pos x\<rparr>]\<rparr>"
  let ?x = "x\<lparr>dup_pos := end_pos 0 sizeof_avn (dup_file s)\<rparr>"
  have "avl_fetch ?s q = Some x" using assms(1) by simp
  then obtain s' where s': "avl_write ?s q ?x = Inr s'" "evolves ?s s' {q}" "avl_fetch s' = (avl_fetch ?s)(q \<mapsto> ?x)"
    by (rule avl_write_at)
  have "\<not> stream_failed s" using assms(1) by (auto simp: avl_fetch_read avl_read_def split: if_splits)
  then have "avl_insertDuplicate s x i = Inr s'"
    using s'(1) assms(2)
    by (auto simp: avl_insertDuplicate_def insertDuplicate_def insertDuplicateFile_def Let_def avl_write_def bind_io_eq_Inr)
  then show thesis using s'(2,3) by (intro that[of s']) simp_all
qed

lemma avl_insert_dup:
  assumes "tree_at (avl_fetch s) p t P" "search_tree t" "avl_tree t" "data i \<in> keys t" "\<not> is_pk s"
  obtains s' d raw dup where
    "\<And>n. height t \<le> n \<Longrightarrow> avl_insert n s p i = Inr s'"
    "evolves (s\<lparr>dup_file := dup_file s @ [i\<lparr>dup_pos := dup\<rparr>]\<rparr>) s' P" "(data i, raw, dup) \<in> set_tree t"
    "tree_at (avl_fetch s') p (map_tree (set_entry (data i) (data i, raw, end_pos 0 sizeof_avn (dup_file s))) t) P"
proof -
  obtain q x where q: "q \<in> P" "avl_fetch s q = Some x" "data x = data i"
    "\<And>s' n. avl_insertDuplicate s x i = Inr s' \<Longrightarrow> \<forall>z\<in>P. avl_rebalance s' z = Inr s' \<Longrightarrow> height t \<le> n \<Longrightarrow>
       avl_insert n s p i = Inr s'"
    using avl_insert_dup_path[OF assms(1,2,4,5)] by blast
  have np: "node_pos x = q" using tree_at_fetch[OF assms(1) q(1)] q(2) by auto
  let ?y = "x\<lparr>dup_pos := end_pos 0 sizeof_avn (dup_file s)\<rparr>"
  obtain s' where s': "avl_insertDuplicate s x i = Inr s'"
    "evolves (s\<lparr>dup_file := dup_file s @ [i\<lparr>dup_pos := dup_pos x\<rparr>]\<rparr>) s' {q}"
    "avl_fetch s' = (avl_fetch s)(q \<mapsto> ?y)"
    using q(2) np by (rule avl_insertDuplicate_at)
  have t': "tree_at (avl_fetch s') p (map_tree (set_entry (data x) (entry ?y)) t) P"
    unfolding s'(3) using np by (intro tree_at_set[OF assms(1,2) q(1,2)]) simp_all
  then have "\<forall>z\<in>P. avl_rebalance s' z = Inr s'" using assms(3) by (auto intro!: avl_rebalance_id)
  moreover have "entry x \<in> set_tree t" using tree_at_entries[OF assms(1)] q(1,2) by blast
  ultimately show thesis using s'(1,2) q(1,3,4) t'
    by (intro that[of s' "dup_pos x" "raw_pos x"]) (auto elim: evolves_mono)
qed

end
