(* ===== verification/AvlErase.thy ===== *)
theory AvlErase
  imports AvlInsert
begin

text \<open>
  Erasing in the index file.  A node with at most one child is unlinked, and the tree is that of the
  reference definition except that the link to its root may change.  A node with two children gets
  the entry before it, whose node is erased first, by a second walk from the root of the index.
\<close>

section \<open>Subtrees by position\<close>

lemma tree_at_unique: "tree_at f p t P \<Longrightarrow> tree_at f p u Q \<Longrightarrow> t = u \<and> P = Q"
proof (induction t arbitrary: p P u Q)
  case Leaf
  then show ?case using tree_at_root[of f p u Q] by auto
next
  case (Node l e r)
  obtain x Pl Pr where x: "node_at f p x l r Pl Pr" "e = entry x" "P = insert p (Pl \<union> Pr)"
    using Node.prems(1) by (rule tree_at_NodeE)
  note n = node_atD[OF x(1)]
  have "u \<noteq> Leaf" using tree_at_root[OF Node.prems(2)] n(2) by simp
  then obtain ul e' ur where u: "u = Node ul e' ur" by (cases u) auto
  obtain x' Pl' Pr' where x': "node_at f p x' ul ur Pl' Pr'" "e' = entry x'" "Q = insert p (Pl' \<union> Pr')"
    using Node.prems(2) unfolding u by (rule tree_at_NodeE)
  note n' = node_atD[OF x'(1)]
  have "x' = x" using n(1) n'(1) by simp
  then show ?case using Node.IH(1)[OF n(4)] Node.IH(2)[OF n(5)] n'(4,5) x x' u by auto
qed

lemma tree_at_inside:
  assumes "tree_at f p t P" "tree_at f c u Q" "c \<in> P"
  shows "Q \<subseteq> P \<and> u \<in> subtrees t"
  using tree_at_subtree[OF assms(1,3)] tree_at_unique[OF assms(2)] by blast

lemma subtrees_search: "u \<in> subtrees t \<Longrightarrow> search_tree t \<Longrightarrow> search_tree u"
  by (induction t) auto

lemma subtrees_height: "u \<in> subtrees t \<Longrightarrow> height u \<le> height t"
  by (induction t) (auto simp: le_SucI max.coboundedI1 max.coboundedI2)

lemma tree_at_key: "tree_at f p t P \<Longrightarrow> q \<in> P \<Longrightarrow> f q = Some x \<Longrightarrow> entry x \<in> set_tree t"
  using tree_at_entries[of f p t P] by blast

text \<open>A key is in one node only.\<close>

lemma tree_at_key_unique:
  "tree_at f p t P \<Longrightarrow> search_tree t \<Longrightarrow> q \<in> P \<Longrightarrow> q' \<in> P \<Longrightarrow> f q = Some x \<Longrightarrow> f q' = Some x' \<Longrightarrow> data x = data x' \<Longrightarrow>
     q = q'"
proof (induction t arbitrary: p P)
  case (Node l e r)
  obtain z Pl Pr where z: "node_at f p z l r Pl Pr" "e = entry z" "P = insert p (Pl \<union> Pr)"
    using Node.prems(1) by (rule tree_at_NodeE)
  note n = node_atD[OF z(1)]
  have left: "data y < data z" if "w \<in> Pl" "f w = Some y" for w y
    using tree_at_key[OF n(4) that] Node.prems(2) z(2) by force
  have right: "data z < data y" if "w \<in> Pr" "f w = Some y" for w y
    using tree_at_key[OF n(5) that] Node.prems(2) z(2) by force
  have root: "w = p \<longleftrightarrow> data y = data z" if "w \<in> P" "f w = Some y" for w y
    using that z(3) left[of w y] right[of w y] n(1) by auto
  show ?case
  proof (cases "data x = data z")
    case True
    then show ?thesis using root[OF Node.prems(3,5)] root[OF Node.prems(4,6)] Node.prems(7) by simp
  next
    case False
    then have "q \<in> Pl \<union> Pr" "q' \<in> Pl \<union> Pr"
      using root[OF Node.prems(3,5)] root[OF Node.prems(4,6)] Node.prems(3,4,7) z(3) by auto
    then consider "q \<in> Pl" "q' \<in> Pl" | "q \<in> Pr" "q' \<in> Pr"
      using left[of q x] left[of q' x'] right[of q x] right[of q' x'] Node.prems(5-7) by (auto dest: less_asym)
    then show ?thesis
      by cases (use Node.IH(1)[OF n(4) _ _ _ Node.prems(5-7)] Node.IH(2)[OF n(5) _ _ _ Node.prems(5-7)] Node.prems(2) in auto)
  qed
qed simp

section \<open>Unlinking a node\<close>

definition relink :: "'k avl_node \<Rightarrow> physical_pos \<Rightarrow> physical_pos \<Rightarrow> 'k avl_node" where
  "relink x p p' = (if leftChildren x = p then x\<lparr>leftChildren := p'\<rparr>
     else if rightChildren x = p then x\<lparr>rightChildren := p'\<rparr> else x)"

lemma relink_same [simp]: "relink x p p = x"
  by (auto simp: relink_def)

text \<open>The slot \<open>q\<close> becomes the first one of the list of erased slots.\<close>

definition erased :: "'k avl_index \<Rightarrow> 'k avl_index \<Rightarrow> physical_pos \<Rightarrow> bool" where
  "erased s s' q \<longleftrightarrow>
     (\<exists>xs. s' = s\<lparr>mem_header := (mem_header s)\<lparr>lastDelete := q\<rparr>,
        file_header := Some ((mem_header s)\<lparr>lastDelete := q\<rparr>), node_file := xs\<rparr> \<and> length xs = length (node_file s)) \<and>
     (\<exists>d. avl_fetch s' q = Some d \<and> nextDelete d = lastDelete (mem_header s))"

lemma erased_evolves: "erased s s1 q \<Longrightarrow> evolves s1 s2 R \<Longrightarrow> q \<notin> R \<Longrightarrow> erased s s2 q"
  by (fastforce simp: erased_def evolves_def)

lemma avl_unlink_at:
  assumes "avl_fetch s p = Some x" "node_pos x = p"
    and "pp \<noteq> - 1 \<Longrightarrow> avl_fetch s pp = Some px \<and> node_pos px = pp \<and> pp \<noteq> p"
  obtains s' x' where "avl_unlink s p pp x ch = Inr (s', x')"
    "x' = x\<lparr>nextDelete := lastDelete (mem_header s)\<rparr>" "erased s s' p"
    "avl_fetch s' = (if pp = - 1 then avl_fetch s else (avl_fetch s)(pp \<mapsto> relink px p ch))(p \<mapsto> x')"
proof -
  let ?w = "if pp \<noteq> - 1 then bind_io (avl_read s pp) (\<lambda>pNode.
         let pNode1 = (if leftChildren pNode = p then pNode\<lparr>leftChildren := ch\<rparr>
                       else if rightChildren pNode = p then pNode\<lparr>rightChildren := ch\<rparr> else pNode)
         in avl_write s pp (pNode1\<lparr>node_pos := pp\<rparr>)) else Inr s"
  have "\<exists>s1. ?w = Inr s1 \<and> evolves s s1 {pp} \<and>
      avl_fetch s1 = (if pp = - 1 then avl_fetch s else (avl_fetch s)(pp \<mapsto> relink px p ch))"
  proof (cases "pp = - 1")
    case False
    then have px: "avl_fetch s pp = Some px" "node_pos px = pp" using assms(3) by auto
    obtain s1 where "avl_write s pp (relink px p ch) = Inr s1" "evolves s s1 {pp}"
      "avl_fetch s1 = (avl_fetch s)(pp \<mapsto> relink px p ch)"
      using px(1) by (rule avl_write_at)
    moreover have "(relink px p ch)\<lparr>node_pos := pp\<rparr> = relink px p ch" using px(2) by (simp add: relink_def)
    ultimately show ?thesis using False px(1) by (auto simp: avl_fetch_read relink_def Let_def)
  qed simp
  then obtain s1 where s1: "?w = Inr s1" "evolves s s1 {pp}"
    "avl_fetch s1 = (if pp = - 1 then avl_fetch s else (avl_fetch s)(pp \<mapsto> relink px p ch))" by blast
  let ?x = "x\<lparr>nextDelete := lastDelete (mem_header s)\<rparr>"
  have x': "x\<lparr>nextDelete := lastDelete (mem_header s), node_pos := p\<rparr> = ?x" using assms(2) by simp
  have "avl_fetch s1 p = Some x" using s1(3) assms(1,3) by auto
  then obtain s2 where s2: "avl_write s1 p ?x = Inr s2" "evolves s1 s2 {p}" "avl_fetch s2 = (avl_fetch s1)(p \<mapsto> ?x)"
    by (rule avl_write_at)
  note f1 = evolves_fields[OF s1(2)] and f2 = evolves_fields[OF s2(2)]
  have ok: "\<not> stream_failed s2"
    using assms(1) f1 f2 by (auto simp: avl_fetch_read avl_read_def split: if_splits)
  let ?s' = "avl_write_header (s2\<lparr>mem_header := (mem_header s2)\<lparr>lastDelete := p\<rparr>\<rparr>)"
  have f: "avl_fetch ?s' = (avl_fetch s1)(p \<mapsto> ?x)" using s2(3) by (simp add: avl_write_header_def)
  obtain xs ys where "s1 = s\<lparr>node_file := xs\<rparr>" "s2 = s1\<lparr>node_file := ys\<rparr>" "length ys = length (node_file s)"
    using s1(2) s2(2) by (auto simp: evolves_def)
  then have "erased s ?s' p" using ok f by (auto simp: erased_def avl_write_header_def intro!: exI[of _ ys])
  moreover have "avl_unlink s p pp x ch = Inr (?s', ?x)"
    unfolding avl_unlink_def s1(1) using s2(1) f1 x' by simp
  ultimately show thesis using f s1(3) by (intro that[of ?s' ?x]) simp_all
qed

section \<open>A node with at most one child\<close>

text \<open>
  What erasing from the subtree at \<open>p\<close> leaves: the root of the subtree is at \<open>p'\<close>, which is another
  position only when the root itself was erased, and the link of the parent \<open>pp\<close> goes there.  A subtree
  in which the erased node lies keeps its position.
\<close>

definition erased_tree ::
  "'k :: linorder avl_index \<Rightarrow> 'k avl_index \<Rightarrow> 'k \<Rightarrow> physical_pos \<Rightarrow> physical_pos \<Rightarrow> ('k, avl_value) avl_tree \<Rightarrow>
     physical_pos set \<Rightarrow> physical_pos \<Rightarrow> physical_pos \<Rightarrow> bool" where
  "erased_tree s s' k p pp t P p' q \<longleftrightarrow>
     erased s s' q \<and> q \<in> P \<and> (\<exists>y. avl_fetch s q = Some y \<and> data y = k) \<and>
     tree_at (avl_fetch s') p' (t_erase k t) (P - {q}) \<and>
     (\<forall>z. z \<notin> P \<longrightarrow> z \<noteq> pp \<longrightarrow> avl_fetch s' z = avl_fetch s z) \<and>
     (p' \<noteq> p \<longrightarrow> q = p) \<and>
     (\<forall>c u Q. tree_at (avl_fetch s) c u Q \<longrightarrow> c \<in> P \<longrightarrow> q \<in> Q \<longrightarrow> c \<noteq> q \<longrightarrow>
        (\<exists>u'. tree_at (avl_fetch s') c u' (Q - {q}) \<and> keys u' = keys u - {k}))"

lemma erased_treeD:
  assumes "erased_tree s s' k p pp t P p' q"
  shows "erased s s' q" "q \<in> P" "\<exists>y. avl_fetch s q = Some y \<and> data y = k"
    "tree_at (avl_fetch s') p' (t_erase k t) (P - {q})"
    "\<And>z. z \<notin> P \<Longrightarrow> z \<noteq> pp \<Longrightarrow> avl_fetch s' z = avl_fetch s z" "p' \<noteq> p \<Longrightarrow> q = p"
    "\<And>c u Q. tree_at (avl_fetch s) c u Q \<Longrightarrow> c \<in> P \<Longrightarrow> q \<in> Q \<Longrightarrow> c \<noteq> q \<Longrightarrow>
       \<exists>u'. tree_at (avl_fetch s') c u' (Q - {q}) \<and> keys u' = keys u - {k}"
  using assms unfolding erased_tree_def by blast+

definition parent_link ::
  "'k avl_index \<Rightarrow> physical_pos \<Rightarrow> 'k avl_node \<Rightarrow> physical_pos \<Rightarrow> physical_pos set \<Rightarrow> bool" where
  "parent_link s pp px p P \<longleftrightarrow> (pp \<noteq> - 1 \<longrightarrow> avl_fetch s pp = Some px \<and> node_pos px = pp \<and> pp \<notin> P)"

lemma t_erase_keys:
  assumes "search_tree t" "one_child k t"
  shows "keys (t_erase k t) = keys t - {k}"
proof -
  have "set_tree (t_erase k t) = {e \<in> set_tree t. fst e \<noteq> k}"
    using arg_cong[OF inorder_t_erase[OF assms], of set] by simp
  then show ?thesis by auto
qed

lemma t_erase_search:
  assumes "search_tree t" "one_child k t"
  shows "search_tree (t_erase k t)"
  using assms(1) unfolding search_tree_def inorder_t_erase[OF assms] by (simp add: sorted_wrt_map sorted_wrt_filter)

text \<open>The node at the root of the subtree.\<close>

lemma erase_root:
  assumes "node_at (avl_fetch s) p x l r Pl Pr" "node_height x = int (max (height l) (height r))"
    "l = Leaf \<or> r = Leaf" "avl_tree (Node l (entry x) r)" "parent_link s pp px p (insert p (Pl \<union> Pr))"
    "ch = (if l = Leaf then rightChildren x else leftChildren x)"
  obtains s' x' where "bind_io (avl_unlink s p pp x ch) (\<lambda>(s1, x1).
      bind_io (avl_rebalance s1 p) (\<lambda>s2. Inr (s2, True, Some x1))) = Inr (s', True, Some x')"
    "entry x' = entry x" "erased_tree s s' (data x) p pp (Node l (entry x) r) (insert p (Pl \<union> Pr)) ch p"
    "pp \<noteq> - 1 \<longrightarrow> avl_fetch s' pp = Some (relink px p ch)" "avl_fetch s' p = Some x'"
proof -
  note n = node_atD[OF assms(1)]
  have ch: "tree_at (avl_fetch s) ch (if l = Leaf then r else l) (Pl \<union> Pr)"
    using n(4,5) assms(3,6) by auto
  have pl: "pp \<noteq> - 1 \<Longrightarrow> avl_fetch s pp = Some px \<and> node_pos px = pp \<and> pp \<noteq> p"
    using assms(5) by (auto simp: parent_link_def)
  obtain s1 x1 where s1: "avl_unlink s p pp x ch = Inr (s1, x1)" "x1 = x\<lparr>nextDelete := lastDelete (mem_header s)\<rparr>"
    "erased s s1 p"
    "avl_fetch s1 = (if pp = - 1 then avl_fetch s else (avl_fetch s)(pp \<mapsto> relink px p ch))(p \<mapsto> x1)"
    by (rule avl_unlink_at[OF n(1,3) pl])
  have same: "avl_fetch s1 z = avl_fetch s z" if "z \<noteq> p" "z \<noteq> pp" for z using s1(4) that by simp
  have ppz: "pp \<notin> Pl \<union> Pr \<or> pp = - 1" "pp \<noteq> p" using assms(5) n(2) by (auto simp: parent_link_def)
  have m1: "- 1 \<notin> Pl" "- 1 \<notin> Pr" using tree_at_neg1[OF n(4)] tree_at_neg1[OF n(5)] by auto
  have sub: "tree_at (avl_fetch s1) c u Q" if "tree_at (avl_fetch s) c u Q" "Q \<subseteq> Pl \<union> Pr" for c u Q
  proof (rule tree_at_frame[OF that(1)])
    fix z assume "z \<in> Q"
    then show "avl_fetch s1 z = avl_fetch s z" using that(2) n(6,7) ppz m1 by (intro same) auto
  qed
  have "node_at (avl_fetch s1) p x1 l r Pl Pr"
    using n s1(2,4) sub[OF n(4)] sub[OF n(5)] by (intro node_atI) auto
  then have "tree_at (avl_fetch s1) p (Node l (entry x) r) (insert p (Pl \<union> Pr))"
    using assms(2) s1(2) unfolding tree_at_Node by (intro exI[of _ x1] exI[of _ Pl] exI[of _ Pr]) simp
  then have reb: "avl_rebalance s1 p = Inr s1" using assms(4) by (rule avl_rebalance_id) simp
  have "t_erase (data x) (Node l (entry x) r) = (if l = Leaf then r else l)" by simp
  moreover have "insert p (Pl \<union> Pr) - {p} = Pl \<union> Pr" using n(6,7) by auto
  moreover have "p \<notin> Q" if "tree_at (avl_fetch s) c u Q" "c \<in> Pl \<union> Pr" for c u Q
    using tree_at_inside[OF ch that] n(6,7) by auto
  moreover have "avl_fetch s1 z = avl_fetch s z" if "z \<notin> insert p (Pl \<union> Pr)" "z \<noteq> pp" for z
    using that by (intro same) auto
  ultimately have "erased_tree s s1 (data x) p pp (Node l (entry x) r) (insert p (Pl \<union> Pr)) ch p"
    using s1(3) n(1,6,7) sub[OF ch] unfolding erased_tree_def by auto
  moreover have "pp \<noteq> - 1 \<longrightarrow> avl_fetch s1 pp = Some (relink px p ch)" using s1(4) ppz(2) by simp
  ultimately show thesis using s1(1,2,4) reb by (intro that[of s1 x1]) simp_all
qed

text \<open>A node on the way to the erased one: the subtree is rebalanced, and the other one may change.\<close>

lemma erase_step:
  assumes er: "erased_tree s s1 k p' p u U p1 q" and nd: "node_at (avl_fetch s1) p y l r Pl Pr"
    and y: "entry y = entry x" "avl_fetch s p = Some x"
    and P: "insert p (Pl \<union> Pr) = P - {q}" "P = insert p (U \<union> V)" "p \<notin> U" "p \<notin> V" "U \<inter> V = {}" "balance_at l r Pl Pr \<subseteq> V"
    and whole: "tree_at (avl_fetch s) p t P" "tree_at (avl_fetch s) p' u U"
    and V: "\<And>c w Q. tree_at (avl_fetch s) c w Q \<Longrightarrow> c \<in> V \<Longrightarrow> Q \<subseteq> V"
    and t: "t_erase k t = t_balance (Node l (entry x) r)" "search_tree t" "one_child k t"
  obtains s2 where "avl_rebalance s1 p = Inr s2" "erased_tree s s2 k p pp t P p q"
    "\<And>z. z \<notin> P \<Longrightarrow> avl_fetch s2 z = avl_fetch s z"
proof -
  obtain s2 where s2: "avl_rebalance s1 p = Inr s2" "evolves s1 s2 (insert p (balance_at l r Pl Pr))"
    "tree_at (avl_fetch s2) p (t_balance (Node l (entry y) r)) (insert p (Pl \<union> Pr))"
    using nd by (rule avl_rebalance_at)
  have ev: "evolves s1 s2 (insert p V)" using s2(2) P(6) by (auto elim: evolves_mono)
  note e = erased_treeD[OF er]
  have q: "q \<in> U" "q \<notin> insert p V" using e(2) P(3-5) by auto
  have out: "avl_fetch s2 z = avl_fetch s z" if "z \<notin> P" for z
    using that P(2) e(5)[of z] evolves_fetch[OF ev, of z] by simp
  have "\<exists>w'. tree_at (avl_fetch s2) c w' (Q - {q}) \<and> keys w' = keys w - {k}"
    if c: "tree_at (avl_fetch s) c w Q" "c \<in> P" "q \<in> Q" "c \<noteq> q" for c w Q
  proof (cases "c = p")
    case True
    then have "w = t" "Q = P" using tree_at_unique[OF c(1)] whole(1) by auto
    then show ?thesis using s2(3) True y(1) t P(1) t_erase_keys[OF t(2,3)] by (metis (no_types))
  next
    case False
    have "c \<notin> V" using V[OF c(1)] c(3) q P(5) by auto
    then have cU: "c \<in> U" using False c(2) P(2) by auto
    then obtain w' where w': "tree_at (avl_fetch s1) c w' (Q - {q})" "keys w' = keys w - {k}"
      using e(7)[OF c(1) _ c(3,4)] by blast
    have "Q \<subseteq> U" using tree_at_inside[OF whole(2) c(1) cU] by simp
    then have "tree_at (avl_fetch s2) c w' (Q - {q})"
      using P(3,5) by (intro tree_at_frame[OF w'(1)] evolves_fetch[OF ev]) auto
    then show ?thesis using w'(2) by blast
  qed
  moreover have "erased s s2 q" by (rule erased_evolves[OF e(1) ev q(2)])
  moreover have "tree_at (avl_fetch s2) p (t_erase k t) (P - {q})" using s2(3) t(1) y(1) P(1) by simp
  moreover have "q \<in> P" using q(1) P(2) by simp
  ultimately have "erased_tree s s2 k p pp t P p q"
    using e(3) out unfolding erased_tree_def by simp
  then show thesis using s2(1) out by (intro that[of s2]) simp_all
qed

lemma erase_shrinks:
  "avl_tree t \<Longrightarrow> one_child k t \<Longrightarrow> height (t_erase k t) \<le> height t \<and> height t \<le> Suc (height (t_erase k t))"
  using avl_t_erase[of t k] by auto

lemma avl_erase_one:
  "tree_at (avl_fetch s) p t P \<Longrightarrow> search_tree t \<Longrightarrow> avl_tree t \<Longrightarrow> one_child k t \<Longrightarrow> height t \<le> n \<Longrightarrow>
     parent_link s pp px p P \<Longrightarrow>
     \<exists>s' p' q x. avl_erase n s p pp cn k = Inr (s', True, Some x) \<and> erased_tree s s' k p pp t P p' q \<and>
       data x = k \<and> entry x \<in> set_tree t \<and> (pp \<noteq> - 1 \<longrightarrow> avl_fetch s' pp = Some (relink px p p'))"
proof (induction t arbitrary: p P n pp px cn)
  case (Node l e r)
  obtain m where n: "n = Suc m" "height l \<le> m" "height r \<le> m" using Node.prems(5) by (cases n) auto
  obtain x Pl Pr where x: "node_at (avl_fetch s) p x l r Pl Pr" "e = entry x" "P = insert p (Pl \<union> Pr)"
    "node_height x = int (max (height l) (height r))"
    using Node.prems(1) by (rule tree_at_NodeE)
  note nx = node_atD[OF x(1)]
  note hx = node_at_heights(1,2)[OF x(1)]
  have m1: "- 1 \<notin> Pl" "- 1 \<notin> Pr" using tree_at_neg1[OF nx(4)] tree_at_neg1[OF nx(5)] by auto
  have outer: "avl_fetch s2 pp = Some (relink px p p)" if "\<And>z. z \<notin> P \<Longrightarrow> avl_fetch s2 z = avl_fetch s z" "pp \<noteq> - 1" for s2
    using that Node.prems(6) by (simp add: parent_link_def)
  consider "data x < k" | "k < data x" | "k = data x" by (cases "data x" k rule: linorder_cases) auto
  then show ?case
  proof cases
    case 1
    then have one: "one_child k r" "r \<noteq> Leaf" using Node.prems(4) x(2) by auto
    have pr: "rightChildren x \<in> Pr" using tree_at_in[OF nx(5)] tree_at_root[OF nx(5)] one(2) by simp
    have "parent_link s p x (rightChildren x) Pr" using nx by (simp add: parent_link_def)
    from Node.IH(2)[OF nx(5) _ _ one(1) n(3) this, of "Some x"] Node.prems(2,3) obtain s1 p1 q y where
      s1: "avl_erase m s (rightChildren x) p (Some x) k = Inr (s1, True, Some y)"
        "erased_tree s s1 k (rightChildren x) p r Pr p1 q" "data y = k" "entry y \<in> set_tree r"
        "avl_fetch s1 p = Some (relink x (rightChildren x) p1)"
      using nx(2) by auto
    note e1 = erased_treeD[OF s1(2)]
    have "leftChildren x \<noteq> rightChildren x" using pr tree_at_in[OF nx(4)] nx(8) m1 by (cases "leftChildren x = - 1") auto
    then have rl: "avl_fetch s1 p = Some (x\<lparr>rightChildren := p1\<rparr>)" using s1(5) by (simp add: relink_def)
    have tl: "tree_at (avl_fetch s1) (leftChildren x) l Pl"
      using nx(6,8) by (intro tree_at_frame[OF nx(4)] e1(5)) auto
    have nd: "node_at (avl_fetch s1) p (x\<lparr>rightChildren := p1\<rparr>) l (t_erase k r) Pl (Pr - {q})"
      by (rule node_atI, rule rl) (use tl e1(4) nx in auto)
    have pos: "insert p (Pl \<union> (Pr - {q})) = P - {q}" "P = insert p (Pr \<union> Pl)" "Pr \<inter> Pl = {}"
      using e1(2) nx(6-8) x(3) by auto
    have bal: "balance_at l (t_erase k r) Pl (Pr - {q}) \<subseteq> Pl"
      using erase_shrinks[OF _ one(1)] Node.prems(3) by (auto simp: balance_at_def)
    have V: "Q \<subseteq> Pl" if "tree_at (avl_fetch s) c w Q" "c \<in> Pl" for c w Q
      using tree_at_inside[OF nx(4) that] by simp
    have t: "t_erase k (Node l e r) = t_balance (Node l (entry x) (t_erase k r))" using 1 x(2) by (simp del: t_balance.simps)
    obtain s2 where s2: "avl_rebalance s1 p = Inr s2" "erased_tree s s2 k p pp (Node l e r) P p q"
      "\<And>z. z \<notin> P \<Longrightarrow> avl_fetch s2 z = avl_fetch s z"
      by (rule erase_step[OF s1(2) nd _ nx(1) pos(1,2) nx(7,6) pos(3) bal Node.prems(1) nx(5) V t Node.prems(2,4)]) auto
    have "avl_erase n s p pp cn k = Inr (s2, True, Some y)" using n(1) hx 1 s1(1) s2(1) by simp
    then show ?thesis using s2 s1(3,4) outer[OF s2(3)] by (intro exI[of _ s2] exI[of _ p] exI[of _ q] exI[of _ y]) simp
  next
    case 2
    then have one: "one_child k l" "l \<noteq> Leaf" using Node.prems(4) x(2) by (auto split: if_splits)
    have pl: "leftChildren x \<in> Pl" using tree_at_in[OF nx(4)] tree_at_root[OF nx(4)] one(2) by simp
    have "parent_link s p x (leftChildren x) Pl" using nx by (simp add: parent_link_def)
    from Node.IH(1)[OF nx(4) _ _ one(1) n(2) this, of "Some x"] Node.prems(2,3) obtain s1 p1 q y where
      s1: "avl_erase m s (leftChildren x) p (Some x) k = Inr (s1, True, Some y)"
        "erased_tree s s1 k (leftChildren x) p l Pl p1 q" "data y = k" "entry y \<in> set_tree l"
        "avl_fetch s1 p = Some (relink x (leftChildren x) p1)"
      using nx(2) by auto
    note e1 = erased_treeD[OF s1(2)]
    have rl: "avl_fetch s1 p = Some (x\<lparr>leftChildren := p1\<rparr>)" using s1(5) by (simp add: relink_def)
    have tr: "tree_at (avl_fetch s1) (rightChildren x) r Pr"
      using nx(7,8) by (intro tree_at_frame[OF nx(5)] e1(5)) auto
    have nd: "node_at (avl_fetch s1) p (x\<lparr>leftChildren := p1\<rparr>) (t_erase k l) r (Pl - {q}) Pr"
      by (rule node_atI, rule rl) (use tr e1(4) nx in auto)
    have pos: "insert p ((Pl - {q}) \<union> Pr) = P - {q}" "P = insert p (Pl \<union> Pr)"
      using e1(2) nx(6-8) x(3) by auto
    have bal: "balance_at (t_erase k l) r (Pl - {q}) Pr \<subseteq> Pr"
      using erase_shrinks[OF _ one(1)] Node.prems(3) by (auto simp: balance_at_def)
    have V: "Q \<subseteq> Pr" if "tree_at (avl_fetch s) c w Q" "c \<in> Pr" for c w Q
      using tree_at_inside[OF nx(5) that] by simp
    have t: "t_erase k (Node l e r) = t_balance (Node (t_erase k l) (entry x) r)"
      using 2 x(2) by (simp add: less_not_sym del: t_balance.simps)
    obtain s2 where s2: "avl_rebalance s1 p = Inr s2" "erased_tree s s2 k p pp (Node l e r) P p q"
      "\<And>z. z \<notin> P \<Longrightarrow> avl_fetch s2 z = avl_fetch s z"
      by (rule erase_step[OF s1(2) nd _ nx(1) pos(1,2) nx(6,7,8) bal Node.prems(1) nx(4) V t Node.prems(2,4)]) auto
    have "avl_erase n s p pp cn k = Inr (s2, True, Some y)" using n(1) hx 2 s1(1) s2(1) by (simp add: less_not_sym)
    then show ?thesis using s2 s1(3,4) outer[OF s2(3)] by (intro exI[of _ s2] exI[of _ p] exI[of _ q] exI[of _ y]) simp
  next
    case 3
    then have one: "l = Leaf \<or> r = Leaf" using Node.prems(4) x(2) by simp
    let ?ch = "if l = Leaf then rightChildren x else leftChildren x"
    have ptrs: "leftChildren x = - 1 \<longleftrightarrow> l = Leaf" "rightChildren x = - 1 \<longleftrightarrow> r = Leaf"
      using tree_at_root[OF nx(4)] tree_at_root[OF nx(5)] by simp_all
    obtain s' x' where s': "bind_io (avl_unlink s p pp x ?ch) (\<lambda>(s1, x1).
        bind_io (avl_rebalance s1 p) (\<lambda>s2. Inr (s2, True, Some x1))) = Inr (s', True, Some x')"
      "entry x' = entry x" "erased_tree s s' (data x) p pp (Node l (entry x) r) (insert p (Pl \<union> Pr)) ?ch p"
      "pp \<noteq> - 1 \<longrightarrow> avl_fetch s' pp = Some (relink px p ?ch)" "avl_fetch s' p = Some x'"
      by (rule erase_root[OF x(1,4) one Node.prems(3)[unfolded x(2)] Node.prems(6)[unfolded x(3)] refl])
    have "avl_erase n s p pp cn k = bind_io (avl_unlink s p pp x ?ch) (\<lambda>(s1, x1).
        bind_io (avl_rebalance s1 p) (\<lambda>s2. Inr (s2, True, Some x1)))"
      using n(1) hx 3 one ptrs by (auto simp: bind_io_assoc case_prod_unfold)
    then show ?thesis using s' 3 x(2,3) by (intro exI[of _ s'] exI[of _ ?ch] exI[of _ p] exI[of _ x']) simp
  qed
qed simp

end
