(* ===== verification/AvlRemove.thy ===== *)
theory AvlRemove
  imports AvlErase
begin

text \<open>
  Erasing a key whose node has two children, and a key that is not there.  The node before the key is
  erased by a walk from the root, which may rotate the nodes on the way; the entry is then written
  over the key below the position where the key was found, and the frames of the first walk find a
  tree that is balanced already.
\<close>

section \<open>The last node of a subtree\<close>

lemma avl_maxNode_at:
  "tree_at (avl_fetch s) p t P \<Longrightarrow> t \<noteq> Leaf \<Longrightarrow>
     \<exists>q\<in>P. \<exists>y. avl_fetch s q = Some y \<and> entry y = last (inorder t) \<and> (\<forall>n\<ge>height t. avl_maxNode n s p = Inr q)"
proof (induction t arbitrary: p P)
  case (Node l e r)
  obtain x Pl Pr where x: "node_at (avl_fetch s) p x l r Pl Pr" "e = entry x" "P = insert p (Pl \<union> Pr)"
    using Node.prems(1) by (rule tree_at_NodeE)
  note nx = node_atD[OF x(1)]
  note hx = node_at_heights(1,2)[OF x(1)]
  show ?case
  proof (cases "r = Leaf")
    case True
    then have "rightChildren x = - 1" using nx(5) by simp
    then have "avl_maxNode n s p = Inr p" if "height (Node l e r) \<le> n" for n
      using that hx by (cases n) simp_all
    then show ?thesis using True x nx(1) by (intro bexI[of _ p] exI[of _ x]) simp_all
  next
    case False
    then obtain q y where q: "q \<in> Pr" "avl_fetch s q = Some y" "entry y = last (inorder r)"
      "\<forall>n\<ge>height r. avl_maxNode n s (rightChildren x) = Inr q"
      using Node.IH(2)[OF nx(5)] by blast
    have "rightChildren x \<noteq> - 1" using False tree_at_root[OF nx(5)] by simp
    then have "avl_maxNode n s p = Inr q" if "height (Node l e r) \<le> n" for n
      using that hx q(4) by (cases n) simp_all
    then show ?thesis using False x(3) q(1-3) by (intro bexI[of _ q] exI[of _ y]) simp_all
  qed
qed simp

section \<open>Writing the entry over the key\<close>

lemma avl_fixValue_at:
  "tree_at (avl_fetch s) p t P \<Longrightarrow> search_tree t \<Longrightarrow> k \<in> keys t \<Longrightarrow>
     \<exists>q\<in>P. \<exists>x. avl_fetch s q = Some x \<and> data x = k \<and>
       (\<forall>n\<ge>height t. avl_fixValue n s p k y =
          avl_write s q (x\<lparr>data := data y, raw_pos := raw_pos y, dup_pos := dup_pos y, node_pos := q\<rparr>))"
proof (induction t arbitrary: p P)
  case (Node l e r)
  obtain x Pl Pr where x: "node_at (avl_fetch s) p x l r Pl Pr" "e = entry x" "P = insert p (Pl \<union> Pr)"
    using Node.prems(1) by (rule tree_at_NodeE)
  note nx = node_atD[OF x(1)]
  note hx = node_at_heights(1,2)[OF x(1)]
  have step: "avl_fixValue n s p k y = F" if "height (Node l e r) \<le> n"
    "\<And>m. height l \<le> m \<Longrightarrow> height r \<le> m \<Longrightarrow> avl_fixValue (Suc m) s p k y = F" for n F
    using that by (cases n) auto
  consider "data x < k" | "k < data x" | "k = data x" by (cases "data x" k rule: linorder_cases) auto
  then show ?case
  proof cases
    case 1
    then have "k \<in> keys r" using Node.prems(2,3) x(2) by auto
    then obtain q z where q: "q \<in> Pr" "avl_fetch s q = Some z" "data z = k"
      "\<forall>n\<ge>height r. avl_fixValue n s (rightChildren x) k y =
         avl_write s q (z\<lparr>data := data y, raw_pos := raw_pos y, dup_pos := dup_pos y, node_pos := q\<rparr>)"
      using Node.IH(2)[OF nx(5)] Node.prems(2) by (simp only: search_tree_simps) blast
    have "avl_fixValue n s p k y = avl_write s q (z\<lparr>data := data y, raw_pos := raw_pos y, dup_pos := dup_pos y, node_pos := q\<rparr>)"
      if "height (Node l e r) \<le> n" for n
      by (rule step[OF that]) (use 1 hx q(4) in \<open>simp add: less_not_sym\<close>)
    then show ?thesis using x(3) q(1-3) by blast
  next
    case 2
    then have "k \<in> keys l" using Node.prems(2,3) x(2) by auto
    then obtain q z where q: "q \<in> Pl" "avl_fetch s q = Some z" "data z = k"
      "\<forall>n\<ge>height l. avl_fixValue n s (leftChildren x) k y =
         avl_write s q (z\<lparr>data := data y, raw_pos := raw_pos y, dup_pos := dup_pos y, node_pos := q\<rparr>)"
      using Node.IH(1)[OF nx(4)] Node.prems(2) by (simp only: search_tree_simps) blast
    have "avl_fixValue n s p k y = avl_write s q (z\<lparr>data := data y, raw_pos := raw_pos y, dup_pos := dup_pos y, node_pos := q\<rparr>)"
      if "height (Node l e r) \<le> n" for n
      by (rule step[OF that]) (use 2 hx q(4) in \<open>simp add: less_not_sym\<close>)
    then show ?thesis using x(3) q(1-3) by blast
  next
    case 3
    have "avl_fixValue n s p k y = avl_write s p (x\<lparr>data := data y, raw_pos := raw_pos y, dup_pos := dup_pos y, node_pos := p\<rparr>)"
      if "height (Node l e r) \<le> n" for n
      by (rule step[OF that]) (use 3 hx in simp)
    then show ?thesis using x(3) nx(1) 3 by blast
  qed
qed simp

section \<open>The walk to a node with two children\<close>

text \<open>
  The frames of the walk: whatever the second walk (\<open>s1\<close>) and the writing of the entry (\<open>s2\<close>) make, with
  a fuel of at least \<open>N\<close>, is the result, if no node but the erased one needs to be rebalanced in \<open>s2\<close>.
\<close>

definition walk_ok ::
  "('k :: linorder) avl_index \<Rightarrow> physical_pos \<Rightarrow> nat \<Rightarrow> physical_pos set \<Rightarrow> 'k \<Rightarrow> physical_pos \<Rightarrow> physical_pos \<Rightarrow>
     'k avl_node \<Rightarrow> 'k avl_node \<Rightarrow> bool" where
  "walk_ok s p h P k c w y x \<longleftrightarrow>
     (\<forall>n pp cn N. N + h \<le> n \<longrightarrow> (\<exists>m\<ge>N. \<forall>s1 a b s2.
        avl_erase m s (rootPointer (mem_header s)) (- 1) None (data y) = Inr (s1, a, b) \<longrightarrow>
        avl_fixValue m s1 c k y = Inr s2 \<longrightarrow> (\<forall>z\<in>P. z \<noteq> w \<longrightarrow> avl_rebalance s2 z = Inr s2) \<longrightarrow>
        avl_erase n s p pp cn k = Inr (s2, True, Some x)))"

lemma walk_okD:
  "walk_ok s p h P k c w y x \<Longrightarrow> N + h \<le> n \<Longrightarrow> \<exists>m\<ge>N. \<forall>s1 a b s2.
     avl_erase m s (rootPointer (mem_header s)) (- 1) None (data y) = Inr (s1, a, b) \<longrightarrow>
     avl_fixValue m s1 c k y = Inr s2 \<longrightarrow> (\<forall>z\<in>P. z \<noteq> w \<longrightarrow> avl_rebalance s2 z = Inr s2) \<longrightarrow>
     avl_erase n s p pp cn k = Inr (s2, True, Some x)"
  unfolding walk_ok_def by (elim allE) (erule mp)

text \<open>One more frame of the walk.\<close>

lemma walk_ok_step:
  assumes ok: "walk_ok s q h Q k c w y x" and Q: "Q \<subseteq> P" "p \<in> P" "p \<noteq> w" "h < h'"
    and eq: "\<And>m pp cn. avl_erase (Suc m) s p pp cn k = bind_io (avl_erase m s q p (Some z) k) (\<lambda>(s1, erased, cNode1).
        if erased then bind_io (avl_rebalance s1 p) (\<lambda>s2. Inr (s2, True, cNode1)) else Inr (s1, False, cNode1))"
  shows "walk_ok s p h' P k c w y x"
  unfolding walk_ok_def
proof (intro allI impI)
  fix n pp cn N
  assume "N + h' \<le> n"
  then obtain n' where n': "n = Suc n'" "N + h \<le> n'" using Q(4) by (cases n) auto
  obtain m where m: "N \<le> m" "\<forall>s1 a b s2. avl_erase m s (rootPointer (mem_header s)) (- 1) None (data y) = Inr (s1, a, b) \<longrightarrow>
      avl_fixValue m s1 c k y = Inr s2 \<longrightarrow> (\<forall>z\<in>Q. z \<noteq> w \<longrightarrow> avl_rebalance s2 z = Inr s2) \<longrightarrow>
      avl_erase n' s q p (Some z) k = Inr (s2, True, Some x)"
    using walk_okD[OF ok n'(2), of p "Some z"] by (elim exE conjE) (rule that)
  have "avl_erase n s p pp cn k = Inr (s2, True, Some x)"
    if "avl_erase m s (rootPointer (mem_header s)) (- 1) None (data y) = Inr (s1, a, b)" "avl_fixValue m s1 c k y = Inr s2"
      "\<forall>z\<in>P. z \<noteq> w \<longrightarrow> avl_rebalance s2 z = Inr s2" for s1 a b s2
  proof -
    have "avl_erase n' s q p (Some z) k = Inr (s2, True, Some x)" using that(3) Q(1) by (intro m(2)[rule_format, OF that(1,2)]) blast
    then show ?thesis using that(3) Q(2,3) unfolding n'(1) eq by simp
  qed
  with m(1) show "\<exists>m\<ge>N. \<forall>s1 a b s2. avl_erase m s (rootPointer (mem_header s)) (- 1) None (data y) = Inr (s1, a, b) \<longrightarrow>
      avl_fixValue m s1 c k y = Inr s2 \<longrightarrow> (\<forall>z\<in>P. z \<noteq> w \<longrightarrow> avl_rebalance s2 z = Inr s2) \<longrightarrow>
      avl_erase n s p pp cn k = Inr (s2, True, Some x)" by blast
qed

text \<open>The frame of the node itself.\<close>

lemma walk_ok_found:
  assumes "avl_read s p = Inr x" "p \<noteq> - 1" "data x = k" "leftChildren x \<noteq> - 1" "rightChildren x \<noteq> - 1"
    "\<And>n. h \<le> n \<Longrightarrow> avl_maxNode n s (leftChildren x) = Inr w" "avl_read s w = Inr y" "p \<in> P" "p \<noteq> w"
  shows "walk_ok s p (Suc h) P k p w y x"
  unfolding walk_ok_def
proof (intro allI impI)
  fix n pp cn N
  assume "N + Suc h \<le> n"
  then obtain m where m: "n = Suc m" "h \<le> m" "N \<le> m" by (cases n) auto
  have "avl_erase n s p pp cn k = Inr (s2, True, Some x)"
    if "avl_erase m s (rootPointer (mem_header s)) (- 1) None (data y) = Inr (s1, a, b)" "avl_fixValue m s1 p k y = Inr s2"
      "\<forall>z\<in>P. z \<noteq> w \<longrightarrow> avl_rebalance s2 z = Inr s2" for s1 a b s2
    using assms that m(1,2) by simp
  with m(3) show "\<exists>m\<ge>N. \<forall>s1 a b s2. avl_erase m s (rootPointer (mem_header s)) (- 1) None (data y) = Inr (s1, a, b) \<longrightarrow>
      avl_fixValue m s1 p k y = Inr s2 \<longrightarrow> (\<forall>z\<in>P. z \<noteq> w \<longrightarrow> avl_rebalance s2 z = Inr s2) \<longrightarrow>
      avl_erase n s p pp cn k = Inr (s2, True, Some x)" by blast
qed

lemma avl_erase_two_path:
  "tree_at (avl_fetch s) p t P \<Longrightarrow> search_tree t \<Longrightarrow> k \<in> keys t \<Longrightarrow> \<not> one_child k t \<Longrightarrow>
     \<exists>c x w y u Q. c \<in> P \<and> avl_fetch s c = Some x \<and> data x = k \<and> w \<in> P \<and> w \<noteq> p \<and> avl_fetch s w = Some y \<and>
       entry y = before_key k t \<and> tree_at (avl_fetch s) c u Q \<and> w \<in> Q \<and> c \<noteq> w \<and> k \<in> keys u \<and>
       walk_ok s p (height t) P k c w y x"
proof (induction t arbitrary: p P)
  case (Node l e r)
  obtain x Pl Pr where x: "node_at (avl_fetch s) p x l r Pl Pr" "e = entry x" "P = insert p (Pl \<union> Pr)"
    using Node.prems(1) by (rule tree_at_NodeE)
  note nx = node_atD[OF x(1)]
  note hx = node_at_heights(1,2)[OF x(1)]
  consider "data x < k" | "k < data x" | "k = data x" by (cases "data x" k rule: linorder_cases) auto
  then show ?case
  proof cases
    case 1
    then have k: "search_tree r" "k \<in> keys r" "\<not> one_child k r" "before_key k (Node l e r) = before_key k r"
      using Node.prems(2-4) x(2) by auto
    from Node.IH(2)[OF nx(5) k(1-3)] obtain c z w y u Q where c: "c \<in> Pr" "avl_fetch s c = Some z" "data z = k"
      "w \<in> Pr" "avl_fetch s w = Some y" "entry y = before_key k r" "tree_at (avl_fetch s) c u Q" "w \<in> Q" "c \<noteq> w"
      "k \<in> keys u" "walk_ok s (rightChildren x) (height r) Pr k c w y z"
      by (elim exE conjE) (rule that)
    have "w \<noteq> p" using c(4) nx(7) by auto
    then have "walk_ok s p (height (Node l e r)) P k c w y z"
      using x(3) hx 1 by (intro walk_ok_step[OF c(11), where z = x]) (auto simp: less_not_sym)
    then show ?thesis using c(1-10) x(3) k(4) \<open>w \<noteq> p\<close>
      by (intro exI[of _ c] exI[of _ z] exI[of _ w] exI[of _ y] exI[of _ u] exI[of _ Q]) simp
  next
    case 2
    then have k: "search_tree l" "k \<in> keys l" "\<not> one_child k l" "before_key k (Node l e r) = before_key k l"
      using Node.prems(2-4) x(2) by (auto split: if_splits)
    from Node.IH(1)[OF nx(4) k(1-3)] obtain c z w y u Q where c: "c \<in> Pl" "avl_fetch s c = Some z" "data z = k"
      "w \<in> Pl" "avl_fetch s w = Some y" "entry y = before_key k l" "tree_at (avl_fetch s) c u Q" "w \<in> Q" "c \<noteq> w"
      "k \<in> keys u" "walk_ok s (leftChildren x) (height l) Pl k c w y z"
      by (elim exE conjE) (rule that)
    have "w \<noteq> p" using c(4) nx(6) by auto
    then have "walk_ok s p (height (Node l e r)) P k c w y z"
      using x(3) hx 2 by (intro walk_ok_step[OF c(11), where z = x]) (auto simp: less_not_sym)
    then show ?thesis using c(1-10) x(3) k(4) \<open>w \<noteq> p\<close>
      by (intro exI[of _ c] exI[of _ z] exI[of _ w] exI[of _ y] exI[of _ u] exI[of _ Q]) simp
  next
    case 3
    then have ch: "l \<noteq> Leaf" "r \<noteq> Leaf" using Node.prems(4) x(2) by auto
    then have ptrs: "leftChildren x \<noteq> - 1" "rightChildren x \<noteq> - 1"
      using tree_at_root[OF nx(4)] tree_at_root[OF nx(5)] by auto
    obtain w y where w: "w \<in> Pl" "avl_fetch s w = Some y" "entry y = last (inorder l)"
      "\<forall>n\<ge>height l. avl_maxNode n s (leftChildren x) = Inr w"
      using avl_maxNode_at[OF nx(4) ch(1)] by blast
    have wp: "p \<noteq> w" using w(1) nx(6) by auto
    have "walk_ok s p (Suc (max (height l) (height r))) P k p w y x"
      by (rule walk_ok_found) (use hx 3 ptrs w wp x(3) in \<open>simp_all add: avl_fetch_read\<close>)
    then show ?thesis using w(1-3) x nx(1) 3 Node.prems(1) wp
      by (intro exI[of _ p] exI[of _ x] exI[of _ w] exI[of _ y] exI[of _ "Node l e r"] exI[of _ P]) simp
  qed
qed simp

text \<open>A key that is not there: nothing changes.\<close>

lemma avl_erase_absent:
  "tree_at (avl_fetch s) p t P \<Longrightarrow> search_tree t \<Longrightarrow> k \<notin> keys t \<Longrightarrow> height t < n \<Longrightarrow>
     \<exists>x. avl_erase n s p pp cn k = Inr (s, False, x) \<and> (if t = Leaf then x = cn else \<exists>y. x = Some y \<and> entry y \<in> set_tree t)"
proof (induction t arbitrary: p P n pp cn)
  case Leaf
  then show ?case by (cases n) simp_all
next
  case (Node l e r)
  obtain m where n: "n = Suc m" "height l < m" "height r < m" using Node.prems(4) by (cases n) auto
  obtain x Pl Pr where x: "node_at (avl_fetch s) p x l r Pl Pr" "e = entry x"
    using Node.prems(1) by (rule tree_at_NodeE)
  note nx = node_atD[OF x(1)]
  note hx = node_at_heights(1,2)[OF x(1)]
  consider "data x < k" | "k < data x" using Node.prems(3) x(2) by (cases "data x" k rule: linorder_cases) auto
  then show ?case
  proof cases
    case 1
    obtain y where "avl_erase m s (rightChildren x) p (Some x) k = Inr (s, False, y)"
      "if r = Leaf then y = Some x else \<exists>z. y = Some z \<and> entry z \<in> set_tree r"
      using Node.IH(2)[OF nx(5) _ _ n(3)] Node.prems(2,3) by auto blast
    then show ?thesis using 1 n(1) hx x(2) by (cases "r = Leaf") auto
  next
    case 2
    obtain y where "avl_erase m s (leftChildren x) p (Some x) k = Inr (s, False, y)"
      "if l = Leaf then y = Some x else \<exists>z. y = Some z \<and> entry z \<in> set_tree l"
      using Node.IH(1)[OF nx(4) _ _ n(2)] Node.prems(2,3) by auto blast
    then show ?thesis using 2 n(1) hx x(2) by (cases "l = Leaf") (auto simp: less_not_sym)
  qed
qed

end
