(* ===== verification/AvlContract.thy ===== *)
theory AvlContract
  imports AvlRemove
begin

text \<open>
  The AVL index against its specification: what an index represents, and what \<open>add\<close> and \<open>remove\<close> make of it.
  \<open>avl_holds\<close> is the invariant while the stream is open: the tree, the list of erased slots, which has every
  slot that is not in the tree, and the links of the duplicates.
\<close>

section \<open>The invariant\<close>

definition free_slots :: "'k avl_index \<Rightarrow> physical_pos set \<Rightarrow> bool" where
  "free_slots s F \<longleftrightarrow> (\<exists>ds. lseg (avl_fetch s) nextDelete (lastDelete (mem_header s)) ds (- 1) \<and>
     F = set (lptrs nextDelete (lastDelete (mem_header s)) ds))"

text \<open>A link of a duplicate is never \<open>- 1\<close>: it is 0 or the position of a record of the duplicate file.\<close>

definition dup_link :: "physical_pos \<Rightarrow> bool" where
  "dup_link p \<longleftrightarrow> (\<exists>i. p = slot_pos 0 sizeof_avn i)"

definition avl_holds :: "('k :: linorder) avl_index \<Rightarrow> ('k, avl_value) avl_tree \<Rightarrow> physical_pos set \<Rightarrow> bool" where
  "avl_holds s t P \<longleftrightarrow> stream_open s \<and> \<not> stream_failed s \<and> file_header s = Some (mem_header s) \<and>
     tree_at (avl_fetch s) (rootPointer (mem_header s)) t P \<and> avl_tree t \<and> search_tree t \<and>
     (t = Leaf \<longrightarrow> node_file s = []) \<and> free_slots s (dom (avl_fetch s) - P) \<and>
     (\<forall>e\<in>set_tree t. dup_link (snd (snd e))) \<and> (\<forall>d\<in>set (dup_file s). dup_link (dup_pos d))"

lemma avl_holdsD:
  assumes "avl_holds s t P"
  shows "stream_open s" "\<not> stream_failed s" "file_header s = Some (mem_header s)"
    "tree_at (avl_fetch s) (rootPointer (mem_header s)) t P" "avl_tree t" "search_tree t"
    "t = Leaf \<Longrightarrow> node_file s = []" "free_slots s (dom (avl_fetch s) - P)"
    "\<And>e. e \<in> set_tree t \<Longrightarrow> dup_link (snd (snd e))" "\<And>d. d \<in> set (dup_file s) \<Longrightarrow> dup_link (dup_pos d)"
  using assms unfolding avl_holds_def by blast+

lemma avl_reopen: "stream_open s \<Longrightarrow> \<not> stream_failed s \<Longrightarrow> avl_open (avl_close s) = s"
  by (simp add: avl_open_def avl_close_def)

lemma avl_open_fields [simp]: "mem_header (avl_open s) = mem_header s" "dup_file (avl_open s) = dup_file s"
  "is_pk (avl_open s) = is_pk s" "node_file (avl_open s) = node_file s" "avl_fuel (avl_open s) = avl_fuel s"
  by (simp_all add: avl_open_def avl_fuel_def)

text \<open>The number of nodes bounds the height of the tree, and it is at most twice the logarithm of the keys.\<close>

lemma avl_holds_size:
  assumes "avl_holds s t P"
  shows "height t \<le> length (node_file s)"
proof -
  note h = avl_holdsD[OF assms]
  have "P \<subseteq> dom (avl_fetch s)" using tree_at_fetch[OF h(4)] by blast
  then have "size t \<le> card (dom (avl_fetch s))"
    using tree_at_card[OF h(4)] avl_fetch_slots[OF h(2)] by (metis card_mono finite_imageI finite_lessThan)
  also have "\<dots> \<le> length (node_file s)"
    unfolding avl_fetch_slots[OF h(2)] by (metis card_image_le card_lessThan finite_lessThan)
  finally show ?thesis using height_le_size_tree[of t] by simp
qed

lemma free_slots_start:
  assumes "free_slots s F" "\<not> stream_failed s"
  shows "free_start s" "new_pos s \<noteq> end_pos sizeof_avh sizeof_avn (node_file s) \<Longrightarrow> new_pos s \<in> F"
proof -
  obtain ds where ds: "lseg (avl_fetch s) nextDelete (lastDelete (mem_header s)) ds (- 1)"
    "F = set (lptrs nextDelete (lastDelete (mem_header s)) ds)"
    using assms(1) by (auto simp: free_slots_def)
  show "free_start s" using ds(1) assms(2) by (cases ds) (auto simp: free_start_def)
  show "new_pos s \<noteq> end_pos sizeof_avh sizeof_avn (node_file s) \<Longrightarrow> new_pos s \<in> F"
    using ds by (cases ds) (auto simp: new_pos_def split: if_splits)
qed

lemma end_pos_unread: "avl_fetch s (end_pos sizeof_avh sizeof_avn (node_file s)) = None"
  using avl_records.eof_unread[of "node_file s"] by (simp add: avl_fetch_def avl_read_def io_value_eq_None) (metis sum.exhaust)

lemma avl_holds_new_pos:
  assumes "avl_holds s t P"
  shows "free_start s" "new_pos s \<notin> P"
proof -
  note h = avl_holdsD[OF assms]
  show "free_start s" by (rule free_slots_start(1)[OF h(8,2)])
  show "new_pos s \<notin> P"
  proof (cases "new_pos s = end_pos sizeof_avh sizeof_avn (node_file s)")
    case True
    then show ?thesis using tree_at_fetch[OF h(4), of "new_pos s"] end_pos_unread[of s] by auto
  next
    case False
    then show ?thesis using free_slots_start(2)[OF h(8,2)] by auto
  qed
qed

text \<open>The list of erased slots after an insertion and after a removal.\<close>

lemma free_slots_grown:
  assumes "free_slots s F" "grown s s' P" "F \<inter> P = {}"
  shows "free_slots s' (F - {new_pos s})"
proof -
  obtain ds where ds: "lseg (avl_fetch s) nextDelete (lastDelete (mem_header s)) ds (- 1)"
    "F = set (lptrs nextDelete (lastDelete (mem_header s)) ds)"
    using assms(1) by (auto simp: free_slots_def)
  have hd: "mem_header s' = pop_header s" using assms(2) by (auto simp: grown_def)
  have same: "avl_fetch s' z = avl_fetch s z" if "z \<in> F" "z \<noteq> new_pos s" for z
    using assms(2,3) that by (auto simp: grown_def)
  have dist: "distinct (lptrs nextDelete (lastDelete (mem_header s)) ds)"
    by (rule lseg_distinct_ptrs[OF ds(1)]) simp
  show ?thesis
  proof (cases ds)
    case Nil
    then show ?thesis using ds hd unfolding free_slots_def by (intro exI[of _ "[]"]) (simp add: pop_header_def)
  next
    case (Cons d ds')
    then have last: "lastDelete (mem_header s) \<noteq> - 1" "new_pos s = lastDelete (mem_header s)"
      "avl_fetch s (lastDelete (mem_header s)) = Some d" "lseg (avl_fetch s) nextDelete (nextDelete d) ds' (- 1)"
      "F = insert (new_pos s) (set (lptrs nextDelete (nextDelete d) ds'))"
      "new_pos s \<notin> set (lptrs nextDelete (nextDelete d) ds')"
      using ds dist by (auto simp: new_pos_def)
    have "lseg (avl_fetch s') nextDelete (nextDelete d) ds' (- 1)"
      using last(4) same last(5,6)
    proof (induction ds' arbitrary: d F)
      case (Cons e ds')
      have "avl_fetch s' (nextDelete d) = Some e" using Cons.prems by auto
      moreover have "lseg (avl_fetch s') nextDelete (nextDelete e) ds' (- 1)"
        using Cons.prems(1,2,4) by (intro Cons.IH[of e "insert (new_pos s) (set (lptrs nextDelete (nextDelete e) ds'))"])
          (auto simp: Cons.prems(3))
      ultimately show ?case by simp
    qed simp
    then show ?thesis using last hd by (auto simp: free_slots_def pop_header_def)
  qed
qed

lemma free_slots_erased:
  assumes "free_slots s F" "erased s s' q" "q \<notin> F" "\<And>z. z \<in> F \<Longrightarrow> avl_fetch s' z = avl_fetch s z"
  shows "free_slots s' (insert q F)"
proof -
  obtain ds where ds: "lseg (avl_fetch s) nextDelete (lastDelete (mem_header s)) ds (- 1)"
    "F = set (lptrs nextDelete (lastDelete (mem_header s)) ds)"
    using assms(1) by (auto simp: free_slots_def)
  obtain d where d: "avl_fetch s' q = Some d" "nextDelete d = lastDelete (mem_header s)" "lastDelete (mem_header s') = q"
    using assms(2) by (auto simp: erased_def)
  have "lseg (avl_fetch s') nextDelete p ds (- 1)"
    if "lseg (avl_fetch s) nextDelete p ds (- 1)" "set (lptrs nextDelete p ds) \<subseteq> F" for p
    using that
  proof (induction ds arbitrary: p)
    case (Cons e ds)
    then show ?case using assms(4)[of p] by simp
  qed simp
  then have "lseg (avl_fetch s') nextDelete (lastDelete (mem_header s)) ds (- 1)" using ds by simp
  then show ?thesis unfolding free_slots_def using d ds(2) by (intro exI[of _ "d # ds"]) simp
qed

section \<open>Insertion\<close>

lemma set_t_insert:
  assumes "search_tree t" "k \<notin> keys t"
  shows "set_tree (t_insert k v t) = insert (k, v) (set_tree t)" "search_tree (t_insert k v t)"
proof -
  have put: "set (put_new k v m) = insert (k, v) (set m) \<and> (sorted_wrt (<) (map fst m) \<longrightarrow> sorted_wrt (<) (map fst (put_new k v m)))"
    if "k \<notin> fst ` set m" for m
    using that by (induction m) (auto simp: less_imp_neq intro: less_trans)
  have "k \<notin> fst ` set (inorder t)" using assms(2) by simp
  note p = put[OF this]
  show "set_tree (t_insert k v t) = insert (k, v) (set_tree t)"
    using arg_cong[OF inorder_t_insert[OF assms(1), of k v], of set] p by simp
  show "search_tree (t_insert k v t)"
    using p assms(1) unfolding search_tree_def inorder_t_insert[OF assms(1)] by simp
qed

lemma dup_link_simps [simp]: "dup_link 0" "dup_link (end_pos 0 sizeof_avn ds)"
  by (auto simp: dup_link_def end_pos_def slot_pos_def intro: exI[of _ 0])

lemma new_avl_node_leaf [simp]: "new_leaf (new_avl_node k p)" "data (new_avl_node k p) = k"
  "raw_pos (new_avl_node k p) = p" "dup_pos (new_avl_node k p) = 0"
  by (simp_all add: new_leaf_def new_avl_node_def)

text \<open>The first key.\<close>

lemma avl_holds_first:
  assumes "avl_holds s Leaf P"
  shows "\<exists>s'. avl_insert (Suc n) s (rootPointer (mem_header s)) (new_avl_node k p) = Inr s' \<and>
     avl_holds s' (t_insert k (p, 0) Leaf) {sizeof_avh} \<and>
     length (node_file s') = Suc 0 \<and> lastDelete (mem_header s) = - 1"
proof -
  note h = avl_holdsD[OF assms]
  have root: "rootPointer (mem_header s) = - 1" and nf: "node_file s = []" using h(4,7) by auto
  have dom: "dom (avl_fetch s) = {}" using avl_fetch_slots[OF h(2)] nf by simp
  then obtain ds where "lseg (avl_fetch s) nextDelete (lastDelete (mem_header s)) ds (- 1)"
    "set (lptrs nextDelete (lastDelete (mem_header s)) ds) = {}"
    using h(8) by (auto simp: free_slots_def)
  then have last: "lastDelete (mem_header s) = - 1" by (cases ds) auto
  have pos: "end_pos sizeof_avh sizeof_avn [] = sizeof_avh" by (simp add: end_pos_def slot_pos_def)
  let ?x = "(new_avl_node k p)\<lparr>node_pos := sizeof_avh\<rparr>"
  let ?h = "(mem_header s)\<lparr>rootPointer := sizeof_avh\<rparr>"
  let ?s = "s\<lparr>node_file := [?x], mem_header := ?h, file_header := Some ?h\<rparr>"
  have f: "avl_fetch ?s = [sizeof_avh \<mapsto> ?x]"
    using h(2) moveReadRecord_snoc[of sizeof_avh sizeof_avn "[]" ?x]
    by (auto simp: avl_fetch_def avl_read_def pos fun_eq_iff moveReadRecord_def)
  have "moveWriteRecord sizeof_avh sizeof_avn (node_file s) sizeof_avh ?x = Inr [?x]"
    using moveWriteRecord_end[of sizeof_avh sizeof_avn "[]" ?x] by (simp add: nf pos)
  then have "avl_insert (Suc n) s (rootPointer (mem_header s)) (new_avl_node k p) = Inr ?s"
    using root h(2) by (simp add: avl_write_def avl_write_header_def)
  moreover have "tree_at (avl_fetch ?s) sizeof_avh (Node Leaf (entry (new_avl_node k p)) Leaf) {sizeof_avh}"
    using f by (intro new_leaf_tree) simp_all
  moreover have "free_slots ?s (dom (avl_fetch ?s) - {sizeof_avh})"
    using f last unfolding free_slots_def by (intro exI[of _ "[]"]) simp
  ultimately show ?thesis using h last by (intro exI[of _ ?s]) (simp add: avl_holds_def)
qed

lemma avl_holds_insert:
  assumes "avl_holds s t P" "k \<notin> keys t" "height t < n"
  obtains s' P' where "avl_insert n s (rootPointer (mem_header s)) (new_avl_node k p) = Inr s'"
    "avl_holds s' (t_insert k (p, 0) t) P'" "is_pk s' = is_pk s"
    "length (node_file s') = length (node_file s) + (if lastDelete (mem_header s) = - 1 then 1 else 0)"
    "P' = insert (new_pos s) P"
proof (cases "t = Leaf")
  case True
  obtain m where n: "n = Suc m" using assms(3) by (cases n) auto
  obtain s' where s': "avl_insert n s (rootPointer (mem_header s)) (new_avl_node k p) = Inr s'"
    "avl_holds s' (t_insert k (p, 0) t) {sizeof_avh}" "length (node_file s') = Suc 0" "lastDelete (mem_header s) = - 1"
    using avl_holds_first[of s P m k p] assms(1) unfolding n True by blast
  moreover have "node_file s = []" using avl_holdsD(7)[OF assms(1)] True by simp
  moreover have "rootPointer (mem_header s) = - 1" using avl_holdsD(4)[OF assms(1)] True by simp
  then have "is_pk s' = is_pk s" using s'(1) avl_holdsD(2)[OF assms(1)] unfolding n by (auto simp: bind_io_eq_Inr avl_write_def avl_write_header_def)
  moreover have "P = {}" using avl_holdsD(4)[OF assms(1)] True by simp
  ultimately show thesis by (intro that[OF s'(1,2)]) (simp_all add: new_pos_def end_pos_def slot_pos_def)
next
  case False
  note h = avl_holdsD[OF assms(1)]
  note np = avl_holds_new_pos[OF assms(1)]
  let ?i = "new_avl_node k p"
  obtain s' where s': "avl_insert n s (rootPointer (mem_header s)) ?i = Inr s'" "grown s s' P"
    "tree_at (avl_fetch s') (rootPointer (mem_header s)) (t_insert k (p, 0) t) (insert (new_pos s) P)"
    using avl_insert_new[OF _ np(1) h(4) False _ np(2), of ?i n] assms(2,3) by auto
  note f = s'(2)[unfolded grown_def]
  have hdr: "mem_header s' = pop_header s" "file_header s' = Some (mem_header s')" "stream_open s'" "\<not> stream_failed s'"
    "dup_file s' = dup_file s" "is_pk s' = is_pk s" "rootPointer (mem_header s') = rootPointer (mem_header s)"
    using f h(1-3) by (auto simp: pop_file_header_def pop_header_def)
  have "free_slots s' (dom (avl_fetch s) - P - {new_pos s})" by (rule free_slots_grown[OF h(8) s'(2)]) auto
  moreover have "dom (avl_fetch s') - insert (new_pos s) P = dom (avl_fetch s) - P - {new_pos s}" using f by auto
  moreover have "t_insert k (p, 0) t \<noteq> Leaf" using set_t_insert(1)[OF h(6) assms(2), of "(p, 0)"] by auto
  ultimately have "avl_holds s' (t_insert k (p, 0) t) (insert (new_pos s) P)"
    using hdr s'(3) h(5,9,10) avl_t_insert[OF h(5)] set_t_insert[OF h(6) assms(2)] by (auto simp: avl_holds_def)
  moreover have "length (node_file s') = length (node_file s) + (if lastDelete (mem_header s) = - 1 then 1 else 0)"
  proof -
    have "new_pos s \<in> dom (avl_fetch s) \<longleftrightarrow> lastDelete (mem_header s) \<noteq> - 1"
    proof (cases "lastDelete (mem_header s) = - 1")
      case False
      then show ?thesis using np(1) by (auto simp: new_pos_def free_start_def)
    qed (use end_pos_unread[of s] in \<open>auto simp: new_pos_def\<close>)
    then have "card (dom (avl_fetch s')) = card (dom (avl_fetch s)) + (if lastDelete (mem_header s) = - 1 then 1 else 0)"
      using f avl_fetch_slots[OF h(2)] by (auto simp: insert_absorb)
    then show ?thesis using avl_fetch_card[OF h(2)] avl_fetch_card[OF hdr(4)] by simp
  qed
  ultimately show thesis by (intro that[OF s'(1) _ hdr(6)]) simp_all
qed

text \<open>A key that is there.\<close>

lemma keys_map_set: "fst e = k \<Longrightarrow> keys (map_tree (set_entry k e) t) = keys t"
  by (auto simp: set_entry_def tree.set_map image_iff) (metis fst_conv)+

lemma search_map_set:
  assumes "fst e = k"
  shows "search_tree (map_tree (set_entry k e) t) = search_tree t"
proof -
  have "fst (set_entry k e e') = fst e'" for e' using assms by (simp add: set_entry_def)
  then show ?thesis by (simp add: search_tree_def inorder_map comp_def)
qed

lemma avl_holds_dup:
  assumes "avl_holds s t P" "k \<in> keys t" "\<not> is_pk s" "height t \<le> n"
  obtains s' raw dup where "avl_insert n s (rootPointer (mem_header s)) (new_avl_node k p) = Inr s'"
    "(k, raw, dup) \<in> set_tree t"
    "avl_holds s' (map_tree (set_entry k (k, raw, end_pos 0 sizeof_avn (dup_file s))) t) P" "is_pk s' = is_pk s"
proof -
  note h = avl_holdsD[OF assms(1)]
  let ?i = "new_avl_node k p"
  obtain s' raw dup where s': "\<And>n. height t \<le> n \<Longrightarrow> avl_insert n s (rootPointer (mem_header s)) ?i = Inr s'"
    "evolves (s\<lparr>dup_file := dup_file s @ [?i\<lparr>dup_pos := dup\<rparr>]\<rparr>) s' P" "(k, raw, dup) \<in> set_tree t"
    "tree_at (avl_fetch s') (rootPointer (mem_header s))
       (map_tree (set_entry k (k, raw, end_pos 0 sizeof_avn (dup_file s))) t) P"
    using avl_insert_dup[OF h(4,6,5) _ assms(3), of ?i] assms(2) by (metis new_avl_node_leaf(2))
  let ?e = "(k, raw, end_pos 0 sizeof_avn (dup_file s))"
  note f = evolves_fields[OF s'(2)]
  have dom: "dom (avl_fetch s') = dom (avl_fetch s)" using evolves_dom[OF s'(2)] h(2) by simp
  have "free_slots s' (dom (avl_fetch s') - P)"
  proof -
    obtain ds where ds: "lseg (avl_fetch s) nextDelete (lastDelete (mem_header s)) ds (- 1)"
      "dom (avl_fetch s) - P = set (lptrs nextDelete (lastDelete (mem_header s)) ds)"
      using h(8) by (auto simp: free_slots_def)
    have "lseg (avl_fetch s') nextDelete q ds (- 1)"
      if "lseg (avl_fetch s) nextDelete q ds (- 1)" "set (lptrs nextDelete q ds) \<subseteq> dom (avl_fetch s) - P" for q
      using that
    proof (induction ds arbitrary: q)
      case (Cons d ds)
      then show ?case using evolves_fetch[OF s'(2), of q] by simp
    qed simp
    then show ?thesis using ds f dom by (auto simp: free_slots_def)
  qed
  moreover have "dup_link dup" using h(9)[OF s'(3)] by simp
  moreover have "\<forall>e\<in>set_tree (map_tree (set_entry k ?e) t). dup_link (snd (snd e))"
    using h(9) by (auto simp: tree.set_map set_entry_def)
  moreover have "t = Leaf \<longrightarrow> node_file s' = []" using h(7) f by auto
  ultimately have "avl_holds s' (map_tree (set_entry k ?e) t) P"
    using h f s'(4) by (auto simp: avl_holds_def search_map_set)
  then show thesis using s'(1,3) assms(4) f by (intro that[of s' raw dup]) simp_all
qed

section \<open>Removal\<close>

text \<open>The root of the tree is not the node of the key, or it has two children.\<close>

definition avl_guard :: "('k :: linorder) avl_index \<Rightarrow> 'k \<Rightarrow> bool" where
  "avl_guard s k \<longleftrightarrow> (\<forall>x. avl_fetch (avl_open s) (rootPointer (mem_header s)) = Some x \<longrightarrow> data x = k \<longrightarrow>
     leftChildren x \<noteq> - 1 \<and> rightChildren x \<noteq> - 1)"

fun root_keeps :: "'k \<Rightarrow> ('k, 'v) avl_tree \<Rightarrow> bool" where
  "root_keeps k Leaf \<longleftrightarrow> True"
| "root_keeps k (Node l e r) \<longleftrightarrow> fst e = k \<longrightarrow> l \<noteq> Leaf \<and> r \<noteq> Leaf"

lemma avl_guard_root:
  assumes "avl_holds (avl_open s) t P"
  shows "avl_guard s k \<longleftrightarrow> root_keeps k t"
proof (cases t)
  case Leaf
  then show ?thesis using avl_holdsD(4)[OF assms] by (simp add: avl_guard_def)
next
  case (Node l e r)
  obtain x Pl Pr where x: "node_at (avl_fetch (avl_open s)) (rootPointer (mem_header s)) x l r Pl Pr" "e = entry x"
    using avl_holdsD(4)[OF assms] unfolding Node avl_open_fields by (rule tree_at_NodeE)
  note n = node_atD[OF x(1)]
  show ?thesis using n(1) tree_at_root[OF n(4)] tree_at_root[OF n(5)] x(2) by (auto simp: avl_guard_def Node)
qed

text \<open>What is left once the erased slot and the new tree are known.\<close>

lemma avl_holds_erased:
  assumes h: "avl_holds s t P" and er: "erased s s' q" "q \<in> P"
    and frame: "\<And>z. z \<notin> P \<Longrightarrow> avl_fetch s' z = avl_fetch s z"
    and t': "tree_at (avl_fetch s') (rootPointer (mem_header s)) t' (P - {q})" "avl_tree t'" "search_tree t'" "t' \<noteq> Leaf"
      "\<And>e. e \<in> set_tree t' \<Longrightarrow> dup_link (snd (snd e))"
  shows "avl_holds s' t' (P - {q})"
proof -
  note hs = avl_holdsD[OF h]
  obtain xs where xs: "s' = s\<lparr>mem_header := (mem_header s)\<lparr>lastDelete := q\<rparr>,
      file_header := Some ((mem_header s)\<lparr>lastDelete := q\<rparr>), node_file := xs\<rparr>" "length xs = length (node_file s)"
    using er(1) by (auto simp: erased_def)
  have ok: "\<not> stream_failed s'" using xs hs(2) by simp
  have dom: "dom (avl_fetch s') = dom (avl_fetch s)" using avl_fetch_slots[OF hs(2)] avl_fetch_slots[OF ok] xs by simp
  have "q \<in> dom (avl_fetch s)" using tree_at_fetch[OF hs(4) er(2)] by auto
  then have "insert q (dom (avl_fetch s) - P) = dom (avl_fetch s') - (P - {q})" using er(2) dom by auto
  moreover have "free_slots s' (insert q (dom (avl_fetch s) - P))"
    by (rule free_slots_erased[OF hs(8) er(1)]) (use er(2) frame in auto)
  ultimately show ?thesis using xs hs t' by (auto simp: avl_holds_def)
qed

text \<open>A node with at most one child, not at the root.\<close>

lemma avl_holds_erase_one:
  assumes "avl_holds s t P" "one_child k t" "root_keeps k t" "height t \<le> n"
  obtains s' q x where "avl_erase n s (rootPointer (mem_header s)) (- 1) None k = Inr (s', True, Some x)"
    "erased_tree s s' k (rootPointer (mem_header s)) (- 1) t P (rootPointer (mem_header s)) q"
    "data x = k" "entry x \<in> set_tree t" "t_erase k t \<noteq> Leaf"
proof -
  note h = avl_holdsD[OF assms(1)]
  have "parent_link s (- 1) undefined (rootPointer (mem_header s)) P" by (simp add: parent_link_def)
  from avl_erase_one[OF h(4,6,5) assms(2,4) this, of None] obtain s' p' q x where
    s': "avl_erase n s (rootPointer (mem_header s)) (- 1) None k = Inr (s', True, Some x)"
    "erased_tree s s' k (rootPointer (mem_header s)) (- 1) t P p' q" "data x = k" "entry x \<in> set_tree t"
    by (elim exE conjE) (rule that)
  note e = erased_treeD[OF s'(2)]
  obtain l a r where t: "t = Node l a r" using assms(2) by (cases t) auto
  have top: "fst a \<noteq> k" using assms(2,3) t by auto
  have "q \<noteq> rootPointer (mem_header s)"
  proof
    assume "q = rootPointer (mem_header s)"
    then show False using e(3) h(4) top unfolding t by (auto elim!: tree_at_NodeE simp: node_at_def)
  qed
  then have "p' = rootPointer (mem_header s)" using e(6) by blast
  moreover have "t_erase k t \<noteq> Leaf"
  proof -
    have "fst a \<in> keys t" using t by simp
    then have "fst a \<in> keys (t_erase k t)" using t_erase_keys[OF h(6) assms(2)] top by simp
    then show ?thesis by auto
  qed
  ultimately show thesis using s'(2) by (intro that[OF s'(1) _ s'(3,4)]) simp_all
qed

lemma set_t_remove:
  assumes "search_tree t" "k \<in> keys t"
  shows "set_tree (t_remove k t) = {e \<in> set_tree t. fst e \<noteq> k}" "search_tree (t_remove k t)"
proof -
  note io = inorder_t_remove[OF assms]
  show "set_tree (t_remove k t) = {e \<in> set_tree t. fst e \<noteq> k}" using arg_cong[OF io, of set] by simp
  show "search_tree (t_remove k t)"
    using assms(1) unfolding search_tree_def io by (simp add: sorted_wrt_map sorted_wrt_filter)
qed

lemma avl_holds_remove_one:
  assumes "avl_holds s t P" "one_child k t" "root_keeps k t" "height t \<le> n"
  obtains s' P' x where "avl_erase n s (rootPointer (mem_header s)) (- 1) None k = Inr (s', True, Some x)"
    "avl_holds s' (t_remove k t) P'" "data x = k" "entry x \<in> set_tree t" "is_pk s' = is_pk s"
    "lastDelete (mem_header s') \<in> P" "P' = P - {lastDelete (mem_header s')}" "length (node_file s') = length (node_file s)"
proof -
  note h = avl_holdsD[OF assms(1)]
  obtain s' q x where s': "avl_erase n s (rootPointer (mem_header s)) (- 1) None k = Inr (s', True, Some x)"
    "erased_tree s s' k (rootPointer (mem_header s)) (- 1) t P (rootPointer (mem_header s)) q"
    "data x = k" "entry x \<in> set_tree t" "t_erase k t \<noteq> Leaf"
    by (rule avl_holds_erase_one[OF assms])
  note e = erased_treeD[OF s'(2)]
  have rem: "t_remove k t = t_erase k t" using assms(2) by (simp add: t_remove_def)
  have key: "k \<in> keys t" by (rule one_child_key[OF assms(2)])
  have "avl_fetch s' z = avl_fetch s z" if "z \<notin> P" for z
    using e(5)[OF that] tree_at_fetch[OF e(4)] erased_def[of s s' q] e(1)
    by (cases "z = - 1") simp_all
  then have "avl_holds s' (t_remove k t) (P - {q})"
    using e avl_t_remove[OF h(6) key h(5)] set_t_remove[OF h(6) key] s'(5) h(9)
    by (intro avl_holds_erased[OF assms(1) e(1,2)]) (simp_all add: rem[symmetric])
  moreover have "is_pk s' = is_pk s" "lastDelete (mem_header s') = q" "length (node_file s') = length (node_file s)" using e(1) by (auto simp: erased_def)
  ultimately show thesis using e(2) by (intro that[OF s'(1) _ s'(3,4)]) simp_all
qed

text \<open>A node with two children.\<close>

lemma avl_holds_remove_two:
  assumes "avl_holds s t P" "k \<in> keys t" "\<not> one_child k t" "2 * height t \<le> n"
  obtains s' P' x where "avl_erase n s (rootPointer (mem_header s)) (- 1) None k = Inr (s', True, Some x)"
    "avl_holds s' (t_remove k t) P'" "data x = k" "entry x \<in> set_tree t" "is_pk s' = is_pk s"
    "lastDelete (mem_header s') \<in> P" "P' = P - {lastDelete (mem_header s')}" "length (node_file s') = length (node_file s)"
proof -
  note h = avl_holdsD[OF assms(1)]
  let ?root = "rootPointer (mem_header s)"
  from avl_erase_two_path[OF h(4,6) assms(2,3)] obtain c x w y u Q where
    c: "c \<in> P" "avl_fetch s c = Some x" "data x = k" "w \<in> P" "w \<noteq> ?root" "avl_fetch s w = Some y"
      "entry y = before_key k t" "tree_at (avl_fetch s) c u Q" "w \<in> Q" "c \<noteq> w" "k \<in> keys u"
      "walk_ok s ?root (height t) P k c w y x"
    by (elim exE conjE) (rule that)
  have before: "one_child (data y) t" "\<exists>m n v. inorder t = m @ entry y # (k, v) # n"
    using before_key_in[OF h(6) assms(2,3)] c(7) by (metis fst_conv)+
  have ne: "data y \<noteq> k" using before(1) assms(3) by auto
  have top: "root_keeps (data y) t"
  proof (cases t)
    case (Node l a r)
    obtain z Pl Pr where z: "node_at (avl_fetch s) ?root z l r Pl Pr" "a = entry z"
      using h(4) unfolding Node by (rule tree_at_NodeE)
    have "data z \<noteq> data y"
    proof
      assume "data z = data y"
      moreover have "?root \<in> P" using tree_at_in[OF h(4)] node_atD(2)[OF z(1)] by simp
      ultimately have "?root = w" using tree_at_key_unique[OF h(4,6) _ c(4) node_atD(1)[OF z(1)] c(6)] by simp
      then show False using c(5) by simp
    qed
    then show ?thesis by (simp add: Node z(2))
  qed simp
  obtain m where m: "height t \<le> m" "\<forall>s1 a b s2. avl_erase m s ?root (- 1) None (data y) = Inr (s1, a, b) \<longrightarrow>
      avl_fixValue m s1 c k y = Inr s2 \<longrightarrow> (\<forall>z\<in>P. z \<noteq> w \<longrightarrow> avl_rebalance s2 z = Inr s2) \<longrightarrow>
      avl_erase n s ?root (- 1) None k = Inr (s2, True, Some x)"
    using walk_okD[OF c(12), of "height t" n "- 1" None] assms(4) by (auto simp del: split_paired_All split_paired_Ex)
  obtain s1 q x1 where s1: "avl_erase m s ?root (- 1) None (data y) = Inr (s1, True, Some x1)"
    "erased_tree s s1 (data y) ?root (- 1) t P ?root q" "data x1 = data y" "entry x1 \<in> set_tree t"
    "t_erase (data y) t \<noteq> Leaf"
    by (rule avl_holds_erase_one[OF assms(1) before(1) top m(1)])
  note e = erased_treeD[OF s1(2)]
  obtain yq where yq: "avl_fetch s q = Some yq" "data yq = data y" using e(3) by blast
  have q: "q = w" by (rule tree_at_key_unique[OF h(4,6) e(2) c(4) yq(1) c(6) yq(2)])
  let ?T = "t_erase (data y) t" and ?P = "P - {w}"
  have T: "search_tree ?T" "avl_tree ?T" "keys ?T = keys t - {data y}"
    using t_erase_search[OF h(6) before(1)] avl_t_erase[OF h(5) before(1)] t_erase_keys[OF h(6) before(1)] by auto
  have Tat: "tree_at (avl_fetch s1) ?root ?T ?P" using e(4) q by simp
  obtain u' where u': "tree_at (avl_fetch s1) c u' (Q - {w})" "keys u' = keys u - {data y}"
    using e(7)[OF c(8,1)] c(9,10) q by blast
  have "c \<in> ?P" using c(1,10) by simp
  note ins = tree_at_inside[OF Tat u'(1) this]
  have "search_tree u'" by (rule subtrees_search[OF conjunct2[OF ins] T(1)])
  moreover have "k \<in> keys u'" using u'(2) c(11) ne by simp
  ultimately obtain r z where r: "r \<in> Q - {w}" "avl_fetch s1 r = Some z" "data z = k"
    "\<And>n. height u' \<le> n \<Longrightarrow> avl_fixValue n s1 c k y =
       avl_write s1 r (z\<lparr>data := data y, raw_pos := raw_pos y, dup_pos := dup_pos y, node_pos := r\<rparr>)"
    using avl_fixValue_at[OF u'(1)] by blast
  have rP: "r \<in> ?P" using r(1) ins by blast
  let ?y = "z\<lparr>data := data y, raw_pos := raw_pos y, dup_pos := dup_pos y, node_pos := r\<rparr>"
  have zpos: "node_pos z = r" using tree_at_fetch[OF Tat rP] r(2) by auto
  obtain s2 where s2: "avl_write s1 r ?y = Inr s2" "evolves s1 s2 {r}" "avl_fetch s2 = (avl_fetch s1)(r \<mapsto> ?y)"
    using r(2) by (rule avl_write_at)
  have rem: "t_remove k t = map_tree (set_entry k (entry y)) ?T" using assms(3) by (simp add: t_remove_def c(7)[symmetric])
  have "tree_at (avl_fetch s2) ?root (map_tree (set_entry (data z) (entry ?y)) ?T) ?P"
    unfolding s2(3) by (rule tree_at_set[OF Tat T(1) rP r(2)]) simp_all
  then have at2: "tree_at (avl_fetch s2) ?root (t_remove k t) ?P" unfolding rem using r(3) by simp
  have avl2: "avl_tree (t_remove k t)" by (rule avl_t_remove[OF h(6) assms(2) h(5)])
  have "height u' \<le> m" using subtrees_height[OF conjunct2[OF ins]] erase_shrinks[OF h(5) before(1)] m(1) by simp
  then have fixed: "avl_fixValue m s1 c k y = Inr s2" using r(4) s2(1) by simp
  have "avl_rebalance s2 z = Inr s2" if "z \<in> P" "z \<noteq> w" for z
    using that by (intro avl_rebalance_id[OF at2 avl2]) simp
  then have run: "avl_erase n s ?root (- 1) None k = Inr (s2, True, Some x)"
    by (intro m(2)[rule_format, OF s1(1) fixed])
  have er: "erased s s2 w" using erased_evolves[OF e(1) s2(2)] q r(1) by simp
  have frame: "avl_fetch s2 z = avl_fetch s z" if "z \<notin> P" for z
  proof -
    have "z \<noteq> r" using that rP by auto
    then show ?thesis using e(5)[OF that] s2(3) by (cases "z = - 1") simp_all
  qed
  have "t_remove k t \<noteq> Leaf" unfolding rem using s1(5) by (cases ?T) simp_all
  then have "avl_holds s2 (t_remove k t) ?P"
    using set_t_remove[OF h(6) assms(2)] h(9)
    by (intro avl_holds_erased[OF assms(1) er c(4) frame at2 avl2]) simp_all
  moreover have "is_pk s2 = is_pk s" "lastDelete (mem_header s2) = w" "length (node_file s2) = length (node_file s)" using er by (auto simp: erased_def)
  moreover have "entry x \<in> set_tree t" by (rule tree_at_key[OF h(4) c(1,2)])
  ultimately show thesis using c(4) by (intro that[OF run _ c(3)]) simp_all
qed

end
