(* ===== verification/AvlOps.thy ===== *)
theory AvlOps
  imports AvlContract
begin

text \<open>
  The operations of the AVL index on a closed index: \<open>avl_stored s t\<close> is that the files hold the tree \<open>t\<close> of
  the reference definitions.  \<open>add\<close> makes the reference insertion of it, and \<open>remove\<close> the reference removal, unless
  the key is at a root with at most one child.
\<close>

section \<open>A closed index\<close>

definition avl_stored :: "('k :: linorder) avl_index \<Rightarrow> ('k, avl_value) avl_tree \<Rightarrow> bool" where
  "avl_stored s t \<longleftrightarrow> \<not> stream_open s \<and> (\<exists>P. avl_holds (avl_open s) t P)"

lemma avl_storedE:
  assumes "avl_stored s t"
  obtains P where "\<not> stream_open s" "avl_holds (avl_open s) t P"
  using assms unfolding avl_stored_def by blast

lemma avl_stored_close: "avl_holds s t P \<Longrightarrow> avl_stored (avl_close s) t"
  using avl_reopen[of s] avl_holdsD(1,2)[of s t P] unfolding avl_stored_def by (auto simp: avl_close_def)

lemma avl_stored_search: "avl_stored s t \<Longrightarrow> search_tree t"
  by (elim avl_storedE) (rule avl_holdsD(6))

lemma avl_stored_avl: "avl_stored s t \<Longrightarrow> avl_tree t"
  by (elim avl_storedE) (rule avl_holdsD(5))

lemma avl_stored_height: "avl_stored s t \<Longrightarrow> 2 * height t < avl_fuel s"
  by (elim avl_storedE) (drule avl_holds_size, simp add: avl_fuel_def)

text \<open>The files after the constructor, on two files that were not there.\<close>

definition avl_created :: "bool \<Rightarrow> 'k avl_index" where
  "avl_created pk = avl_initIndex \<lparr>mem_header = \<lparr>rootPointer = 0, lastDelete = 0\<rparr>, file_header = None, node_file = [],
     dup_file = [], is_pk = pk, stream_open = False, stream_failed = False\<rparr>"

lemma avl_fetch_empty: "node_file s = [] \<Longrightarrow> avl_fetch s = Map.empty"
  by (auto simp: avl_fetch_def avl_read_def moveReadRecord_def fun_eq_iff)

lemma avl_created_stored: "avl_stored (avl_created pk) Leaf" "is_pk (avl_created pk) = pk"
proof -
  note e = avl_fetch_empty
  show "avl_stored (avl_created pk) Leaf"
    by (auto simp: avl_stored_def avl_created_def avl_initIndex_def avl_initFile_def avl_open_def avl_close_def
        avl_write_header_def avl_holds_def e free_slots_def search_tree_def intro!: exI[of _ "{}"] exI[of _ "[]"])
  show "is_pk (avl_created pk) = pk"
    by (simp add: avl_created_def avl_initIndex_def avl_initFile_def avl_open_def avl_close_def avl_write_header_def)
qed

section \<open>add\<close>

lemma avl_holds_height: "avl_holds (avl_open s) t P \<Longrightarrow> 2 * height t < avl_fuel s"
  by (drule avl_holds_size) (simp add: avl_fuel_def)

text \<open>
  The slots of the file: \<open>P\<close> are those of the tree, \<open>F\<close> those of the list of erased ones, which starts in the header.
\<close>

definition avl_slots :: "('k :: linorder) avl_index \<Rightarrow> ('k, avl_value) avl_tree \<Rightarrow> physical_pos set \<Rightarrow> physical_pos set \<Rightarrow> bool" where
  "avl_slots s t P F \<longleftrightarrow>
     tree_at (avl_fetch (avl_open s)) (rootPointer (mem_header s)) t P \<and> free_slots (avl_open s) F \<and>
     P \<union> F = slot_pos sizeof_avh sizeof_avn ` {..<length (node_file s)} \<and> P \<inter> F = {}"

lemma avl_holds_slots:
  assumes "avl_holds (avl_open s) t P" "F = slot_pos sizeof_avh sizeof_avn ` {..<length (node_file s)} - P"
  shows "avl_slots s t P F"
proof -
  note h = avl_holdsD[OF assms(1), unfolded avl_open_fields]
  have dom: "dom (avl_fetch (avl_open s)) = slot_pos sizeof_avh sizeof_avn ` {..<length (node_file s)}"
    using avl_fetch_slots[OF h(2)] by simp
  have "P \<subseteq> dom (avl_fetch (avl_open s))" using tree_at_fetch[OF h(4)] by blast
  then show ?thesis using h(4,8) dom assms(2) by (auto simp: avl_slots_def)
qed

lemma free_slots_empty:
  assumes "free_slots s F"
  shows "F = {} \<longleftrightarrow> lastDelete (mem_header s) = - 1" "F \<noteq> {} \<Longrightarrow> lastDelete (mem_header s) \<in> F"
proof -
  obtain ds where "lseg (avl_fetch s) nextDelete (lastDelete (mem_header s)) ds (- 1)"
    "F = set (lptrs nextDelete (lastDelete (mem_header s)) ds)" using assms by (auto simp: free_slots_def)
  then show "F = {} \<longleftrightarrow> lastDelete (mem_header s) = - 1" "F \<noteq> {} \<Longrightarrow> lastDelete (mem_header s) \<in> F"
    by (cases ds; auto)+
qed

lemma avl_add_holds:
  assumes "avl_holds (avl_open s) t P" "k \<notin> keys t"
  obtains s' where "avl_add s k p = (avl_close s', Inr [p])" "is_pk s' = is_pk s"
    "avl_holds s' (t_insert k (p, 0) t) (insert (new_pos (avl_open s)) P)"
    "length (node_file s') = length (node_file s) + (if lastDelete (mem_header s) = - 1 then 1 else 0)"
proof -
  have "height t < avl_fuel s" using avl_holds_height[OF assms(1)] by simp
  from avl_holds_insert[OF assms this, of p] obtain s' where
    "avl_insert (avl_fuel s) (avl_open s) (rootPointer (mem_header s)) (new_avl_node k p) = Inr s'"
    "avl_holds s' (t_insert k (p, 0) t) (insert (new_pos (avl_open s)) P)" "is_pk s' = is_pk s"
    "length (node_file s') = length (node_file s) + (if lastDelete (mem_header s) = - 1 then 1 else 0)"
    unfolding avl_open_fields by metis
  then show thesis by (intro that[of s']) (simp_all add: avl_add_def)
qed

lemma avl_add_stored:
  assumes "avl_stored s t" "k \<notin> keys t"
  shows "\<exists>s'. avl_add s k p = (s', Inr [p]) \<and> avl_stored s' (t_insert k (p, 0) t) \<and> is_pk s' = is_pk s \<and>
    length (node_file s') = length (node_file s) + (if lastDelete (mem_header s) = - 1 then 1 else 0)"
proof -
  obtain P where P: "avl_holds (avl_open s) t P" using assms(1) by (rule avl_storedE)
  obtain s' where "avl_add s k p = (avl_close s', Inr [p])" "is_pk s' = is_pk s"
    "avl_holds s' (t_insert k (p, 0) t) (insert (new_pos (avl_open s)) P)"
    "length (node_file s') = length (node_file s) + (if lastDelete (mem_header s) = - 1 then 1 else 0)"
    by (rule avl_add_holds[OF P assms(2)])
  then show ?thesis using avl_stored_close[of s'] by (simp add: avl_close_def)
qed

lemma avl_add_dup_stored:
  assumes "avl_stored s t" "k \<in> keys t" "\<not> is_pk s"
  shows "\<exists>s' raw dup. avl_add s k p = (s', Inr [p]) \<and> (k, raw, dup) \<in> set_tree t \<and>
    avl_stored s' (map_tree (set_entry k (k, raw, end_pos 0 sizeof_avn (dup_file s))) t) \<and> is_pk s' = is_pk s"
proof -
  obtain P where P: "avl_holds (avl_open s) t P" using assms(1) by (rule avl_storedE)
  have fuel: "height t \<le> avl_fuel s" using avl_stored_height[OF assms(1)] by simp
  obtain s' raw dup where s': "avl_insert (avl_fuel s) (avl_open s) (rootPointer (mem_header s)) (new_avl_node k p) = Inr s'"
    "(k, raw, dup) \<in> set_tree t"
    "avl_holds s' (map_tree (set_entry k (k, raw, end_pos 0 sizeof_avn (dup_file s))) t) P" "is_pk s' = is_pk s"
    by (rule avl_holds_dup[OF P assms(2) _ fuel, unfolded avl_open_fields, OF assms(3)])
  then show ?thesis using avl_stored_close[OF s'(3)]
    by (intro exI[of _ "avl_close s'"] exI[of _ raw] exI[of _ dup]) (simp add: avl_add_def avl_close_def)
qed

lemma avl_add_refused:
  assumes "avl_stored s t" "k \<in> keys t" "is_pk s"
  shows "avl_add s k p = (avl_open s, Inl RuntimeError)"
proof -
  obtain P where P: "avl_holds (avl_open s) t P" using assms(1) by (rule avl_storedE)
  note h = avl_holdsD[OF P]
  have "avl_insert (avl_fuel s) (avl_open s) (rootPointer (mem_header (avl_open s))) (new_avl_node k p) = Inl RuntimeError"
    using assms(2,3) avl_stored_height[OF assms(1)] by (intro avl_insert_refused[OF h(4,6)]) simp_all
  then show ?thesis by (simp add: avl_add_def)
qed

section \<open>remove\<close>

lemma avl_remove_holds:
  assumes P: "avl_holds (avl_open s) t P" and "k \<in> keys t" "avl_guard s k"
  obtains s' raw dup where "avl_remove s k = (avl_close s', Inr [raw])" "(k, raw, dup) \<in> set_tree t" "is_pk s' = is_pk s"
    "lastDelete (mem_header s') \<in> P" "avl_holds s' (t_remove k t) (P - {lastDelete (mem_header s')})"
    "length (node_file s') = length (node_file s)"
proof -
  have top: "root_keeps k t" using assms(3) avl_guard_root[OF P] by simp
  have fuel: "height t \<le> avl_fuel s" "2 * height t \<le> avl_fuel s" using avl_holds_height[OF P] by simp_all
  have "\<exists>s' x. avl_erase (avl_fuel s) (avl_open s) (rootPointer (mem_header (avl_open s))) (- 1) None k = Inr (s', True, Some x) \<and>
      avl_holds s' (t_remove k t) (P - {lastDelete (mem_header s')}) \<and> data x = k \<and> entry x \<in> set_tree t \<and>
      is_pk s' = is_pk (avl_open s) \<and> lastDelete (mem_header s') \<in> P \<and>
      length (node_file s') = length (node_file (avl_open s))"
  proof (cases "one_child k t")
    case True
    from avl_holds_remove_one[OF P True top fuel(1)] show ?thesis by metis
  next
    case False
    from avl_holds_remove_two[OF P assms(2) False fuel(2)] show ?thesis by metis
  qed
  then obtain s' x where s': "avl_erase (avl_fuel s) (avl_open s) (rootPointer (mem_header s)) (- 1) None k = Inr (s', True, Some x)"
    "avl_holds s' (t_remove k t) (P - {lastDelete (mem_header s')})" "data x = k" "entry x \<in> set_tree t" "is_pk s' = is_pk s"
    "lastDelete (mem_header s') \<in> P" "length (node_file s') = length (node_file s)"
    unfolding avl_open_fields by (elim exE conjE) (rule that)
  have "avl_remove s k = (avl_close s', Inr [raw_pos x])" using s'(1) by (simp add: avl_remove_def)
  moreover have "(k, raw_pos x, dup_pos x) \<in> set_tree t" using s'(4) unfolding s'(3) .
  ultimately show thesis by (rule that[OF _ _ s'(5,6,2,7)])
qed

lemma avl_remove_stored:
  assumes "avl_stored s t" "k \<in> keys t" "avl_guard s k"
  shows "\<exists>s' raw dup. avl_remove s k = (s', Inr [raw]) \<and> (k, raw, dup) \<in> set_tree t \<and> avl_stored s' (t_remove k t) \<and>
    is_pk s' = is_pk s"
proof -
  obtain P where P: "avl_holds (avl_open s) t P" using assms(1) by (rule avl_storedE)
  obtain s' raw dup where s': "avl_remove s k = (avl_close s', Inr [raw])" "(k, raw, dup) \<in> set_tree t" "is_pk s' = is_pk s"
    "lastDelete (mem_header s') \<in> P" "avl_holds s' (t_remove k t) (P - {lastDelete (mem_header s')})"
    by (rule avl_remove_holds[OF P assms(2,3)])
  moreover have "is_pk (avl_close s') = is_pk s" using s'(3) by (simp add: avl_close_def)
  ultimately show ?thesis using avl_stored_close[OF s'(5)] by blast
qed

text \<open>A key that is not there: the position of some other record is returned, or 0.\<close>

lemma avl_remove_absent_stored:
  assumes "avl_stored s t" "k \<notin> keys t"
  shows "\<exists>raw. avl_remove s k = (avl_close (avl_open s), Inr [raw]) \<and> avl_stored (avl_close (avl_open s)) t \<and>
    (if t = Leaf then raw = 0 else \<exists>k' dup. k' \<noteq> k \<and> (k', raw, dup) \<in> set_tree t)"
proof -
  obtain P where P: "avl_holds (avl_open s) t P" using assms(1) by (rule avl_storedE)
  note h = avl_holdsD[OF P]
  obtain x where x: "avl_erase (avl_fuel s) (avl_open s) (rootPointer (mem_header s)) (- 1) None k = Inr (avl_open s, False, x)"
    "if t = Leaf then x = None else \<exists>y. x = Some y \<and> entry y \<in> set_tree t"
    using avl_erase_absent[OF h(4,6) assms(2), of "avl_fuel s" "- 1" None] avl_stored_height[OF assms(1)] by auto
  note st = avl_stored_close[OF P]
  show ?thesis
  proof (cases "t = Leaf")
    case True
    then show ?thesis using x st by (simp add: avl_remove_def)
  next
    case False
    then obtain y where y: "x = Some y" "entry y \<in> set_tree t" using x(2) by auto
    then have "data y \<noteq> k" using assms(2) by force
    then show ?thesis using x(1) y st False by (intro exI[of _ "raw_pos y"]) (auto simp: avl_remove_def)
  qed
qed

end
