(* ===== verification/AvlTheorems.thy ===== *)
theory AvlTheorems
  imports AvlOps IndexSpec
begin

text \<open>
  The properties of the AVL index, each applied to a concrete index.
\<close>

section \<open>Lemmas\<close>

text \<open>A list of keys with the position of the first record of each.\<close>

abbreviation first_pos :: "'k \<times> avl_value \<Rightarrow> 'k \<times> physical_pos" where
  "first_pos e \<equiv> (fst e, fst (snd e))"

fun avl_spec_step :: "('k :: linorder) index_op \<Rightarrow> ('k \<times> physical_pos) list \<Rightarrow> ('k \<times> physical_pos) list" where
  "avl_spec_step (Add k p) m = (if k \<in> fst ` set m then m else put_new k p m)"
| "avl_spec_step (Remove k) m = filter (\<lambda>e. fst e \<noteq> k) m"

fun avl_step :: "('k :: linorder) index_op \<Rightarrow> 'k avl_index \<Rightarrow> 'k avl_index" where
  "avl_step (Add k p) s = fst (avl_add s k p)"
| "avl_step (Remove k) s = fst (avl_remove s k)"

text \<open>An addition that does not throw, and a removal that is not that of a root with less than two children.\<close>

fun avl_allows :: "('k :: linorder) avl_index \<Rightarrow> 'k index_op \<Rightarrow> bool" where
  "avl_allows s (Add k p) \<longleftrightarrow> \<not> isl (snd (avl_add s k p))"
| "avl_allows s (Remove k) \<longleftrightarrow> avl_guard s k"

inductive avl_reach :: "bool \<Rightarrow> ('k :: linorder) avl_index \<Rightarrow> 'k index_op list \<Rightarrow> bool" for pk where
  reach_created: "avl_reach pk (avl_created pk) []"
| reach_step: "avl_reach pk s ops \<Longrightarrow> avl_allows s a \<Longrightarrow> avl_reach pk (avl_step a s) (ops @ [a])"

lemma put_new_first_pos: "map first_pos (put_new k (p, d) m) = put_new k p (map first_pos m)"
  by (induction m) auto

lemma first_pos_filter: "map first_pos (filter (\<lambda>e. fst e \<noteq> k) m) = filter (\<lambda>e. fst e \<noteq> k) (map first_pos m)"
  by (induction m) auto

lemma search_tree_key_inj: "search_tree t \<Longrightarrow> (k, v) \<in> set_tree t \<Longrightarrow> (k, w) \<in> set_tree t \<Longrightarrow> v = w"
  using eq_key_imp_eq_value[of "inorder t" k v w] strict_sorted_iff[of "map fst (inorder t)"] by (simp add: search_tree_def)

lemma first_pos_set_entry:
  assumes "search_tree t" "(k, raw, dup) \<in> set_tree t"
  shows "map first_pos (inorder (map_tree (set_entry k (k, raw, d)) t)) = map first_pos (inorder t)"
proof -
  have "first_pos (set_entry k (k, raw, d) e) = first_pos e" if "e \<in> set (inorder t)" for e
    using search_tree_key_inj[OF assms(1), of k "(raw, dup)" "snd e"] assms(2) that
    by (cases e) (auto simp: set_entry_def)
  then show ?thesis by (simp add: inorder_map)
qed

lemma keys_first_pos: "fst ` set (map first_pos (inorder t)) = keys t"
  by (force simp: image_iff)

lemma avl_step_stored:
  assumes "avl_stored s t" "avl_allows s a"
  shows "\<exists>t'. avl_stored (avl_step a s) t' \<and>
    map first_pos (inorder t') = avl_spec_step a (map first_pos (inorder t)) \<and> is_pk (avl_step a s) = is_pk s"
proof (cases a)
  case (Add k p)
  show ?thesis
  proof (cases "k \<in> keys t")
    case False
    obtain s' where "avl_add s k p = (s', Inr [p])" "avl_stored s' (t_insert k (p, 0) t)" "is_pk s' = is_pk s"
      using avl_add_stored[OF assms(1) False] by blast
    then show ?thesis using False inorder_t_insert[OF avl_stored_search[OF assms(1)]] keys_first_pos[of t]
      by (intro exI[of _ "t_insert k (p, 0) t"]) (simp add: Add put_new_first_pos)
  next
    case True
    have "\<not> is_pk s" using assms(2) avl_add_refused[OF assms(1) True] by (auto simp: Add)
    from avl_add_dup_stored[OF assms(1) True this, of p] obtain s' raw dup where s': "avl_add s k p = (s', Inr [p])"
      "(k, raw, dup) \<in> set_tree t"
      "avl_stored s' (map_tree (set_entry k (k, raw, end_pos 0 sizeof_avn (dup_file s))) t)" "is_pk s' = is_pk s"
      by (elim exE conjE) (rule that)
    then show ?thesis using True keys_first_pos[of t] first_pos_set_entry[OF avl_stored_search[OF assms(1)] s'(2)]
      by (intro exI[of _ "map_tree (set_entry k (k, raw, end_pos 0 sizeof_avn (dup_file s))) t"]) (simp add: Add)
  qed
next
  case (Remove k)
  show ?thesis
  proof (cases "k \<in> keys t")
    case True
    have "avl_guard s k" using assms(2) Remove by simp
    from avl_remove_stored[OF assms(1) True this] obtain s' raw where
      "avl_remove s k = (s', Inr [raw])" "avl_stored s' (t_remove k t)" "is_pk s' = is_pk s"
      by (elim exE conjE) (rule that)
    moreover have "map first_pos (inorder (t_remove k t)) = avl_spec_step a (map first_pos (inorder t))"
      unfolding Remove avl_spec_step.simps inorder_t_remove[OF avl_stored_search[OF assms(1)] True] first_pos_filter ..
    ultimately show ?thesis by (intro exI[of _ "t_remove k t"]) (simp add: Remove)
  next
    case False
    obtain raw where "avl_remove s k = (avl_close (avl_open s), Inr [raw])" "avl_stored (avl_close (avl_open s)) t"
      using avl_remove_absent_stored[OF assms(1) False] by blast
    moreover have "map first_pos (inorder t) = avl_spec_step a (map first_pos (inorder t))"
      unfolding Remove avl_spec_step.simps first_pos_filter[symmetric] keys_filter[OF False] ..
    ultimately show ?thesis by (intro exI[of _ t]) (simp add: Remove, simp add: avl_close_def)
  qed
qed

text \<open>A chain of duplicates has no end.\<close>

lemma rawRecords_endless:
  assumes "\<forall>d\<in>set ds. dup_link (dup_pos d)"
  shows "dup_link (dup_pos x) \<Longrightarrow> rawRecords_loop n sizeof_avn ds x acc = Inl OutOfFuel"
proof (induction n arbitrary: x acc)
  case (Suc n)
  obtain i where i: "dup_pos x = slot_pos 0 sizeof_avn i" using Suc.prems by (auto simp: dup_link_def)
  show ?case
  proof (cases "i < length ds")
    case True
    then have "dup_link (dup_pos (ds ! i))" using assms by simp
    then show ?thesis using Suc.IH True by (simp add: i moveReadRecord_slot)
  next
    case False
    then have "moveReadRecord 0 sizeof_avn ds (slot_pos 0 sizeof_avn i) = Inl EndOfFile"
      using slot_pos_nonneg[of 0 sizeof_avn i] slot_pos_div_mod[of sizeof_avn 0 i] by (simp add: moveReadRecord_def)
    then show ?thesis using Suc.IH[OF Suc.prems] by (simp add: i)
  qed
qed simp

lemma avl_find_stored:
  assumes "avl_stored s t" "height t < n"
  shows "if k \<in> keys t then \<exists>x. avl_find n (avl_open s) (rootPointer (mem_header s)) k = Inr x \<and> entry x \<in> set_tree t \<and> data x = k
    else avl_find n (avl_open s) (rootPointer (mem_header s)) k = Inl RuntimeError"
proof -
  obtain P where P: "avl_holds (avl_open s) t P" using assms(1) by (rule avl_storedE)
  note h = avl_holdsD[OF P]
  show ?thesis
    using avl_find_at[OF h(4,6) assms(2), of k] tree_at_key[OF h(4)] unfolding avl_open_fields by (auto split: if_splits)
qed

lemma avl_height_keys:
  assumes "avl_tree t" "size t + 1 < 2 ^ d"
  shows "height t < 2 * d"
proof (rule ccontr)
  assume "\<not> height t < 2 * d"
  then have "2 ^ (2 * d div 2) \<le> size1 t" by (intro avl_min_size[OF assms(1)]) simp
  then show False using assms(2) by (simp add: size1_size)
qed

text \<open>The root with at most one child.\<close>

lemma avl_remove_root_stored:
  assumes "avl_stored s (Node l (k, raw, dup) r)" "l = Leaf \<or> r = Leaf"
  shows "\<exists>s' x. avl_remove s k = (s', Inr [raw]) \<and> \<not> stream_open s' \<and> rootPointer (mem_header s') = rootPointer (mem_header s) \<and>
    lastDelete (mem_header s') = rootPointer (mem_header s) \<and> avl_fetch (avl_open s') (rootPointer (mem_header s)) = Some x \<and>
    entry x = (k, raw, dup) \<and> rootPointer (mem_header s) \<noteq> - 1"
proof -
  let ?t = "Node l (k, raw, dup) r"
  obtain P where P: "avl_holds (avl_open s) ?t P" using assms(1) by (rule avl_storedE)
  note h = avl_holdsD[OF P, unfolded avl_open_fields]
  obtain x Pl Pr where x: "node_at (avl_fetch (avl_open s)) (rootPointer (mem_header s)) x l r Pl Pr" "(k, raw, dup) = entry x"
    "P = insert (rootPointer (mem_header s)) (Pl \<union> Pr)" "node_height x = int (max (height l) (height r))"
    using h(4) by (rule tree_at_NodeE)
  note n = node_atD[OF x(1)]
  let ?root = "rootPointer (mem_header s)" and ?ch = "if l = Leaf then rightChildren x else leftChildren x"
  have "parent_link (avl_open s) (- 1) undefined ?root (insert ?root (Pl \<union> Pr))" by (simp add: parent_link_def)
  note pl = this
  obtain s1 x1 where
    s1: "bind_io (avl_unlink (avl_open s) ?root (- 1) x ?ch) (\<lambda>(s1, x1).
        bind_io (avl_rebalance s1 ?root) (\<lambda>s2. Inr (s2, True, Some x1))) = Inr (s1, True, Some x1)"
      "entry x1 = entry x" "erased_tree (avl_open s) s1 (data x) ?root (- 1) (Node l (entry x) r) (insert ?root (Pl \<union> Pr)) ?ch ?root"
      "- 1 \<noteq> (- 1 :: int) \<longrightarrow> avl_fetch s1 (- 1) = Some (relink undefined ?root ?ch)"
      "avl_fetch s1 ?root = Some x1"
    by (rule erase_root[OF x(1,4) assms(2) h(5)[unfolded x(2)] pl refl])
  note er = erased_treeD(1)[OF s1(3)]
  have ch: "leftChildren x = - 1 \<longleftrightarrow> l = Leaf" "rightChildren x = - 1 \<longleftrightarrow> r = Leaf"
    using tree_at_root[OF n(4)] tree_at_root[OF n(5)] by auto
  have "avl_erase (avl_fuel s) (avl_open s) ?root (- 1) None k =
      bind_io (avl_unlink (avl_open s) ?root (- 1) x ?ch) (\<lambda>(s1, x1).
        bind_io (avl_rebalance s1 ?root) (\<lambda>s2. Inr (s2, True, Some x1)))"
    using n(1,2) x(2) ch assms(2) by (auto simp: avl_fuel_def avl_fetch_read bind_io_assoc case_prod_unfold)
  then have run: "avl_remove s k = (avl_close s1, Inr [raw])" using s1(1,2) x(2) by (simp add: avl_remove_def)
  have ok: "stream_open s1" "\<not> stream_failed s1" "mem_header s1 = (mem_header s)\<lparr>lastDelete := ?root\<rparr>"
    using er h(1,2) by (auto simp: erased_def)
  have "avl_fetch (avl_open (avl_close s1)) ?root = Some x1" using avl_reopen[OF ok(1,2)] s1(5) by simp
  then show ?thesis using run ok(3) s1(2) x(2) n(2)
    by (intro exI[of _ "avl_close s1"] exI[of _ x1]) (simp add: avl_close_def)
qed

section \<open>A concrete index\<close>

text \<open>The keys 20, 10, 30 and 25, added in this order.\<close>

definition avl_demo :: "int avl_index" where
  "avl_demo = fold (\<lambda>(k, p) s. fst (avl_add s k p)) [(20, 200), (10, 100), (30, 300), (25, 250)] (avl_created False)"

definition avl_demo_tree :: "(int, avl_value) avl_tree" where
  "avl_demo_tree = Node (Node Leaf (10, 100, 0) Leaf) (20, 200, 0) (Node (Node Leaf (25, 250, 0) Leaf) (30, 300, 0) Leaf)"

lemma avl_demo_stored: "avl_stored avl_demo avl_demo_tree" "is_pk avl_demo = False"
proof -
  have add: "avl_stored (fst (avl_add s k p)) (t_insert k (p, 0) t) \<and> is_pk (fst (avl_add s k p)) = is_pk s"
    if "avl_stored s t" "k \<notin> keys t" for s t and k :: int and p
    using avl_add_stored[OF that, of p] by auto
  have c: "avl_stored (avl_created False :: int avl_index) Leaf" "is_pk (avl_created False :: int avl_index) = False"
    by (simp_all add: avl_created_stored)
  have 1: "avl_stored (fst (avl_add (avl_created False) (20 :: int) 200)) (Node Leaf (20 :: int, 200, 0) Leaf)"
    using add[OF c(1), of "20 :: int" 200] by simp
  have 2: "avl_stored (fst (avl_add (fst (avl_add (avl_created False) (20 :: int) 200)) 10 100))
      (Node (Node Leaf (10, 100, 0) Leaf) (20, 200, 0) Leaf)"
    using add[OF 1, of "10 :: int" 100] by simp
  have 3: "avl_stored (fst (avl_add (fst (avl_add (fst (avl_add (avl_created False) (20 :: int) 200)) 10 100)) 30 300))
      (Node (Node Leaf (10, 100, 0) Leaf) (20, 200, 0) (Node Leaf (30, 300, 0) Leaf))"
    using add[OF 2, of "30 :: int" 300] by simp
  have 4: "avl_stored avl_demo avl_demo_tree"
    using add[OF 3, of "25 :: int" 250] by (simp add: avl_demo_def avl_demo_tree_def)
  show "avl_stored avl_demo avl_demo_tree" by (rule 4)
  show "is_pk avl_demo = False"
    using add[OF c(1), of "20 :: int" 200] add[OF 1, of "10 :: int" 100] add[OF 2, of "30 :: int" 300]
      add[OF 3, of "25 :: int" 250] c(2) by (simp add: avl_demo_def)
qed

lemma avl_demo_keys: "keys avl_demo_tree = {10, 20, 25, 30}"
  by (auto simp: avl_demo_tree_def)

lemma avl_demo_guard: "k \<noteq> 30 \<Longrightarrow> avl_guard avl_demo k"
  using avl_demo_stored(1) by (elim avl_storedE) (simp add: avl_guard_root avl_demo_tree_def)

lemma avl_demo_reach:
  "avl_reach False (avl_step (Remove 20) avl_demo) [Add 20 200, Add 10 100, Add 30 300, Add 25 250, Remove 20]"
proof -
  have ok: "avl_allows s (Add k p)" if "avl_stored s t" "is_pk s = False" for s t and k :: int and p
    using avl_add_stored[OF that(1), of k p] avl_add_dup_stored[OF that(1), of k p] that(2)
    by (cases "k \<in> keys t") (auto simp del: split_paired_Ex)
  have add: "avl_reach False (fst (avl_add s k p)) (ops @ [Add k p]) \<and> (\<exists>t'. avl_stored (fst (avl_add s k p)) t') \<and>
      is_pk (fst (avl_add s k p)) = False"
    if "avl_reach False s ops \<and> (\<exists>t. avl_stored s t) \<and> is_pk s = False" for s ops and k :: int and p
    using avl_step_stored[of s _ "Add k p"] reach_step[of False s ops "Add k p"] ok that by fastforce
  have "avl_reach False (avl_created False :: int avl_index) [] \<and> (\<exists>t. avl_stored (avl_created False :: int avl_index) t) \<and>
      is_pk (avl_created False :: int avl_index) = False"
    using avl_created_stored reach_created by blast
  from add[OF add[OF add[OF add[OF this, of 20 200], of 10 100], of 30 300], of 25 250]
  have "avl_reach False avl_demo [Add 20 200, Add 10 100, Add 30 300, Add 25 250]" by (simp add: avl_demo_def)
  from reach_step[OF this, of "Remove 20"] show ?thesis by (simp add: avl_demo_guard)
qed

section \<open>Properties\<close>

text \<open>
  C20: Every index that additions and removals reach from files that were not there, where no addition throws and no
  removal is that of a key at a root with less than two children, holds a balanced search tree whose keys, with the
  position of the first record of each, are the list of the specification after the same operations.
\<close>

theorem avl_reachable_refines:
  assumes "avl_reach pk s ops"
  shows "\<exists>t. avl_stored s t \<and> avl_tree t \<and> search_tree t \<and> map first_pos (inorder t) = fold avl_spec_step ops []"
proof -
  have "\<exists>t. avl_stored s t \<and> map first_pos (inorder t) = fold avl_spec_step ops []"
    using assms
  proof (induction rule: avl_reach.induct)
    case reach_created
    then show ?case using avl_created_stored(1) by fastforce
  next
    case (reach_step s ops a)
    then obtain t where t: "avl_stored s t" "map first_pos (inorder t) = fold avl_spec_step ops []" by blast
    from avl_step_stored[OF t(1) reach_step.hyps(2)] obtain t' where
      "avl_stored (avl_step a s) t'" "map first_pos (inorder t') = avl_spec_step a (map first_pos (inorder t))" by blast
    then show ?case using t(2) by auto
  qed
  then show ?thesis using avl_stored_search avl_stored_avl by blast
qed

theorem avl_reachable_refines_witness:
  "\<exists>t. avl_stored (avl_step (Remove 20) avl_demo) t \<and> map first_pos (inorder t) = [(10, 100), (25, 250), (30, 300)]"
proof -
  have "fold avl_spec_step [Add 20 200, Add 10 100, Add 30 300, Add 25 250, Remove (20 :: int)] [] =
      [(10, 100), (25, 250), (30, 300)]" by simp
  then show ?thesis using avl_reachable_refines[OF avl_demo_reach] by metis
qed

text \<open>
  C21: \<open>add\<close> of a new key, with its path of recursive calls, its slot from the list of erased ones, its rotations
  and its heights, leaves exactly the tree that the reference insertion makes, and returns the position.
\<close>

theorem avl_add_reference:
  assumes "avl_stored s t" "k \<notin> keys t"
  shows "snd (avl_add s k p) = Inr [p] \<and> avl_stored (fst (avl_add s k p)) (t_insert k (p, 0) t)"
  using avl_add_stored[OF assms, of p] by auto

theorem avl_add_reference_witness:
  "avl_stored (fst (avl_add avl_demo 27 270)) (t_insert 27 (270, 0) avl_demo_tree) \<and>
   t_insert 27 (270, 0) avl_demo_tree = Node (Node Leaf (10, 100, 0) Leaf) (20, 200, 0)
     (Node (Node Leaf (25, 250, 0) Leaf) (27, 270, 0) (Node Leaf (30, 300, 0) Leaf))"
proof -
  have "27 \<notin> keys avl_demo_tree" unfolding avl_demo_keys by simp
  then show ?thesis using avl_add_reference[OF avl_demo_stored(1), of 27 270] by (simp add: avl_demo_tree_def)
qed

text \<open>
  C22: \<open>remove\<close> of a key that is not at a root with less than two children returns the position of its first record and
  leaves the tree of the reference removal: the node before the key takes its place when it has two children; the
  keys are the old ones without it, in order, and the tree is balanced.
\<close>

theorem avl_remove_correct:
  assumes "avl_stored s t" "k \<in> keys t" "avl_guard s k"
  shows "\<exists>raw dup. (k, raw, dup) \<in> set_tree t \<and> snd (avl_remove s k) = Inr [raw] \<and>
    avl_stored (fst (avl_remove s k)) (t_remove k t) \<and> avl_tree (t_remove k t) \<and>
    inorder (t_remove k t) = filter (\<lambda>e. fst e \<noteq> k) (inorder t)"
proof -
  from avl_remove_stored[OF assms] obtain s' raw dup where "avl_remove s k = (s', Inr [raw])" "(k, raw, dup) \<in> set_tree t"
    "avl_stored s' (t_remove k t)"
    by (elim exE conjE) (rule that)
  then show ?thesis
    using inorder_t_remove[OF avl_stored_search[OF assms(1)] assms(2)] avl_stored_avl[of s' "t_remove k t"]
    by (intro exI[of _ raw] exI[of _ dup]) simp
qed

theorem avl_remove_correct_witness:
  "snd (avl_remove avl_demo 20) = Inr [200] \<and>
   avl_stored (fst (avl_remove avl_demo 20)) (Node (Node Leaf (10, 100, 0) Leaf) (25, 250, 0) (Node Leaf (30, 300, 0) Leaf))"
proof -
  have "20 \<in> keys avl_demo_tree" unfolding avl_demo_keys by simp
  from avl_remove_correct[OF avl_demo_stored(1) this avl_demo_guard] obtain raw dup where
    "(20, raw, dup) \<in> set_tree avl_demo_tree" "snd (avl_remove avl_demo 20) = Inr [raw]"
    "avl_stored (fst (avl_remove avl_demo 20)) (t_remove 20 avl_demo_tree)" by auto
  moreover have "t_remove 20 avl_demo_tree = Node (Node Leaf (10, 100, 0) Leaf) (25, 250, 0) (Node Leaf (30, 300, 0) Leaf)"
    by (simp add: avl_demo_tree_def t_remove_def set_entry_def)
  ultimately show ?thesis by (simp add: avl_demo_tree_def)
qed

text \<open>
  C23: No slot of the index file is lost or used twice: the slots of the nodes of the tree and those of the list of erased
  ones, which starts in the header, are disjoint and together all slots of the file.  A new key takes the first slot of
  the list, or, when the list is empty, a new one at the end of the file; that slot leaves the list and joins the
  tree.  A removal, except that of a root with less than two children, moves one slot of the tree to the front of the
  list.
\<close>

theorem avl_slots_kept:
  assumes "avl_stored s t"
  shows "\<exists>P F. avl_slots s t P F \<and>
    (k \<notin> keys t \<longrightarrow> (let s' = fst (avl_add s k p);
         q = (if F = {} then end_pos sizeof_avh sizeof_avn (node_file s) else lastDelete (mem_header s)) in
       q \<notin> P \<and> (F \<noteq> {} \<longrightarrow> q \<in> F) \<and> avl_slots s' (t_insert k (p, 0) t) (insert q P) (F - {q}))) \<and>
    (k \<in> keys t \<and> avl_guard s k \<longrightarrow> (let s' = fst (avl_remove s k); q = lastDelete (mem_header s') in
       q \<in> P \<and> avl_slots s' (t_remove k t) (P - {q}) (insert q F)))"
proof -
  let ?slots = "\<lambda>n. slot_pos sizeof_avh sizeof_avn ` {..<n}" and ?n = "length (node_file s)"
  obtain P where P: "avl_holds (avl_open s) t P" using assms by (rule avl_storedE)
  define F where "F = ?slots ?n - P"
  have slots: "avl_slots s t P F" by (rule avl_holds_slots[OF P F_def])
  then have free: "free_slots (avl_open s) F" and sub: "P \<subseteq> ?slots ?n" by (auto simp: avl_slots_def)
  have nfail: "\<not> stream_failed (avl_open s)" by (rule avl_holdsD(2)[OF P])
  define q where "q = (if F = {} then end_pos sizeof_avh sizeof_avn (node_file s) else lastDelete (mem_header s))"
  have new: "q = new_pos (avl_open s)" using free_slots_empty(1)[OF free] by (simp add: q_def new_pos_def)
  have q: "q \<notin> P" "F \<noteq> {} \<longrightarrow> q \<in> F"
    using avl_holds_new_pos(2)[OF P] free_slots_empty(2)[OF free] unfolding new[symmetric] by (simp_all add: q_def)
  have add: "avl_slots (fst (avl_add s k p)) (t_insert k (p, 0) t) (insert q P) (F - {q})" if k: "k \<notin> keys t"
  proof -
    obtain s' where s': "avl_add s k p = (avl_close s', Inr [p])" "avl_holds s' (t_insert k (p, 0) t) (insert q P)"
      "length (node_file s') = ?n + (if lastDelete (mem_header s) = - 1 then 1 else 0)"
      unfolding new by (rule avl_add_holds[OF P k])
    have "?slots (length (node_file s')) = insert q (?slots ?n)"
      using q(2) free_slots_empty(1)[OF free] by (auto simp: s'(3) F_def q_def end_pos_def lessThan_Suc)
    then show ?thesis using s'(1) avl_reopen[of s'] avl_holdsD(1,2)[OF s'(2)] s'(2)
      by (auto simp: avl_close_def F_def intro!: avl_holds_slots)
  qed
  have remove: "lastDelete (mem_header (fst (avl_remove s k))) \<in> P \<and> avl_slots (fst (avl_remove s k)) (t_remove k t)
      (P - {lastDelete (mem_header (fst (avl_remove s k)))}) (insert (lastDelete (mem_header (fst (avl_remove s k)))) F)"
    if k: "k \<in> keys t" "avl_guard s k"
  proof -
    obtain s' raw dup where s': "avl_remove s k = (avl_close s', Inr [raw])" "lastDelete (mem_header s') \<in> P"
      "avl_holds s' (t_remove k t) (P - {lastDelete (mem_header s')})" "length (node_file s') = ?n"
      by (rule avl_remove_holds[OF P k])
    then show ?thesis using avl_reopen[of s'] avl_holdsD(1,2)[OF s'(3)] sub
      by (auto simp: avl_close_def F_def intro!: avl_holds_slots)
  qed
  have "avl_slots s t P F \<and> (k \<notin> keys t \<longrightarrow> q \<notin> P \<and> (F \<noteq> {} \<longrightarrow> q \<in> F) \<and>
      avl_slots (fst (avl_add s k p)) (t_insert k (p, 0) t) (insert q P) (F - {q})) \<and>
    (k \<in> keys t \<and> avl_guard s k \<longrightarrow> lastDelete (mem_header (fst (avl_remove s k))) \<in> P \<and>
      avl_slots (fst (avl_remove s k)) (t_remove k t) (P - {lastDelete (mem_header (fst (avl_remove s k)))})
        (insert (lastDelete (mem_header (fst (avl_remove s k)))) F))"
    using slots q add remove by blast
  then show ?thesis unfolding q_def Let_def by blast
qed

theorem avl_slots_kept_witness:
  "(\<exists>P. avl_slots avl_demo avl_demo_tree P {} \<and>
      avl_slots (fst (avl_add avl_demo 27 270)) (t_insert 27 (270, 0) avl_demo_tree)
        (insert (end_pos sizeof_avh sizeof_avn (node_file avl_demo)) P) {}) \<and>
   (\<exists>P q. q \<in> P \<and> avl_slots avl_demo avl_demo_tree P {} \<and>
      avl_slots (fst (avl_remove avl_demo 20)) (t_remove 20 avl_demo_tree) (P - {q}) {q})"
proof -
  have last: "lastDelete (mem_header avl_demo) = - 1" by code_simp
  have none: "F = {}" if "avl_slots avl_demo avl_demo_tree P F" for P F
    using that free_slots_empty(1)[of "avl_open avl_demo" F] last by (simp add: avl_slots_def)
  have "27 \<notin> keys avl_demo_tree" "20 \<in> keys avl_demo_tree" unfolding avl_demo_keys by simp_all
  moreover have "avl_guard avl_demo 20" by (rule avl_demo_guard) simp
  moreover obtain P F where "avl_slots avl_demo avl_demo_tree P F" "27 \<notin> keys avl_demo_tree \<longrightarrow> (let s' = fst (avl_add avl_demo 27 270);
       q = (if F = {} then end_pos sizeof_avh sizeof_avn (node_file avl_demo) else lastDelete (mem_header avl_demo)) in
      q \<notin> P \<and> (F \<noteq> {} \<longrightarrow> q \<in> F) \<and> avl_slots s' (t_insert 27 (270, 0) avl_demo_tree) (insert q P) (F - {q}))"
    using avl_slots_kept[OF avl_demo_stored(1), of 27 270] by (elim exE conjE) (rule that)
  moreover obtain P' F' where "avl_slots avl_demo avl_demo_tree P' F'" "20 \<in> keys avl_demo_tree \<and> avl_guard avl_demo 20 \<longrightarrow>
      (let s' = fst (avl_remove avl_demo 20); q = lastDelete (mem_header s') in
      q \<in> P' \<and> avl_slots s' (t_remove 20 avl_demo_tree) (P' - {q}) (insert q F'))"
    using avl_slots_kept[OF avl_demo_stored(1), of 20 0] by (elim exE conjE) (rule that)
  ultimately show ?thesis using none[of P F] none[of P' F'] by (auto simp: Let_def)
qed

text \<open>
  C24: \<open>search\<close> reads at most \<open>2 * d\<close> nodes to find the node of a key, when the tree has less than \<open>2 ^ d - 1\<close> keys: the fuel
  is one for each node that is read.
\<close>

theorem avl_find_logarithmic:
  assumes "avl_stored s t" "size t + 1 < 2 ^ d" "k \<in> keys t"
  shows "\<exists>x. avl_find (2 * d) (avl_open s) (rootPointer (mem_header s)) k = Inr x \<and> data x = k \<and> entry x \<in> set_tree t"
  using avl_find_stored[OF assms(1) avl_height_keys[OF avl_stored_avl[OF assms(1)] assms(2)], of k] assms(3) by auto

theorem avl_find_logarithmic_witness:
  "\<exists>x. avl_find 6 (avl_open avl_demo) (rootPointer (mem_header avl_demo)) 25 = Inr x \<and> raw_pos x = 250"
proof -
  have "size avl_demo_tree + 1 < 2 ^ 3" by (simp add: avl_demo_tree_def)
  from avl_find_logarithmic[OF avl_demo_stored(1) this, of 25] show ?thesis by (auto simp: avl_demo_tree_def)
qed

text \<open>
  C25: \<open>search\<close> of a key that is in the index finds its node and then never returns: the chain of duplicates starts with
  position 0, not - 1, and no link of it is ever - 1, so that no number of steps ends the loop.  For a key that is
  not there it throws, and leaves the stream open.
\<close>

theorem avl_search_endless:
  assumes "avl_stored s t"
  shows "if k \<in> keys t then snd (avl_search s k) = Inl OutOfFuel \<and>
      (\<exists>x. avl_find (avl_fuel s) (avl_open s) (rootPointer (mem_header s)) k = Inr x \<and>
        (\<forall>n acc. rawRecords_loop n sizeof_avn (dup_file s) x acc = Inl OutOfFuel))
    else avl_search s k = (avl_open s, Inl RuntimeError)"
proof -
  obtain P where P: "avl_holds (avl_open s) t P" using assms by (rule avl_storedE)
  note h = avl_holdsD[OF P, unfolded avl_open_fields]
  have fuel: "height t < avl_fuel s" using avl_stored_height[OF assms] by simp
  show ?thesis
  proof (cases "k \<in> keys t")
    case True
    then obtain x where x: "avl_find (avl_fuel s) (avl_open s) (rootPointer (mem_header s)) k = Inr x"
      "entry x \<in> set_tree t" using avl_find_stored[OF assms fuel, of k] by auto
    have "dup_link (dup_pos x)" using h(9)[OF x(2)] by simp
    then have loop: "rawRecords_loop n sizeof_avn (dup_file s) x acc = Inl OutOfFuel" for n acc
      using h(10) by (intro rawRecords_endless) simp
    then have "avl_raw_records (avl_open s) x [] = Inl OutOfFuel"
      by (simp only: avl_raw_records_def getAllRawCurrentRecords_def avl_open_fields)
    then show ?thesis using True x(1) loop by (auto simp: avl_search_def)
  next
    case False
    then show ?thesis using avl_find_stored[OF assms fuel, of k] by (simp add: avl_search_def)
  qed
qed

theorem avl_search_endless_witness:
  "snd (avl_search avl_demo 25) = Inl OutOfFuel \<and> snd (avl_search avl_demo 7) = Inl RuntimeError"
  using avl_search_endless[OF avl_demo_stored(1), of 25] avl_search_endless[OF avl_demo_stored(1), of 7]
  by (simp add: avl_demo_keys)

text \<open>
  C26: \<open>remove\<close> of the key at a root with less than two children returns its position, but the header still points to
  the erased node: the key is still found, and the slot of the root is the first one of the list of erased slots, so
  that the next new key is written over the root.
\<close>

theorem avl_remove_root_stays:
  assumes "avl_stored s (Node l (k, raw, dup) r)" "l = Leaf \<or> r = Leaf"
  shows "\<exists>s' x. avl_remove s k = (s', Inr [raw]) \<and> rootPointer (mem_header s') = rootPointer (mem_header s) \<and>
    avl_find 1 (avl_open s') (rootPointer (mem_header s')) k = Inr x \<and> data x = k \<and> raw_pos x = raw \<and>
    lastDelete (mem_header s') = rootPointer (mem_header s')"
proof -
  from avl_remove_root_stored[OF assms] obtain s' x where s': "avl_remove s k = (s', Inr [raw])"
    "rootPointer (mem_header s') = rootPointer (mem_header s)" "lastDelete (mem_header s') = rootPointer (mem_header s)"
    "avl_fetch (avl_open s') (rootPointer (mem_header s)) = Some x" "entry x = (k, raw, dup)" "rootPointer (mem_header s) \<noteq> - 1"
    by (elim exE conjE) (rule that)
  then have "avl_find 1 (avl_open s') (rootPointer (mem_header s')) k = Inr x" by (simp add: avl_fetch_read)
  with s' show ?thesis by (intro exI[of _ s'] exI[of _ x]) simp
qed

theorem avl_remove_root_stays_witness:
  "\<exists>s' x. avl_remove (fst (avl_add (avl_created False) (7 :: int) 70)) 7 = (s', Inr [70]) \<and>
     avl_find 1 (avl_open s') (rootPointer (mem_header s')) 7 = Inr x \<and> data x = 7"
proof -
  have "avl_stored (fst (avl_add (avl_created False) (7 :: int) 70)) (Node Leaf (7, 70, 0) Leaf)"
    using avl_add_stored[OF avl_created_stored(1)[of False], of "7 :: int" 70] by auto
  from avl_remove_root_stays[OF this] show ?thesis by blast
qed

end
