(* ===== verification/IsamModel.thy ===== *)
theory IsamModel
  imports RecordFile "HOL-Library.Multiset"
begin

text \<open>
  The ISAM index (\<open>libs/Indexes/ISAM\<close>), as written: three levels of index pages in one file, which are built
  once, and chains of data pages in another one; the pages point to each other by their byte positions.
  A data page is memory for three records with a counter; \<open>DataPage()\<close> reserves it, so the contents of the memory of a new
  page are a parameter (\<open>mem\<close>), and the records are read and written there without a check of the counter.
\<close>

section \<open>Data\<close>

record 'k isam_record =
  ir_key :: 'k
  ir_pos :: physical_pos
  ir_dup_pos :: physical_pos

record 'k data_page =
  dp_records :: "'k isam_record list"
  dp_next :: physical_pos
  dp_count :: int

record 'k index_page =
  ip_keys :: "'k list"
  ip_children :: "physical_pos list"
  ip_isLeaf :: bool

record isam_metadata =
  index_page_capacity :: int
  data_page_capacity :: int
  root_position :: physical_pos

text \<open>The index: its metadata and root in the object, and the contents of its three files.\<close>

record 'k isam =
  metadata :: isam_metadata
  root :: physical_pos
  idx_file :: "'k index_page list"
  dt_file :: "'k data_page list"
  dp_file :: "'k isam_record list"
  isam_PK :: bool

definition new_isam_record :: "'k \<Rightarrow> physical_pos \<Rightarrow> 'k isam_record" where
  "new_isam_record k p = \<lparr>ir_key = k, ir_pos = p, ir_dup_pos = - 1\<rparr>"

text \<open>Reading and writing an element of an array; outside of it nothing is defined.\<close>

definition cell :: "'a list \<Rightarrow> int \<Rightarrow> 'a io" where
  "cell xs i = (if 0 \<le> i \<and> nat i < length xs then Inr (xs ! nat i) else Inl Uninitialised)"

definition set_cell :: "'a list \<Rightarrow> int \<Rightarrow> 'a \<Rightarrow> 'a list io" where
  "set_cell xs i x = (if 0 \<le> i \<and> nat i < length xs then Inr (xs[nat i := x]) else Inl Uninitialised)"

section \<open>Data pages\<close>

definition dp_getCapacity :: int where
  "dp_getCapacity = 3"

text \<open>Two positions of 16 bytes and the records; a record has 40 bytes for \<open>KeyType = int\<close> on x86-64.\<close>

definition sizeof_isam_record :: int where
  "sizeof_isam_record = 40"

definition dp_size_of :: int where
  "dp_size_of = 16 + 16 + sizeof_isam_record * dp_getCapacity"

definition new_data_page :: "'k isam_record list \<Rightarrow> 'k data_page" where
  "new_data_page mem = \<lparr>dp_records = mem, dp_next = - 1, dp_count = 0\<rparr>"

definition dp_isFull :: "'k data_page \<Rightarrow> bool" where
  "dp_isFull p \<longleftrightarrow> dp_count p = dp_getCapacity"

definition dp_isEmpty :: "'k data_page \<Rightarrow> bool" where
  "dp_isEmpty p \<longleftrightarrow> dp_count p = 0"

definition dp_getRecord :: "'k data_page \<Rightarrow> int \<Rightarrow> 'k isam_record io" where
  "dp_getRecord p i = cell (dp_records p) i"

definition dp_getKey :: "'k data_page \<Rightarrow> int \<Rightarrow> 'k io" where
  "dp_getKey p i = bind_io (cell (dp_records p) i) (\<lambda>r. Inr (ir_key r))"

definition dp_setRecord :: "'k data_page \<Rightarrow> 'k isam_record \<Rightarrow> int \<Rightarrow> 'k data_page io" where
  "dp_setRecord p r i = bind_io (set_cell (dp_records p) i r) (\<lambda>rs. Inr (p\<lparr>dp_records := rs, dp_count := dp_count p + 1\<rparr>))"

definition dp_setNext :: "'k data_page \<Rightarrow> physical_pos \<Rightarrow> 'k data_page" where
  "dp_setNext p n = p\<lparr>dp_next := n\<rparr>"

definition dp_last :: "'k data_page \<Rightarrow> 'k isam_record io" where
  "dp_last p = cell (dp_records p) (dp_count p - 1)"

definition dp_clearRecord :: "'k :: linordered_idom data_page \<Rightarrow> int \<Rightarrow> 'k data_page io" where
  "dp_clearRecord p i =
     bind_io (set_cell (dp_records p) i \<lparr>ir_key = - 1, ir_pos = - 1, ir_dup_pos = - 1\<rparr>)
       (\<lambda>rs. Inr (p\<lparr>dp_records := rs, dp_count := dp_count p - 1\<rparr>))"

text \<open>\<open>remove\<close>: the records behind move one place down; \<open>n\<close> counts those that are left to move.\<close>

fun dp_remove_loop :: "nat \<Rightarrow> 'k data_page \<Rightarrow> int \<Rightarrow> ('k data_page \<times> int) io" where
  "dp_remove_loop 0 p j = Inr (p, j)"
| "dp_remove_loop (Suc n) p j =
     bind_io (dp_getRecord p j) (\<lambda>r.
     bind_io (dp_setRecord p r (j - 1)) (\<lambda>p1.
     dp_remove_loop n (p1\<lparr>dp_count := dp_count p1 - 1\<rparr>) (j + 1)))"

definition dp_remove :: "'k :: linordered_idom data_page \<Rightarrow> int \<Rightarrow> 'k data_page io" where
  "dp_remove p i =
     (let blank = \<lparr>ir_key = 0, ir_pos = - 1, ir_dup_pos = - 1\<rparr> in
      if i < 0 \<or> i \<ge> dp_count p then Inl RuntimeError
      else bind_io
        (if i = dp_count p - 1 then
           bind_io (set_cell (dp_records p) i blank) (\<lambda>rs. Inr (p\<lparr>dp_records := rs\<rparr>))
         else
           bind_io (dp_remove_loop (nat (dp_count p - (i + 1))) p (i + 1)) (\<lambda>(p1, j).
           bind_io (set_cell (dp_records p1) (j - 1) blank) (\<lambda>rs. Inr (p1\<lparr>dp_records := rs\<rparr>))))
        (\<lambda>p2. Inr (p2\<lparr>dp_count := dp_count p2 - 1\<rparr>)))"

text \<open>
  \<open>insertRecord\<close>: \<open>n\<close> is the value of \<open>j\<close>.  The key that is compared first is that of the record
  behind the last one.
\<close>

fun dp_insert_loop :: "nat \<Rightarrow> 'k :: linordered_idom data_page \<Rightarrow> 'k isam_record \<Rightarrow> ('k data_page \<times> int) io" where
  "dp_insert_loop 0 p record = Inr (p, 0)"
| "dp_insert_loop (Suc n) p record =
     bind_io (dp_getKey p (int (Suc n))) (\<lambda>k.
     if ir_key record < k then
       bind_io (dp_getRecord p (int n)) (\<lambda>r.
       bind_io (dp_setRecord p r (int n + 1)) (\<lambda>p1.
       dp_insert_loop n (p1\<lparr>dp_count := dp_count p1 - 1\<rparr>) record))
     else Inr (p, int (Suc n)))"

definition dp_insertRecord :: "'k :: linordered_idom data_page \<Rightarrow> 'k isam_record \<Rightarrow> 'k data_page io" where
  "dp_insertRecord p record =
     (if dp_isFull p then Inl RuntimeError
      else if dp_count p = 0 then dp_setRecord p record 0
      else bind_io (dp_insert_loop (nat (dp_count p)) p record) (\<lambda>(p1, j). dp_setRecord p1 record j))"

section \<open>Index pages\<close>

definition ip_getCapacity :: int where
  "ip_getCapacity = 2"

text \<open>The capacity keys, one more position and a byte; \<open>mem\<close> is the memory of the keys, positions start as 0.\<close>

definition ip_size_of :: int where
  "ip_size_of = 4 * ip_getCapacity + 16 * (ip_getCapacity + 1) + 1"

definition new_index_page :: "'k list \<Rightarrow> 'k index_page" where
  "new_index_page mem = \<lparr>ip_keys = mem, ip_children = replicate (nat ip_getCapacity + 1) 0, ip_isLeaf = False\<rparr>"

definition ip_setKey :: "'k index_page \<Rightarrow> 'k \<Rightarrow> int \<Rightarrow> 'k index_page io" where
  "ip_setKey p k i = bind_io (set_cell (ip_keys p) i k) (\<lambda>ks. Inr (p\<lparr>ip_keys := ks\<rparr>))"

definition ip_setChild :: "'k index_page \<Rightarrow> physical_pos \<Rightarrow> int \<Rightarrow> 'k index_page io" where
  "ip_setChild p c i = bind_io (set_cell (ip_children p) i c) (\<lambda>cs. Inr (p\<lparr>ip_children := cs\<rparr>))"

definition ip_setIsLeaf :: "'k index_page \<Rightarrow> bool \<Rightarrow> 'k index_page" where
  "ip_setIsLeaf p leaf = p\<lparr>ip_isLeaf := leaf\<rparr>"

definition ip_getkey :: "'k index_page \<Rightarrow> int \<Rightarrow> 'k io" where
  "ip_getkey p i = cell (ip_keys p) i"

definition ip_getChild :: "'k index_page \<Rightarrow> int \<Rightarrow> physical_pos io" where
  "ip_getChild p i = cell (ip_children p) i"

text \<open>
  The loop that finds the child to go down to; \<open>go\<close> is the test on the key and \<open>n\<close> the number of keys left.
\<close>

fun ip_descend :: "nat \<Rightarrow> ('k \<Rightarrow> bool) \<Rightarrow> 'k index_page \<Rightarrow> int \<Rightarrow> int io" where
  "ip_descend 0 go p index = Inr index"
| "ip_descend (Suc n) go p index =
     bind_io (ip_getkey p index) (\<lambda>k. if go k then ip_descend n go p (index + 1) else Inr index)"

section \<open>The files\<close>

lemma isam_sizes [simp]: "0 < dp_size_of" "0 < ip_size_of" "dp_size_of \<noteq> 0" "ip_size_of \<noteq> 0"
  by (simp_all add: dp_size_of_def sizeof_isam_record_def dp_getCapacity_def ip_size_of_def ip_getCapacity_def)

definition idx_read :: "'k isam \<Rightarrow> physical_pos \<Rightarrow> 'k index_page io" where
  "idx_read s p = moveReadRecord 0 ip_size_of (idx_file s) p"

definition dt_read :: "'k isam \<Rightarrow> physical_pos \<Rightarrow> 'k data_page io" where
  "dt_read s p = moveReadRecord 0 dp_size_of (dt_file s) p"

definition dt_write :: "'k isam \<Rightarrow> physical_pos \<Rightarrow> 'k data_page \<Rightarrow> 'k isam io" where
  "dt_write s p page = bind_io (moveWriteRecord 0 dp_size_of (dt_file s) p page) (\<lambda>ps. Inr (s\<lparr>dt_file := ps\<rparr>))"

text \<open>\<open>DataPage::write\<close> and \<open>IndexPage::write\<close> at the end of their file, with the position.\<close>

definition dt_append :: "'k isam \<Rightarrow> 'k data_page \<Rightarrow> 'k isam \<times> physical_pos" where
  "dt_append s page = (s\<lparr>dt_file := dt_file s @ [page]\<rparr>, end_pos 0 dp_size_of (dt_file s))"

definition idx_append :: "'k isam \<Rightarrow> 'k index_page \<Rightarrow> 'k isam \<times> physical_pos" where
  "idx_append s page = (s\<lparr>idx_file := idx_file s @ [page]\<rparr>, end_pos 0 ip_size_of (idx_file s))"

text \<open>
  \<open>Metadata()\<close>: the metadata of its file, or the default one, which is written; the second component is the file.
\<close>

definition metadata_init :: "isam_metadata option \<Rightarrow> isam_metadata \<times> isam_metadata option" where
  "metadata_init f =
     (case f of
        Some m \<Rightarrow> (m, f)
      | None \<Rightarrow> let m = \<lparr>index_page_capacity = ip_getCapacity, data_page_capacity = dp_getCapacity, root_position = 0\<rparr>
                in (m, Some m))"

text \<open>
  The constructor.  \<open>files\<close> are the files of the index if its directory is there; the root is - 1 in any case.
\<close>

definition new_isam ::
  "isam_metadata option \<Rightarrow> ('k index_page list \<times> 'k data_page list \<times> 'k isam_record list) option \<Rightarrow> bool \<Rightarrow> 'k isam" where
  "new_isam meta files pk =
     (let (is, ds, dups) = (case files of None \<Rightarrow> ([], [], []) | Some f \<Rightarrow> f) in
      \<lparr>metadata = fst (metadata_init meta), root = - 1, idx_file = is, dt_file = ds, dp_file = dups, isam_PK = pk\<rparr>)"

section \<open>Duplicates\<close>

definition isam_insertDuplicateFile :: "'k isam \<Rightarrow> 'k isam_record \<Rightarrow> 'k isam \<times> physical_pos" where
  "isam_insertDuplicateFile s rec = (s\<lparr>dp_file := dp_file s @ [rec]\<rparr>, end_pos 0 sizeof_isam_record (dp_file s))"

text \<open>\<open>insertDuplicate\<close>: the state, and the record of the page with its new link.\<close>

definition isam_insertDuplicate :: "'k isam \<Rightarrow> 'k isam_record \<Rightarrow> 'k isam_record \<Rightarrow> 'k isam \<times> 'k isam_record" where
  "isam_insertDuplicate s rec rec_dup =
     (let (s1, duplicate_position) = isam_insertDuplicateFile s (rec_dup\<lparr>ir_dup_pos := ir_dup_pos rec\<rparr>)
      in (s1, rec\<lparr>ir_dup_pos := duplicate_position\<rparr>))"

text \<open>
  \<open>getAllRawCurrentRecords\<close>; a read at the end of the file leaves the record as it was.  The bound is
  one more than the length of the file: a longer run meets a record twice and never ends.
\<close>

fun isam_raw_loop :: "nat \<Rightarrow> 'k isam_record list \<Rightarrow> 'k isam_record \<Rightarrow> physical_pos list \<Rightarrow> physical_pos list io" where
  "isam_raw_loop 0 dups rec records = Inl OutOfFuel"
| "isam_raw_loop (Suc n) dups rec records =
     (if ir_dup_pos rec \<noteq> - 1 then
        (case moveReadRecord 0 sizeof_isam_record dups (ir_dup_pos rec) of
           Inr rec' \<Rightarrow> isam_raw_loop n dups rec' (records @ [ir_pos rec'])
         | Inl EndOfFile \<Rightarrow> isam_raw_loop n dups rec (records @ [ir_pos rec])
         | Inl e \<Rightarrow> Inl e)
      else Inr records)"

definition isam_raw_records :: "'k isam \<Rightarrow> 'k isam_record \<Rightarrow> physical_pos list \<Rightarrow> physical_pos list io" where
  "isam_raw_records s rec records =
     isam_raw_loop (Suc (length (dp_file s))) (dp_file s) rec (records @ [ir_pos rec])"

end
