(* ===== verification/IsamOps.thy ===== *)
theory IsamOps
  imports IsamModel
begin

text \<open>
  The operations of the ISAM index (\<open>ISAM.cpp\<close>).  \<open>mem\<close> and \<open>kmem\<close> are the contents of the memory of a new data page and
  of the keys of a new index page.  A loop along a chain of pages gets one step for each page of the file: a
  longer run meets a page twice and never ends.  The streams of an index are members of it and are closed at
  the end of each operation; the operations throw only before they open them.
\<close>

section \<open>Search\<close>

text \<open>The first record of a page with the key; \<open>n\<close> counts the records that are left.\<close>

fun dp_find :: "nat \<Rightarrow> 'k data_page \<Rightarrow> 'k \<Rightarrow> int \<Rightarrow> int option io" where
  "dp_find 0 page key i = Inr None"
| "dp_find (Suc n) page key i =
     bind_io (dp_getKey page i) (\<lambda>k. if k = key then Inr (Some i) else dp_find n page key (i + 1))"

fun isam_search_chain :: "nat \<Rightarrow> 'k isam \<Rightarrow> physical_pos \<Rightarrow> 'k \<Rightarrow> physical_pos list \<Rightarrow> physical_pos list io" where
  "isam_search_chain 0 s data_pos key result = Inl OutOfFuel"
| "isam_search_chain (Suc n) s data_pos key result =
     bind_io (dt_read s data_pos) (\<lambda>page.
     bind_io (dp_find (nat (dp_count page)) page key 0) (\<lambda>found.
     case found of
       Some i \<Rightarrow> bind_io (dp_getRecord page i) (\<lambda>r. isam_raw_records s r result)
     | None \<Rightarrow> if dp_next page \<noteq> - 1 then isam_search_chain n s (dp_next page) key result else Inr result))"

abbreviation dt_fuel :: "'k isam \<Rightarrow> nat" where
  "dt_fuel s \<equiv> Suc (length (dt_file s))"

abbreviation idx_fuel :: "'k isam \<Rightarrow> nat" where
  "idx_fuel s \<equiv> Suc (length (idx_file s))"

fun isam_search_node :: "nat \<Rightarrow> ('k :: linorder) isam \<Rightarrow> physical_pos \<Rightarrow> 'k \<Rightarrow> physical_pos list \<Rightarrow> physical_pos list io" where
  "isam_search_node 0 s node_pos key result = Inl OutOfFuel"
| "isam_search_node (Suc n) s node_pos key result =
     bind_io (idx_read s node_pos) (\<lambda>node.
     bind_io (ip_descend (nat (index_page_capacity (metadata s))) (\<lambda>k. k \<le> key) node 0) (\<lambda>index.
     bind_io (ip_getChild node index) (\<lambda>child.
     if ip_isLeaf node then isam_search_chain (dt_fuel s) s child key result
     else isam_search_node n s child key result)))"

definition isam_search :: "('k :: linorder) isam \<Rightarrow> 'k \<Rightarrow> physical_pos list io" where
  "isam_search s key =
     (if root s = - 1 then Inl RuntimeError else isam_search_node (idx_fuel s) s (root s) key [])"

section \<open>Insertion\<close>

text \<open>The new page at the end of the file, which becomes the next one of \<open>page\<close> at \<open>prev_pos\<close>.\<close>

definition isam_create_page ::
  "'k isam_record list \<Rightarrow> 'k isam \<Rightarrow> physical_pos \<Rightarrow> 'k data_page \<Rightarrow> 'k isam_record \<Rightarrow> 'k isam io" where
  "isam_create_page mem s prev_pos page record =
     bind_io (dp_setRecord (new_data_page mem) record 0) (\<lambda>new_page.
     let (s1, new_pos) = dt_append s new_page in
     dt_write s1 prev_pos (dp_setNext page new_pos))"

fun split_index :: "nat \<Rightarrow> ('k :: linorder) data_page \<Rightarrow> 'k \<Rightarrow> nat io" where
  "split_index 0 page key = Inr 0"
| "split_index (Suc n) page key =
     bind_io (dp_getKey page (int (Suc n))) (\<lambda>k. if key < k then split_index n page key else Inr (Suc n))"

fun split_move ::
  "nat \<Rightarrow> 'k :: linordered_idom data_page \<Rightarrow> 'k data_page \<Rightarrow> int \<Rightarrow> int \<Rightarrow> ('k data_page \<times> 'k data_page) io" where
  "split_move 0 page new_page i j = Inr (page, new_page)"
| "split_move (Suc n) page new_page i j =
     bind_io (dp_getRecord page i) (\<lambda>r.
     bind_io (dp_setRecord new_page r j) (\<lambda>new_page1.
     bind_io (dp_clearRecord page i) (\<lambda>page1. split_move n page1 new_page1 (i + 1) (j + 1))))"

definition splitAndInsert ::
  "'k :: linordered_idom isam_record list \<Rightarrow> 'k isam \<Rightarrow> 'k data_page \<Rightarrow> 'k isam_record \<Rightarrow> ('k isam \<times> 'k data_page) io" where
  "splitAndInsert mem s page record =
     (let half = dp_getCapacity div 2 in
      bind_io (split_index (nat (dp_count page - 1)) page (ir_key record)) (\<lambda>index.
      bind_io (split_move (nat (dp_getCapacity - half)) page (dp_setNext (new_data_page mem) (dp_next page)) half 0)
        (\<lambda>(page1, new_page).
      bind_io (if int index < half then bind_io (dp_insertRecord page1 record) (\<lambda>page2. Inr (page2, new_page))
               else bind_io (dp_insertRecord new_page record) (\<lambda>new_page2. Inr (page1, new_page2)))
        (\<lambda>(page2, new_page2).
      let (s1, pos) = dt_append s new_page2 in Inr (s1, dp_setNext page2 pos)))))"

text \<open>What happens in a page whose last key is not smaller.\<close>

definition isam_insert_in_page ::
  "'k :: linordered_idom isam_record list \<Rightarrow> 'k isam \<Rightarrow> physical_pos \<Rightarrow> 'k data_page \<Rightarrow> 'k isam_record \<Rightarrow> 'k isam io" where
  "isam_insert_in_page mem s data_pos page record =
     bind_io (dp_find (nat (dp_count page)) page (ir_key record) 0) (\<lambda>found.
     case found of
       Some i \<Rightarrow>
         bind_io (dp_getRecord page i) (\<lambda>r.
         let (s1, r1) = isam_insertDuplicate s r record in
         bind_io (set_cell (dp_records page) i r1) (\<lambda>rs. dt_write s1 data_pos (page\<lparr>dp_records := rs\<rparr>)))
     | None \<Rightarrow>
         if dp_isFull page then bind_io (splitAndInsert mem s page record) (\<lambda>(s1, page1). dt_write s1 data_pos page1)
         else bind_io (dp_insertRecord page record) (\<lambda>page1. dt_write s data_pos page1))"

fun isam_insert_chain ::
  "nat \<Rightarrow> 'k :: linordered_idom isam_record list \<Rightarrow> 'k isam \<Rightarrow> physical_pos \<Rightarrow> 'k isam_record \<Rightarrow> 'k isam io" where
  "isam_insert_chain 0 mem s data_pos record = Inl OutOfFuel"
| "isam_insert_chain (Suc n) mem s data_pos record =
     bind_io (dt_read s data_pos) (\<lambda>page.
     if dp_isEmpty page then isam_create_page mem s data_pos page record
     else bind_io (dp_last page) (\<lambda>last.
       if ir_key record \<le> ir_key last then isam_insert_in_page mem s data_pos page record
       else if dp_next page \<noteq> - 1 then isam_insert_chain n mem s (dp_next page) record
       else if \<not> dp_isFull page then bind_io (dp_insertRecord page record) (\<lambda>page1. dt_write s data_pos page1)
       else isam_create_page mem s data_pos page record))"

fun isam_insert_node ::
  "nat \<Rightarrow> 'k :: linordered_idom isam_record list \<Rightarrow> 'k isam \<Rightarrow> physical_pos \<Rightarrow> 'k isam_record \<Rightarrow> 'k isam io" where
  "isam_insert_node 0 mem s node_pos record = Inl OutOfFuel"
| "isam_insert_node (Suc n) mem s node_pos record =
     bind_io (idx_read s node_pos) (\<lambda>node.
     bind_io (ip_descend (nat (index_page_capacity (metadata s))) (\<lambda>k. k \<le> ir_key record) node 0) (\<lambda>index.
     bind_io (ip_getChild node index) (\<lambda>child.
     if ip_isLeaf node then isam_insert_chain (dt_fuel s) mem s child record
     else isam_insert_node n mem s child record)))"

text \<open>\<open>__add\<close> and \<open>add\<close>: the position of the record is the response in every case.\<close>

definition isam_add_record ::
  "'k :: linordered_idom isam_record list \<Rightarrow> 'k isam \<Rightarrow> 'k isam_record \<Rightarrow> ('k isam \<times> physical_pos list) io" where
  "isam_add_record mem s record =
     (if root s = - 1 then Inl RuntimeError
      else bind_io (isam_insert_node (idx_fuel s) mem s (root s) record) (\<lambda>s1. Inr (s1, [ir_pos record])))"

definition isam_add ::
  "'k :: linordered_idom isam_record list \<Rightarrow> 'k isam \<Rightarrow> 'k \<Rightarrow> physical_pos \<Rightarrow> ('k isam \<times> physical_pos list) io" where
  "isam_add mem s key raw_pos = isam_add_record mem s (new_isam_record key raw_pos)"

section \<open>Range search\<close>

fun isam_range_page ::
  "nat \<Rightarrow> ('k :: linorder) isam \<Rightarrow> 'k data_page \<Rightarrow> int \<Rightarrow> 'k \<Rightarrow> 'k \<Rightarrow> 'k \<Rightarrow> physical_pos list \<Rightarrow> ('k \<times> physical_pos list) io" where
  "isam_range_page 0 s page i beg end key result = Inr (key, result)"
| "isam_range_page (Suc n) s page i beg end key result =
     bind_io (dp_getKey page i) (\<lambda>key1.
     bind_io (if beg \<le> key1 \<and> key1 \<le> end then bind_io (dp_getRecord page i) (\<lambda>r. isam_raw_records s r result)
              else Inr result) (\<lambda>result1.
     isam_range_page n s page (i + 1) beg end key1 result1))"

fun isam_range_chain ::
  "nat \<Rightarrow> ('k :: linorder) isam \<Rightarrow> physical_pos \<Rightarrow> 'k \<Rightarrow> 'k \<Rightarrow> 'k \<Rightarrow> physical_pos list \<Rightarrow> ('k \<times> physical_pos list) io" where
  "isam_range_chain 0 s p beg end key result = Inl OutOfFuel"
| "isam_range_chain (Suc n) s p beg end key result =
     bind_io (dt_read s p) (\<lambda>page.
     if dp_isEmpty page then Inr (key, result)
     else bind_io (isam_range_page (nat (dp_count page)) s page 0 beg end key result) (\<lambda>(key1, result1).
       if dp_next page \<noteq> - 1 then isam_range_chain n s (dp_next page) beg end key1 result1
       else Inr (key1, result1)))"

fun isam_range_pages ::
  "nat \<Rightarrow> ('k :: linorder) isam \<Rightarrow> physical_pos \<Rightarrow> physical_pos \<Rightarrow> 'k \<Rightarrow> 'k \<Rightarrow> 'k \<Rightarrow> physical_pos list \<Rightarrow> physical_pos list io" where
  "isam_range_pages 0 s data_pos last_pos beg end key result = Inl OutOfFuel"
| "isam_range_pages (Suc n) s data_pos last_pos beg end key result =
     bind_io (isam_range_chain (dt_fuel s) s data_pos beg end key result) (\<lambda>(key1, result1).
     let data_pos1 = data_pos + dp_size_of in
     if data_pos1 < last_pos \<and> key1 \<le> end then isam_range_pages n s data_pos1 last_pos beg end key1 result1
     else Inr result1)"

definition ISAM_LEVELS :: nat where
  "ISAM_LEVELS = 3"

text \<open>\<open>last_pos\<close>: the end of the data pages that \<open>build\<close> makes; the pages from a position to it bound the loop.\<close>

definition isam_last_pos :: "'k isam \<Rightarrow> physical_pos" where
  "isam_last_pos s = (index_page_capacity (metadata s) + 1) ^ ISAM_LEVELS * dp_size_of"

fun isam_range_node ::
  "nat \<Rightarrow> ('k :: linorder) isam \<Rightarrow> physical_pos \<Rightarrow> 'k \<Rightarrow> 'k \<Rightarrow> physical_pos list \<Rightarrow> physical_pos list io" where
  "isam_range_node 0 s node_pos beg end result = Inl OutOfFuel"
| "isam_range_node (Suc n) s node_pos beg end result =
     bind_io (idx_read s node_pos) (\<lambda>node.
     bind_io (ip_descend (nat (index_page_capacity (metadata s))) (\<lambda>k. k < beg) node 0) (\<lambda>index.
     bind_io (ip_getChild node index) (\<lambda>child.
     if ip_isLeaf node then
       isam_range_pages (Suc (nat (isam_last_pos s div dp_size_of))) s child (isam_last_pos s) beg end beg result
     else isam_range_node n s child beg end result)))"

definition isam_range_search :: "('k :: linorder) isam \<Rightarrow> 'k \<Rightarrow> 'k \<Rightarrow> physical_pos list io" where
  "isam_range_search s beg end =
     (if root s = - 1 then Inl RuntimeError else isam_range_node (idx_fuel s) s (root s) beg end [])"

section \<open>Removal\<close>

fun merge_copy :: "nat \<Rightarrow> 'k data_page \<Rightarrow> 'k data_page \<Rightarrow> int \<Rightarrow> int \<Rightarrow> 'k data_page io" where
  "merge_copy 0 page next_page page_count i = Inr page"
| "merge_copy (Suc n) page next_page page_count i =
     bind_io (dp_getRecord next_page i) (\<lambda>r.
     bind_io (dp_setRecord page r (page_count + i)) (\<lambda>page1. merge_copy n page1 next_page page_count (i + 1)))"

definition isam_merge :: "'k :: linordered_idom isam \<Rightarrow> 'k data_page \<Rightarrow> ('k isam \<times> 'k data_page) io" where
  "isam_merge s page =
     (if dp_next page = - 1 then Inr (s, page)
      else bind_io (dt_read s (dp_next page)) (\<lambda>next_page.
        if dp_count page + dp_count next_page \<le> dp_getCapacity then
          bind_io (merge_copy (nat (dp_count next_page)) page next_page (dp_count page) 0) (\<lambda>page1.
          Inr (s, dp_setNext page1 (dp_next next_page)))
        else
          bind_io (dp_getRecord next_page 0) (\<lambda>r.
          bind_io (dp_setRecord page r (dp_count page)) (\<lambda>page1.
          bind_io (dp_remove next_page 0) (\<lambda>next_page1.
          bind_io (dt_write s (dp_next page1) next_page1) (\<lambda>s1. Inr (s1, page1)))))))"

text \<open>The loop over the records of a page, which goes on after it removed one; \<open>deleted_pos\<close> starts as - 1.\<close>

fun remove_in_page :: "nat \<Rightarrow> 'k :: linordered_idom data_page \<Rightarrow> 'k \<Rightarrow> int \<Rightarrow> physical_pos \<Rightarrow> ('k data_page \<times> physical_pos) io" where
  "remove_in_page 0 page key i deleted_pos = Inr (page, deleted_pos)"
| "remove_in_page (Suc n) page key i deleted_pos =
     (if i < dp_count page then
        bind_io (dp_getRecord page i) (\<lambda>r.
        if ir_key r = key then
          bind_io (dp_remove page i) (\<lambda>page1. remove_in_page n page1 key (i + 1) (ir_pos r))
        else remove_in_page n page key (i + 1) deleted_pos)
      else Inr (page, deleted_pos))"

text \<open>
  \<open>_remove\<close> in the chain; \<open>prev_pos\<close> is the first page of the chain in every step.
\<close>

fun isam_remove_chain ::
  "nat \<Rightarrow> 'k :: linordered_idom isam \<Rightarrow> physical_pos \<Rightarrow> physical_pos \<Rightarrow> nat \<Rightarrow> 'k \<Rightarrow> ('k isam \<times> physical_pos list) io" where
  "isam_remove_chain 0 s data_pos prev_pos iter key = Inl OutOfFuel"
| "isam_remove_chain (Suc n) s data_pos prev_pos iter key =
     bind_io (dt_read s data_pos) (\<lambda>page.
     bind_io (dt_read s prev_pos) (\<lambda>prev_page.
     if dp_isEmpty page then Inr (s, [])
     else bind_io (dp_last page) (\<lambda>last.
       if key \<le> ir_key last then
         bind_io (remove_in_page (nat (dp_count page)) page key 0 (- 1)) (\<lambda>(page1, deleted_pos).
         if deleted_pos = - 1 then Inr (s, [])
         else if dp_isEmpty page1 then
           (if iter = 0 then bind_io (dt_write s data_pos page1) (\<lambda>s1. Inr (s1, [deleted_pos]))
            else bind_io (dt_write s prev_pos (dp_setNext prev_page (dp_next page1))) (\<lambda>s1. Inr (s1, [deleted_pos])))
         else if dp_count page1 \<le> dp_getCapacity div 2 then
           bind_io (isam_merge s page1) (\<lambda>(s1, page2).
           bind_io (dt_write s1 data_pos page2) (\<lambda>s2. Inr (s2, [deleted_pos])))
         else bind_io (dt_write s data_pos page1) (\<lambda>s1. Inr (s1, [deleted_pos])))
       else if dp_next page \<noteq> - 1 then isam_remove_chain n s (dp_next page) prev_pos (Suc iter) key
       else Inr (s, []))))"

fun isam_remove_node ::
  "nat \<Rightarrow> 'k :: linordered_idom isam \<Rightarrow> physical_pos \<Rightarrow> 'k \<Rightarrow> ('k isam \<times> physical_pos list) io" where
  "isam_remove_node 0 s node_pos key = Inl OutOfFuel"
| "isam_remove_node (Suc n) s node_pos key =
     bind_io (idx_read s node_pos) (\<lambda>node.
     bind_io (ip_descend (nat (index_page_capacity (metadata s))) (\<lambda>k. k \<le> key) node 0) (\<lambda>index.
     bind_io (ip_getChild node index) (\<lambda>child.
     if ip_isLeaf node then isam_remove_chain (dt_fuel s) s child child 0 key
     else isam_remove_node n s child key)))"

definition isam_remove :: "'k :: linordered_idom isam \<Rightarrow> 'k \<Rightarrow> ('k isam \<times> physical_pos list) io" where
  "isam_remove s key =
     (if root s = - 1 then Inl RuntimeError else isam_remove_node (idx_fuel s) s (root s) key)"

section \<open>Building the index\<close>

text \<open>
  The loops of \<open>build\<close>, from the inner one: the records of a data page, the children of a leaf (\<open>page2\<close>), of a page of the
  second level (\<open>page1\<close>) and of the root (\<open>page0\<close>).  The first argument counts the rounds that are left.
\<close>

fun build_records :: "nat \<Rightarrow> 'k isam_record list \<Rightarrow> 'k data_page \<Rightarrow> int \<Rightarrow> int \<Rightarrow> ('k data_page \<times> int) io" where
  "build_records 0 data page3 l index = Inr (page3, index)"
| "build_records (Suc n) data page3 l index =
     bind_io (cell data index) (\<lambda>r.
     bind_io (dp_setRecord page3 r l) (\<lambda>page3a. build_records n data page3a (l + 1) (index + 1)))"

definition build_key :: "int \<Rightarrow> 'k isam_record list \<Rightarrow> 'k index_page \<Rightarrow> int \<Rightarrow> int \<Rightarrow> 'k index_page io" where
  "build_key M data page i index =
     (if i < M then bind_io (cell data index) (\<lambda>r. ip_setKey page (ir_key r) i) else Inr page)"

fun build_leaf ::
  "nat \<Rightarrow> 'k isam_record list \<Rightarrow> 'k isam_record list \<Rightarrow> 'k isam \<Rightarrow> 'k index_page \<Rightarrow> int \<Rightarrow> int \<Rightarrow>
     ('k isam \<times> 'k index_page \<times> int) io" where
  "build_leaf 0 mem data s page2 h index = Inr (s, page2, index)"
| "build_leaf (Suc n) mem data s page2 h index =
     bind_io (build_records (nat (data_page_capacity (metadata s))) data (new_data_page mem) 0 index) (\<lambda>(page3, index1).
     let (s1, pos) = dt_append s page3 in
     bind_io (ip_setChild page2 pos h) (\<lambda>page2a.
     bind_io (build_key (index_page_capacity (metadata s)) data page2a h index1) (\<lambda>page2b.
     build_leaf n mem data s1 page2b (h + 1) index1)))"

fun build_mid ::
  "nat \<Rightarrow> 'k list \<Rightarrow> 'k isam_record list \<Rightarrow> 'k isam_record list \<Rightarrow> 'k isam \<Rightarrow> 'k index_page \<Rightarrow> int \<Rightarrow> int \<Rightarrow>
     ('k isam \<times> 'k index_page \<times> int) io" where
  "build_mid 0 kmem mem data s page1 k index = Inr (s, page1, index)"
| "build_mid (Suc n) kmem mem data s page1 k index =
     bind_io (build_leaf (nat (index_page_capacity (metadata s) + 1)) mem data s (new_index_page kmem) 0 index)
       (\<lambda>(s1, page2, index1).
     let (s2, pos) = idx_append s1 (ip_setIsLeaf page2 True) in
     bind_io (ip_setChild page1 pos k) (\<lambda>page1a.
     bind_io (build_key (index_page_capacity (metadata s)) data page1a k index1) (\<lambda>page1b.
     build_mid n kmem mem data s2 page1b (k + 1) index1)))"

fun build_top ::
  "nat \<Rightarrow> 'k list \<Rightarrow> 'k isam_record list \<Rightarrow> 'k isam_record list \<Rightarrow> 'k isam \<Rightarrow> 'k index_page \<Rightarrow> int \<Rightarrow> int \<Rightarrow>
     ('k isam \<times> 'k index_page \<times> int) io" where
  "build_top 0 kmem mem data s page0 j index = Inr (s, page0, index)"
| "build_top (Suc n) kmem mem data s page0 j index =
     bind_io (build_mid (nat (index_page_capacity (metadata s) + 1)) kmem mem data s (new_index_page kmem) 0 index)
       (\<lambda>(s1, page1, index1).
     let (s2, pos) = idx_append s1 (ip_setIsLeaf page1 False) in
     bind_io (ip_setChild page0 pos j) (\<lambda>page0a.
     bind_io (build_key (index_page_capacity (metadata s)) data page0a j index1) (\<lambda>page0b.
     build_top n kmem mem data s2 page0b (j + 1) index1)))"

fun build_rest :: "'k :: linordered_idom isam_record list \<Rightarrow> 'k isam \<Rightarrow> 'k isam_record list \<Rightarrow> 'k isam io" where
  "build_rest mem s [] = Inr s"
| "build_rest mem s (r # rs) = bind_io (isam_add_record mem s r) (\<lambda>(s1, _). build_rest mem s1 rs)"

definition isam_max_records :: nat where
  "isam_max_records = 81"

text \<open>\<open>build\<close>: \<open>srt\<close> is \<open>std::sort\<close> by the keys, which leaves open the order of records with the same key.\<close>

definition isam_build ::
  "('k :: linordered_idom isam_record list \<Rightarrow> 'k isam_record list) \<Rightarrow> 'k list \<Rightarrow> 'k isam_record list \<Rightarrow> 'k isam \<Rightarrow>
     'k isam_record list \<Rightarrow> 'k isam io" where
  "isam_build srt kmem mem s data =
     (if length data < isam_max_records then Inl RuntimeError
      else let data = srt data; s0 = s\<lparr>idx_file := [], dt_file := [], dp_file := []\<rparr> in
        bind_io (build_top (nat (index_page_capacity (metadata s) + 1)) kmem mem data s0 (new_index_page kmem) 0 0)
          (\<lambda>(s1, page0, index).
        let (s2, pos) = idx_append s1 (ip_setIsLeaf page0 False);
            s3 = s2\<lparr>root := pos, metadata := (metadata s2)\<lparr>root_position := pos\<rparr>\<rparr>
        in if length data > isam_max_records then build_rest mem s3 (drop (nat index) data) else Inr s3))"

definition isam_bulk_insert ::
  "('k :: linordered_idom isam_record list \<Rightarrow> 'k isam_record list) \<Rightarrow> 'k list \<Rightarrow> 'k isam_record list \<Rightarrow> 'k isam \<Rightarrow>
     ('k \<times> physical_pos) list \<Rightarrow> ('k isam \<times> physical_pos list \<times> bool list) io" where
  "isam_bulk_insert srt kmem mem s data =
     bind_io (isam_build srt kmem mem s (map (\<lambda>(k, p). new_isam_record k p) data)) (\<lambda>s1. Inr (s1, [1], [True]))"

end
