(* ===== verification/IsamBuild.thy ===== *)
theory IsamBuild
  imports IsamOps
begin

text \<open>
  What \<open>build\<close> makes of the sorted records \<open>d\<close>: the first 81 of them in 27 data pages of three, and three levels of index
  pages over them; and the data page that a key leads to through the index pages.
\<close>

section \<open>Arrays\<close>

lemma cell_nat [simp]: "i < length xs \<Longrightarrow> cell xs (int i) = Inr (xs ! i)"
  by (simp add: cell_def)

lemma cell_shift [simp]:
  "Suc i < length xs \<Longrightarrow> cell xs (int i + 1) = Inr (xs ! Suc i)"
  "i + numeral w < length xs \<Longrightarrow> cell xs (int i + numeral w) = Inr (xs ! (i + numeral w))"
  using cell_nat[of "Suc i" xs] cell_nat[of "i + numeral w" xs] by (simp_all add: add.commute)

lemma cell_small [simp]:
  "cell (a # xs) 0 = Inr a" "cell [a, b] 1 = Inr b" "cell [a, b, c] 1 = Inr b" "cell [a, b, c] 2 = Inr c"
  by (simp_all add: cell_def)

lemma set_cell_small [simp]:
  "set_cell (a # xs) 0 x = Inr (x # xs)" "set_cell [a, b] 1 x = Inr [a, x]"
  "set_cell [a, b, c] 1 x = Inr [a, x, c]" "set_cell [a, b, c] 2 x = Inr [a, b, x]"
  by (simp_all add: set_cell_def)

lemma length_3E: "length xs = 3 \<Longrightarrow> (\<And>a b c. xs = [a, b, c] \<Longrightarrow> P) \<Longrightarrow> P"
  by (auto simp: length_Suc_conv numeral_3_eq_3)

lemma length_2E: "length xs = 2 \<Longrightarrow> (\<And>a b. xs = [a, b] \<Longrightarrow> P) \<Longrightarrow> P"
  by (auto simp: length_Suc_conv numeral_2_eq_2)

section \<open>The pages\<close>

definition built_page :: "'k isam_record list \<Rightarrow> nat \<Rightarrow> 'k data_page" where
  "built_page d i = \<lparr>dp_records = [d ! i, d ! (i + 1), d ! (i + 2)], dp_next = - 1, dp_count = 3\<rparr>"

text \<open>An index page with two keys of \<open>d\<close> and three children that are pages of \<open>sz\<close> bytes.\<close>

definition built_node :: "'k isam_record list \<Rightarrow> int \<Rightarrow> nat \<Rightarrow> nat \<Rightarrow> nat \<Rightarrow> nat \<Rightarrow> nat \<Rightarrow> bool \<Rightarrow> 'k index_page" where
  "built_node d sz a b p q r leaf =
     \<lparr>ip_keys = [ir_key (d ! a), ir_key (d ! b)],
      ip_children = [slot_pos 0 sz p, slot_pos 0 sz q, slot_pos 0 sz r], ip_isLeaf = leaf\<rparr>"

definition built_pages :: "'k isam_record list \<Rightarrow> nat \<Rightarrow> nat \<Rightarrow> 'k data_page list" where
  "built_pages d i n = map (\<lambda>j. built_page d (i + 3 * j)) [0..<n]"

lemma length_built_pages [simp]: "length (built_pages d i n) = n"
  by (simp add: built_pages_def)

lemma built_pages_3: "built_pages d i 3 = [built_page d i, built_page d (i + 3), built_page d (i + 6)]"
  by (simp add: built_pages_def upt_conv_Cons)

lemma built_pages_append: "built_pages d i m @ built_pages d (i + 3 * m) n = built_pages d i (m + n)"
  by (auto simp: built_pages_def list_eq_iff_nth_eq nth_append algebra_simps)

text \<open>The leaf over the records from \<open>i\<close> whose pages start with the one of number \<open>q\<close>, and a page of the second level.\<close>

abbreviation leaf_node :: "'k isam_record list \<Rightarrow> nat \<Rightarrow> nat \<Rightarrow> 'k index_page" where
  "leaf_node d q i \<equiv> built_node d dp_size_of (i + 3) (i + 6) q (q + 1) (q + 2) True"

abbreviation mid_node :: "'k isam_record list \<Rightarrow> nat \<Rightarrow> nat \<Rightarrow> 'k index_page" where
  "mid_node d r i \<equiv> built_node d ip_size_of (i + 9) (i + 18) r (r + 1) (r + 2) False"

definition built_idx :: "'k isam_record list \<Rightarrow> 'k index_page list" where
  "built_idx d =
     [leaf_node d 0 0, leaf_node d 3 9, leaf_node d 6 18, mid_node d 0 0,
      leaf_node d 9 27, leaf_node d 12 36, leaf_node d 15 45, mid_node d 4 27,
      leaf_node d 18 54, leaf_node d 21 63, leaf_node d 24 72, mid_node d 8 54,
      built_node d ip_size_of 27 54 3 7 11 False]"

definition built_root :: physical_pos where
  "built_root = slot_pos 0 ip_size_of 12"

lemma set_leaf: "ip_setIsLeaf (built_node d sz a b p q r l) l' = built_node d sz a b p q r l'"
  "ip_setIsLeaf \<lparr>ip_keys = ks, ip_children = cs, ip_isLeaf = l\<rparr> l' = \<lparr>ip_keys = ks, ip_children = cs, ip_isLeaf = l'\<rparr>"
  by (simp_all add: ip_setIsLeaf_def built_node_def)

lemma built_root_page: "butlast (built_idx d) @ [ip_setIsLeaf (last (built_idx d)) False] = built_idx d"
  "end_pos 0 ip_size_of (butlast (built_idx d)) = built_root"
  by (simp_all add: built_idx_def set_leaf built_root_def end_pos_def)

definition standard_metadata :: "isam_metadata \<Rightarrow> bool" where
  "standard_metadata m \<longleftrightarrow> index_page_capacity m = 2 \<and> data_page_capacity m = 3"

lemma build_records_page:
  assumes "i + 2 < length d" and mem: "length mem = 3"
  shows "build_records 3 d (new_data_page mem) 0 (int i) = Inr (built_page d i, int i + 3)"
proof -
  obtain a b c where m: "mem = [a, b, c]" using mem by (rule length_3E)
  show ?thesis
    using assms cell_shift(2)[of i "num.Bit0 num.One" d]
    by (simp add: numeral_3_eq_3 dp_setRecord_def new_data_page_def m built_page_def add.assoc)
qed

lemma build_leaf_page:
  assumes "i + 8 < length d" "standard_metadata (metadata s)" and mem: "length mem = 3" and kmem: "length kmem = 2"
  shows "build_leaf 3 mem d s (new_index_page kmem) 0 (int i) =
    Inr (s\<lparr>dt_file := dt_file s @ built_pages d i 3\<rparr>,
      built_node d dp_size_of (i + 3) (i + 6) (length (dt_file s)) (length (dt_file s) + 1) (length (dt_file s) + 2) False,
      int i + 9)"
proof -
  obtain a b where m: "kmem = [a, b]" using kmem by (rule length_2E)
  have r: "build_records 3 d (new_data_page mem) 0 (int i) = Inr (built_page d i, int i + 3)"
    "build_records 3 d (new_data_page mem) 0 (int i + 3) = Inr (built_page d (i + 3), int i + 6)"
    "build_records 3 d (new_data_page mem) 0 (int i + 6) = Inr (built_page d (i + 6), int i + 9)"
    using build_records_page[of i d mem] build_records_page[of "i + 3" d mem] build_records_page[of "i + 6" d mem] assms(1) mem by simp_all
  have "build_leaf (Suc (Suc (Suc 0))) mem d s (new_index_page kmem) 0 (int i) =
    Inr (s\<lparr>dt_file := dt_file s @ built_pages d i 3\<rparr>,
      built_node d dp_size_of (i + 3) (i + 6) (length (dt_file s)) (length (dt_file s) + 1) (length (dt_file s) + 2) False,
      int i + 9)"
    using assms
    by (simp add: r standard_metadata_def new_index_page_def m dt_append_def ip_setChild_def build_key_def ip_setKey_def
        ip_getCapacity_def numeral_2_eq_2 built_node_def end_pos_def built_pages_3)
  then show ?thesis by (simp only: numeral_3_eq_3)
qed

lemma key_memory: "length kmem = 2 \<Longrightarrow> set_cell kmem 0 x = Inr [x, kmem ! 1]"
  by (auto simp: set_cell_def length_Suc_conv numeral_2_eq_2)

lemma new_node: "new_index_page kmem = \<lparr>ip_keys = kmem, ip_children = [0, 0, 0], ip_isLeaf = False\<rparr>"
  by (simp add: new_index_page_def ip_getCapacity_def numeral_2_eq_2)

lemma build_mid_page:
  assumes "i + 26 < length d" "standard_metadata (metadata s)" and mem: "length mem = 3" and kmem: "length kmem = 2"
  shows "build_mid 3 kmem mem d s (new_index_page kmem) 0 (int i) =
    Inr (s\<lparr>dt_file := dt_file s @ built_pages d i 9,
        idx_file := idx_file s @ [leaf_node d (length (dt_file s)) i, leaf_node d (length (dt_file s) + 3) (i + 9),
          leaf_node d (length (dt_file s) + 6) (i + 18)]\<rparr>,
      mid_node d (length (idx_file s)) i, int i + 27)"
proof -
  have r: "build_leaf 3 mem d s' (new_index_page kmem) 0 (int i + numeral w) =
    Inr (s'\<lparr>dt_file := dt_file s' @ built_pages d (i + numeral w) 3\<rparr>,
      built_node d dp_size_of (i + numeral w + 3) (i + numeral w + 6) (length (dt_file s')) (length (dt_file s') + 1)
        (length (dt_file s') + 2) False, int i + numeral w + 9)"
    if "i + numeral w + 8 < length d" "standard_metadata (metadata s')" for s' w
    using build_leaf_page[of "i + numeral w" d s' mem kmem] that mem kmem by simp
  have b: "built_pages d i 9 = built_pages d i 3 @ built_pages d (i + 9) 3 @ built_pages d (i + 18) 3"
    using built_pages_append[of d i 3 6] built_pages_append[of d "i + 9" 3 3] by (simp add: add.assoc)
  have "build_mid (Suc (Suc (Suc 0))) kmem mem d s (new_index_page kmem) 0 (int i) =
    Inr (s\<lparr>dt_file := dt_file s @ built_pages d i 9,
        idx_file := idx_file s @ [leaf_node d (length (dt_file s)) i, leaf_node d (length (dt_file s) + 3) (i + 9),
          leaf_node d (length (dt_file s) + 6) (i + 18)]\<rparr>,
      mid_node d (length (idx_file s)) i, int i + 27)"
    using assms build_leaf_page[of i d s mem kmem, unfolded new_node]
    by (simp add: r[unfolded new_node] new_node key_memory set_leaf standard_metadata_def idx_append_def ip_setChild_def build_key_def ip_setKey_def b
        end_pos_def add.assoc built_node_def[of d ip_size_of])
  then show ?thesis by (simp only: numeral_3_eq_3)
qed

lemma build_top_page:
  assumes "81 \<le> length d" "standard_metadata (metadata s)" "dt_file s = []" "idx_file s = []"
    and mem: "length mem = 3" and kmem: "length kmem = 2"
  shows "build_top 3 kmem mem d s (new_index_page kmem) 0 0 =
    Inr (s\<lparr>dt_file := built_pages d 0 27, idx_file := butlast (built_idx d)\<rparr>, last (built_idx d), 81)"
proof -
  have r: "build_mid 3 kmem mem d s' (new_index_page kmem) 0 (numeral w) =
    Inr (s'\<lparr>dt_file := dt_file s' @ built_pages d (numeral w) 9,
        idx_file := idx_file s' @ [leaf_node d (length (dt_file s')) (numeral w), leaf_node d (length (dt_file s') + 3) (numeral w + 9),
          leaf_node d (length (dt_file s') + 6) (numeral w + 18)]\<rparr>,
      mid_node d (length (idx_file s')) (numeral w), numeral w + 27)"
    if "numeral w + 26 < length d" "standard_metadata (metadata s')" for s' w
    using build_mid_page[of "numeral w" d s' mem kmem] that mem kmem by simp
  have b: "built_pages d 0 27 = built_pages d 0 9 @ built_pages d 27 9 @ built_pages d 54 9"
    using built_pages_append[of d 0 9 18] built_pages_append[of d 27 9 9] by simp
  have c: "cell d (numeral w) = Inr (d ! numeral w)" if "numeral w < length d" for w
    using cell_nat[OF that] by simp
  have "build_top (Suc (Suc (Suc 0))) kmem mem d s (new_index_page kmem) 0 0 =
    Inr (s\<lparr>dt_file := built_pages d 0 27, idx_file := butlast (built_idx d)\<rparr>, last (built_idx d), 81)"
    using assms build_mid_page[of 0 d s mem kmem, unfolded new_node]
    by (simp add: r[unfolded new_node] new_node key_memory set_leaf standard_metadata_def idx_append_def ip_setChild_def
        build_key_def ip_setKey_def b c end_pos_def built_idx_def built_node_def[of d ip_size_of])
  then show ?thesis by (simp only: numeral_3_eq_3)
qed

lemma isam_build_eq:
  assumes "81 \<le> length data" "length (srt data) = length data" "standard_metadata (metadata s)" "d = srt data"
    "s3 = s\<lparr>dp_file := [], dt_file := built_pages d 0 27, idx_file := built_idx d, root := built_root,
      metadata := (metadata s)\<lparr>root_position := built_root\<rparr>\<rparr>"
    and mem: "length mem = 3" and kmem: "length kmem = 2"
  shows "isam_build srt kmem mem s data = build_rest mem s3 (drop 81 d)"
proof -
  have r: "nat (index_page_capacity (metadata s) + 1) = 3" using assms(3) by (simp add: standard_metadata_def)
  show ?thesis
    using assms build_top_page[of "srt data" "s\<lparr>idx_file := [], dt_file := [], dp_file := []\<rparr>" mem kmem]
    by (simp add: isam_build_def r isam_max_records_def idx_append_def built_root_page Let_def)
qed

section \<open>The way of a key through the index pages\<close>

text \<open>
  \<open>go\<close> is the test by which the operations step over the keys of an index page; \<open>isam_route\<close> is the number of the data page
  at which they arrive.
\<close>

definition isam_pick :: "('k \<Rightarrow> bool) \<Rightarrow> 'k \<Rightarrow> 'k \<Rightarrow> nat" where
  "isam_pick go a b = (if go a then if go b then 2 else 1 else 0)"

definition isam_route :: "('k \<Rightarrow> bool) \<Rightarrow> 'k isam_record list \<Rightarrow> nat" where
  "isam_route go d =
     (let key = (\<lambda>i. ir_key (d ! i));
          a = isam_pick go (key 27) (key 54);
          b = isam_pick go (key (27 * a + 9)) (key (27 * a + 18));
          c = isam_pick go (key (27 * a + 9 * b + 3)) (key (27 * a + 9 * b + 6))
      in 9 * a + 3 * b + c)"

lemma isam_pick_cases: "isam_pick go a b = 0 \<and> \<not> go a \<or> isam_pick go a b = 1 \<and> go a \<and> \<not> go b \<or> isam_pick go a b = 2 \<and> go a \<and> go b"
  by (simp add: isam_pick_def)

text \<open>The keys of the built pages around the page of a route.\<close>

lemma isam_route_bounds:
  "isam_route go d < 27"
  "isam_route go d \<noteq> 0 \<Longrightarrow> go (ir_key (d ! (3 * isam_route go d)))"
  "isam_route go d \<noteq> 26 \<Longrightarrow> \<not> go (ir_key (d ! (3 * isam_route go d + 3)))"
proof -
  define a where "a = isam_pick go (ir_key (d ! 27)) (ir_key (d ! 54))"
  define b where "b = isam_pick go (ir_key (d ! (27 * a + 9))) (ir_key (d ! (27 * a + 18)))"
  define c where "c = isam_pick go (ir_key (d ! (27 * a + 9 * b + 3))) (ir_key (d ! (27 * a + 9 * b + 6)))"
  have r: "isam_route go d = 9 * a + 3 * b + c" by (simp only: isam_route_def Let_def a_def b_def c_def)
  have A: "a = 0 \<and> \<not> go (ir_key (d ! 27)) \<or> a = 1 \<and> go (ir_key (d ! 27)) \<and> \<not> go (ir_key (d ! 54)) \<or>
      a = 2 \<and> go (ir_key (d ! 27)) \<and> go (ir_key (d ! 54))"
    unfolding a_def by (rule isam_pick_cases)
  have B: "b = 0 \<and> \<not> go (ir_key (d ! (27 * a + 9))) \<or>
      b = 1 \<and> go (ir_key (d ! (27 * a + 9))) \<and> \<not> go (ir_key (d ! (27 * a + 18))) \<or>
      b = 2 \<and> go (ir_key (d ! (27 * a + 9))) \<and> go (ir_key (d ! (27 * a + 18)))"
    unfolding b_def by (rule isam_pick_cases)
  have C: "c = 0 \<and> \<not> go (ir_key (d ! (27 * a + 9 * b + 3))) \<or>
      c = 1 \<and> go (ir_key (d ! (27 * a + 9 * b + 3))) \<and> \<not> go (ir_key (d ! (27 * a + 9 * b + 6))) \<or>
      c = 2 \<and> go (ir_key (d ! (27 * a + 9 * b + 3))) \<and> go (ir_key (d ! (27 * a + 9 * b + 6)))"
    unfolding c_def by (rule isam_pick_cases)
  show "isam_route go d < 27" unfolding r using A B C by auto
  show "go (ir_key (d ! (3 * isam_route go d)))" if "isam_route go d \<noteq> 0"
    using that A B C unfolding r by (elim disjE conjE) simp_all
  show "\<not> go (ir_key (d ! (3 * isam_route go d + 3)))" if "isam_route go d \<noteq> 26"
    using that A B C unfolding r by (elim disjE conjE) simp_all
qed

text \<open>The three descents, with what they do at the data page.\<close>

lemma ip_descend_built:
  "ip_descend 2 go (built_node d sz a b p q r l) 0 = Inr (int (isam_pick go (ir_key (d ! a)) (ir_key (d ! b))))"
  by (simp add: numeral_2_eq_2 ip_getkey_def built_node_def isam_pick_def)

lemma ip_child_built:
  "ip_getChild (built_node d sz a b p (Suc p) (Suc (Suc p)) l) (int (isam_pick go x y)) =
     Inr (slot_pos 0 sz (p + isam_pick go x y))"
  by (simp add: isam_pick_def ip_getChild_def built_node_def)

lemma ip_child_root:
  "ip_getChild (built_node d sz a b 3 7 11 l) (int (isam_pick go x y)) = Inr (slot_pos 0 sz (4 * isam_pick go x y + 3))"
  by (simp add: isam_pick_def ip_getChild_def built_node_def)

lemma built_isLeaf: "ip_isLeaf (built_node d sz a b p q r l) = l"
  by (simp add: built_node_def)

definition isam_built :: "'k isam \<Rightarrow> 'k isam_record list \<Rightarrow> bool" where
  "isam_built s d \<longleftrightarrow> standard_metadata (metadata s) \<and> root s = built_root \<and> idx_file s = built_idx d"

lemma idx_read_built:
  "isam_built s d \<Longrightarrow> i < 13 \<Longrightarrow> idx_read s (slot_pos 0 ip_size_of i) = Inr (built_idx d ! i)"
  by (simp add: idx_read_def isam_built_def moveReadRecord_slot built_idx_def)

lemma built_idx_nodes:
  "built_idx d ! 12 = built_node d ip_size_of 27 54 3 7 11 False"
  "a \<le> 2 \<Longrightarrow> built_idx d ! (4 * a + 3) = mid_node d (4 * a) (27 * a)"
  "a \<le> 2 \<Longrightarrow> b \<le> 2 \<Longrightarrow> built_idx d ! (4 * a + b) = leaf_node d (9 * a + 3 * b) (27 * a + 9 * b)"
proof -
  have le2: "x = 0 \<or> x = 1 \<or> x = 2" if "x \<le> 2" for x :: nat using that by auto
  show "built_idx d ! 12 = built_node d ip_size_of 27 54 3 7 11 False" by (simp add: built_idx_def)
  show "a \<le> 2 \<Longrightarrow> built_idx d ! (4 * a + 3) = mid_node d (4 * a) (27 * a)"
    by (drule le2) (auto simp: built_idx_def)
  show "a \<le> 2 \<Longrightarrow> b \<le> 2 \<Longrightarrow> built_idx d ! (4 * a + b) = leaf_node d (9 * a + 3 * b) (27 * a + 9 * b)"
    by (drule le2, drule le2) (auto simp: built_idx_def)
qed

text \<open>
  The operations that go down from the root: \<open>down n p\<close> is the call at the page \<open>p\<close> with fuel \<open>n\<close>, \<open>go\<close> the test of the
  keys to step over, and \<open>at_data\<close> what is done at the data page below a leaf.
\<close>

locale isam_descent =
  fixes s :: "'k isam" and go :: "'k \<Rightarrow> bool"
    and down :: "nat \<Rightarrow> physical_pos \<Rightarrow> 'r io" and at_data :: "physical_pos \<Rightarrow> 'r io"
  assumes down_Suc: "down (Suc n) p = bind_io (idx_read s p) (\<lambda>node.
    bind_io (ip_descend (nat (index_page_capacity (metadata s))) go node 0) (\<lambda>index.
    bind_io (ip_getChild node index) (\<lambda>child. if ip_isLeaf node then at_data child else down n child)))"
begin

lemma down_built:
  assumes "isam_built s d" "3 \<le> n"
  shows "down n (root s) = at_data (slot_pos 0 dp_size_of (isam_route go d))"
proof -
  obtain m where n: "n = Suc (Suc (Suc m))" using assms(2) by (metis Suc_le_D numeral_3_eq_3 Suc_le_mono)
  define a where "a = isam_pick go (ir_key (d ! 27)) (ir_key (d ! 54))"
  define b where "b = isam_pick go (ir_key (d ! (27 * a + 9))) (ir_key (d ! (27 * a + 18)))"
  define c where "c = isam_pick go (ir_key (d ! (27 * a + 9 * b + 3))) (ir_key (d ! (27 * a + 9 * b + 6)))"
  have le: "a \<le> 2" "b \<le> 2" by (simp_all add: a_def b_def isam_pick_def)
  have cap: "nat (index_page_capacity (metadata s)) = 2" and root: "root s = slot_pos 0 ip_size_of 12"
    using assms(1) by (simp_all add: isam_built_def standard_metadata_def built_root_def)
  have "down n (root s) = down (Suc (Suc m)) (slot_pos 0 ip_size_of (4 * a + 3))"
    unfolding n down_Suc[of "Suc (Suc m)"] root cap
    by (simp add: idx_read_built[OF assms(1)] built_idx_nodes(1) ip_descend_built ip_child_root built_isLeaf a_def)
  also have "\<dots> = down (Suc m) (slot_pos 0 ip_size_of (4 * a + b))"
    unfolding down_Suc[of "Suc m"] cap using le
    by (simp add: idx_read_built[OF assms(1)] built_idx_nodes(2) ip_descend_built ip_child_built built_isLeaf b_def)
  also have "\<dots> = at_data (slot_pos 0 dp_size_of (9 * a + 3 * b + c))"
    unfolding down_Suc[of m] cap using le
    by (simp add: idx_read_built[OF assms(1)] built_idx_nodes(3) ip_descend_built ip_child_built built_isLeaf c_def)
  also have "9 * a + 3 * b + c = isam_route go d" by (simp only: isam_route_def Let_def a_def b_def c_def)
  finally show ?thesis .
qed

end

interpretation searching: isam_descent s "\<lambda>k. k \<le> key" "\<lambda>n p. isam_search_node n s p key res"
  "\<lambda>p. isam_search_chain (dt_fuel s) s p key res" for s :: "('k :: linorder) isam" and key res
  by unfold_locales simp

interpretation inserting: isam_descent s "\<lambda>k. k \<le> ir_key r" "\<lambda>n p. isam_insert_node n mem s p r"
  "\<lambda>p. isam_insert_chain (dt_fuel s) mem s p r" for s :: "('k :: linordered_idom) isam" and mem r
  by unfold_locales simp

interpretation ranging: isam_descent s "\<lambda>k. k < lo" "\<lambda>n p. isam_range_node n s p lo hi res"
  "\<lambda>p. isam_range_pages (Suc (nat (isam_last_pos s div dp_size_of))) s p (isam_last_pos s) lo hi lo res"
  for s :: "('k :: linorder) isam" and lo hi res
  by unfold_locales simp

interpretation removing: isam_descent s "\<lambda>k. k \<le> key" "\<lambda>n p. isam_remove_node n s p key"
  "\<lambda>p. isam_remove_chain (dt_fuel s) s p p 0 key" for s :: "('k :: linordered_idom) isam" and key
  by unfold_locales simp

end
