(* ===== verification/IsamPages.thy ===== *)
theory IsamPages
  imports IsamBuild
begin

text \<open>
  The operations of data pages.  A page is well formed when it has memory for three records and its counter is between 0
  and 3; \<open>live\<close> are the records it counts.  The operations keep a page well formed, and insertions and splits lose
  no record, but they do not keep the records sorted: \<open>insertRecord\<close> compares with memory that holds no record.
\<close>

definition page_ok :: "'k data_page \<Rightarrow> bool" where
  "page_ok p \<longleftrightarrow> length (dp_records p) = 3 \<and> 0 \<le> dp_count p \<and> dp_count p \<le> 3"

definition live :: "'k data_page \<Rightarrow> 'k isam_record list" where
  "live p = take (nat (dp_count p)) (dp_records p)"

lemma page_okE:
  assumes "page_ok p"
  obtains a b c n where "p = \<lparr>dp_records = [a, b, c], dp_next = n, dp_count = 0\<rparr>"
  | a b c n where "p = \<lparr>dp_records = [a, b, c], dp_next = n, dp_count = 1\<rparr>"
  | a b c n where "p = \<lparr>dp_records = [a, b, c], dp_next = n, dp_count = 2\<rparr>"
  | a b c n where "p = \<lparr>dp_records = [a, b, c], dp_next = n, dp_count = 3\<rparr>"
proof -
  have "dp_count p = 0 \<or> dp_count p = 1 \<or> dp_count p = 2 \<or> dp_count p = 3" using assms by (auto simp: page_ok_def)
  moreover obtain a b c where "dp_records p = [a, b, c]" using assms unfolding page_ok_def by (auto elim: length_3E)
  ultimately show thesis by (cases p) (auto intro: that)
qed

lemmas page_simps = dp_getRecord_def dp_getKey_def dp_setRecord_def dp_isFull_def dp_isEmpty_def dp_getCapacity_def
  dp_last_def dp_setNext_def dp_clearRecord_def page_ok_def live_def numeral_2_eq_2 numeral_3_eq_3

lemma dp_find_live:
  assumes "page_ok p"
  shows "bind_io (dp_find (nat (dp_count p)) p key 0) (\<lambda>found. case found of
      Some i \<Rightarrow> bind_io (dp_getRecord p i) F | None \<Rightarrow> G) =
    (case find (\<lambda>r. ir_key r = key) (live p) of Some r \<Rightarrow> F r | None \<Rightarrow> G)"
  using assms by (cases rule: page_okE) (simp_all add: page_simps)

lemma dp_find_absent:
  assumes "page_ok p" "key \<notin> ir_key ` set (live p)"
  shows "dp_find (nat (dp_count p)) p key 0 = Inr None"
  using assms by (cases rule: page_okE) (auto simp: page_simps)

lemma dp_last_live:
  assumes "page_ok p" "\<not> dp_isEmpty p"
  obtains r where "dp_last p = Inr r" "r \<in> set (live p)" "r = last (live p)"
  using assms by (cases rule: page_okE) (auto simp: page_simps)

section \<open>Insertion\<close>

lemma dp_insertRecord_ok:
  assumes "page_ok p" "\<not> dp_isFull p"
  obtains p' where "dp_insertRecord p r = Inr p'" "page_ok p'" "mset (live p') = add_mset r (mset (live p))"
    "dp_next p' = dp_next p" "dp_count p' = dp_count p + 1"
proof -
  have "\<exists>p'. dp_insertRecord p r = Inr p' \<and> page_ok p' \<and> mset (live p') = add_mset r (mset (live p)) \<and>
      dp_next p' = dp_next p \<and> dp_count p' = dp_count p + 1"
    using assms(1)
  proof (cases rule: page_okE)
    case (1 a b c n)
    then show ?thesis by (simp add: dp_insertRecord_def page_simps)
  next
    case (2 a b c n)
    then show ?thesis by (auto simp: dp_insertRecord_def page_simps)
  next
    case (3 a b c n)
    then show ?thesis by (auto simp: dp_insertRecord_def page_simps)
  next
    case (4 a b c n)
    then show ?thesis using assms(2) by (simp add: page_simps)
  qed
  then show thesis using that by blast
qed

text \<open>A new page with one record.\<close>

lemma dp_first_record:
  assumes "length mem = 3"
  obtains p where "dp_setRecord (new_data_page mem) r 0 = Inr p" "page_ok p" "live p = [r]" "dp_next p = - 1" "dp_count p = 1"
  using assms by (rule length_3E) (auto simp: new_data_page_def page_simps intro: that)

section \<open>Splitting a page\<close>

text \<open>The two pages that a split leaves, before they are linked and written.\<close>

lemma splitAndInsert_ok:
  assumes "page_ok p" "dp_isFull p" "length mem = 3"
  obtains p1 q where "splitAndInsert mem s p r = Inr (s\<lparr>dt_file := dt_file s @ [q]\<rparr>, p1)"
    "page_ok p1" "page_ok q" "mset (live p1) + mset (live q) = add_mset r (mset (live p))"
    "dp_next q = dp_next p" "dp_next p1 = end_pos 0 dp_size_of (dt_file s)" "dp_count p1 \<noteq> 0" "dp_count q \<noteq> 0"
proof -
  obtain a b c n where p: "p = \<lparr>dp_records = [a, b, c], dp_next = n, dp_count = 3\<rparr>"
    using assms(1,2) by (cases rule: page_okE) (auto simp: page_simps)
  obtain m1 m2 m3 where mem: "mem = [m1, m2, m3]" using assms(3) by (rule length_3E)
  define blank :: "'a isam_record" where "blank = \<lparr>ir_key = - 1, ir_pos = - 1, ir_dup_pos = - 1\<rparr>"
  define p0 where "p0 = \<lparr>dp_records = [a, blank, blank], dp_next = n, dp_count = 1\<rparr>"
  define q0 where "q0 = \<lparr>dp_records = [b, c, m3], dp_next = n, dp_count = 2\<rparr>"
  have move: "split_move (Suc (Suc 0)) p (dp_setNext (new_data_page mem) (dp_next p)) 1 0 = Inr (p0, q0)"
    by (simp add: p mem page_simps new_data_page_def p0_def q0_def blank_def)
  have "\<exists>index. split_index (Suc (Suc 0)) p (ir_key r) = Inr index"
    by (auto simp: p page_simps)
  then obtain index where index: "split_index (Suc (Suc 0)) p (ir_key r) = Inr index" ..
  have ok: "page_ok p0" "page_ok q0" "\<not> dp_isFull p0" "\<not> dp_isFull q0" by (simp_all add: p0_def q0_def page_simps)
  have live: "mset (live p0) + mset (live q0) = mset (live p)" "live p0 = [a]" "live q0 = [b, c]" "live p = [a, b, c]"
    by (simp_all add: p0_def q0_def p page_simps)
  obtain p1 where p1: "dp_insertRecord p0 r = Inr p1" "page_ok p1" "mset (live p1) = add_mset r (mset (live p0))"
    "dp_next p1 = dp_next p0" "dp_count p1 = dp_count p0 + 1" using ok(1,3) by (rule dp_insertRecord_ok)
  obtain q1 where q1: "dp_insertRecord q0 r = Inr q1" "page_ok q1" "mset (live q1) = add_mset r (mset (live q0))"
    "dp_next q1 = dp_next q0" "dp_count q1 = dp_count q0 + 1" using ok(2,4) by (rule dp_insertRecord_ok)
  let ?e = "end_pos 0 dp_size_of (dt_file s)"
  have link: "page_ok (dp_setNext x ?e) = page_ok x" "live (dp_setNext x ?e) = live x" "dp_next (dp_setNext x ?e) = ?e"
    "dp_count (dp_setNext x ?e) = dp_count x" for x :: "'a data_page"
    by (simp_all add: dp_setNext_def page_ok_def live_def)
  have eq: "splitAndInsert mem s p r = bind_io (if int index < 1 then bind_io (dp_insertRecord p0 r) (\<lambda>page2. Inr (page2, q0))
      else bind_io (dp_insertRecord q0 r) (\<lambda>new_page2. Inr (p0, new_page2)))
      (\<lambda>(page2, new_page2). Inr (s\<lparr>dt_file := dt_file s @ [new_page2]\<rparr>, dp_setNext page2 ?e))"
  proof -
    have n: "nat (dp_count p - 1) = Suc (Suc 0)" "nat (dp_getCapacity - 1) = Suc (Suc 0)"
      "dp_getCapacity div 2 = 1" by (simp_all add: p dp_getCapacity_def)
    show ?thesis unfolding splitAndInsert_def Let_def n(1,3) n(2) index bind_io_Inr move by (simp add: dt_append_def)
  qed
  show thesis
  proof (cases "int index < 1")
    case True
    then have "splitAndInsert mem s p r = Inr (s\<lparr>dt_file := dt_file s @ [q0]\<rparr>, dp_setNext p1 ?e)" using eq p1(1) by simp
    then show thesis
      by (rule that) (use link p1 ok live in \<open>simp_all add: q0_def p0_def p\<close>)
  next
    case False
    then have "splitAndInsert mem s p r = Inr (s\<lparr>dt_file := dt_file s @ [q1]\<rparr>, dp_setNext p0 ?e)" using eq q1(1) by simp
    then show thesis
      by (rule that) (use link q1 ok live in \<open>simp_all add: q0_def p0_def p\<close>)
  qed
qed

end
