(* ===== verification/IsamChains.thy ===== *)
theory IsamChains
  imports IsamPages
begin

text \<open>
  The chains of data pages: what the data file holds below each of the 27 pages that \<open>build\<close> makes.  A search reads the
  chain its key leads to, and an addition of a new key adds one record to it, wherever in it.
\<close>

section \<open>Reading and writing pages\<close>

interpretation isam_pages: record_store "moveReadRecord 0 dp_size_of" "moveWriteRecord 0 dp_size_of" "\<lambda>rs r. rs @ [r]"
  "end_pos 0 dp_size_of"
  by (rule record_file_store) simp_all

definition dt_fetch :: "'k isam \<Rightarrow> physical_pos \<Rightarrow> 'k data_page option" where
  "dt_fetch s p = io_value (dt_read s p)"

lemma dt_fetch_read: "dt_fetch s p = Some x \<longleftrightarrow> dt_read s p = Inr x"
  by (simp add: dt_fetch_def)

lemma dt_fetch_neg1 [simp]: "dt_fetch s (- 1) = None"
  by (simp add: dt_fetch_def dt_read_def)

lemma dt_fetch_slot: "i < length (dt_file s) \<Longrightarrow> dt_fetch s (slot_pos 0 dp_size_of i) = Some (dt_file s ! i)"
  by (simp add: dt_fetch_read dt_read_def moveReadRecord_slot)

lemma dt_fetch_dom: "dom (dt_fetch s) \<subseteq> slot_pos 0 dp_size_of ` {..<length (dt_file s)}"
  using moveReadRecord_Inr[of 0 dp_size_of "dt_file s"] by (fastforce simp: dt_fetch_read dt_read_def)

lemma dt_fetch_end: "dt_fetch s (end_pos 0 dp_size_of (dt_file s)) = None"
  using dt_fetch_dom[of s] by (fastforce simp: end_pos_def dom_def)

lemma dt_fetch_cong: "dt_file s = dt_file s' \<Longrightarrow> dt_fetch s = dt_fetch s'"
  by (simp add: dt_fetch_def dt_read_def fun_eq_iff)

lemma dt_append_fetch: "dt_fetch (s\<lparr>dt_file := dt_file s @ [q]\<rparr>) = (dt_fetch s)(end_pos 0 dp_size_of (dt_file s) \<mapsto> q)"
  by (auto simp: fun_eq_iff dt_fetch_def dt_read_def moveReadRecord_snoc)

text \<open>Only the data file changes.\<close>

definition same_files :: "'k isam \<Rightarrow> 'k isam \<Rightarrow> bool" where
  "same_files s s' \<longleftrightarrow> (\<exists>ps. s' = s\<lparr>dt_file := ps\<rparr>)"

lemma same_files_refl [simp]: "same_files s (s\<lparr>dt_file := ps\<rparr>)"
  by (auto simp: same_files_def)

lemma same_files_trans: "same_files s s' \<Longrightarrow> same_files s' s'' \<Longrightarrow> same_files s s''"
  by (auto simp: same_files_def)

lemma dt_write_at:
  assumes "dt_fetch s p = Some x"
  obtains s' where "dt_write s p y = Inr s'" "same_files s s'" "dt_fetch s' = (dt_fetch s)(p \<mapsto> y)"
proof -
  have rd: "moveReadRecord 0 dp_size_of (dt_file s) p = Inr x" using assms by (simp add: dt_fetch_read dt_read_def)
  obtain ps where ps: "moveWriteRecord 0 dp_size_of (dt_file s) p y = Inr ps"
    using isam_pages.write_defined[OF rd] by auto
  have "moveReadRecord 0 dp_size_of ps q = (if q = p then Inr y else moveReadRecord 0 dp_size_of (dt_file s) q)" for q
    using isam_pages.read_written[OF rd ps] isam_pages.read_unwritten[OF rd ps, of q] by simp
  then have "dt_fetch (s\<lparr>dt_file := ps\<rparr>) = (dt_fetch s)(p \<mapsto> y)" by (simp add: dt_fetch_def dt_read_def fun_eq_iff)
  then show thesis using ps by (intro that[of "s\<lparr>dt_file := ps\<rparr>"]) (simp_all add: dt_write_def)
qed

section \<open>A chain\<close>

definition page_chain :: "'k isam \<Rightarrow> physical_pos \<Rightarrow> 'k data_page list \<Rightarrow> bool" where
  "page_chain s p C \<longleftrightarrow> lseg (dt_fetch s) dp_next p C (- 1) \<and> (\<forall>x\<in>set C. page_ok x \<and> dp_count x \<noteq> 0)"

abbreviation chain_records :: "'k data_page list \<Rightarrow> 'k isam_record list" where
  "chain_records C \<equiv> concat (map live C)"

abbreviation chain_ptrs :: "physical_pos \<Rightarrow> 'k data_page list \<Rightarrow> physical_pos set" where
  "chain_ptrs p C \<equiv> set (lptrs dp_next p C)"

lemma page_chain_Cons:
  "page_chain s p (x # C) \<longleftrightarrow> dt_fetch s p = Some x \<and> page_ok x \<and> dp_count x \<noteq> 0 \<and> page_chain s (dp_next x) C"
  by (auto simp: page_chain_def)

lemma page_chain_Nil: "page_chain s p [] \<longleftrightarrow> p = - 1"
  by (simp add: page_chain_def)

lemma page_chain_length:
  assumes "page_chain s p C"
  shows "length C \<le> length (dt_file s)"
proof -
  have "length C \<le> card (slot_pos 0 dp_size_of ` {..<length (dt_file s)})"
    using assms dt_fetch_dom[of s] unfolding page_chain_def by (intro lseg_length) auto
  also have "\<dots> \<le> length (dt_file s)" by (metis card_image_le card_lessThan finite_lessThan)
  finally show ?thesis .
qed

lemma page_chain_head: "page_chain s p (x # C) \<Longrightarrow> p \<notin> chain_ptrs (dp_next x) C"
  using lseg_distinct_ptrs[of "dt_fetch s" dp_next p "x # C" "- 1"] by (auto simp: page_chain_def)

lemma page_chain_ptrs: "page_chain s p C \<Longrightarrow> q \<in> chain_ptrs p C \<Longrightarrow> dt_fetch s q \<noteq> None"
  using lptrs_dom[of "dt_fetch s" dp_next p C "- 1"] by (auto simp: page_chain_def)

lemma page_chain_frame:
  "page_chain s p C \<Longrightarrow> (\<And>q. q \<in> chain_ptrs p C \<Longrightarrow> dt_fetch s' q = dt_fetch s q) \<Longrightarrow> page_chain s' p C"
  by (induction C arbitrary: p) (auto simp: page_chain_Cons page_chain_Nil)

section \<open>Search in a chain\<close>

lemma find_append: "find P (xs @ ys) = (case find P xs of None \<Rightarrow> find P ys | Some x \<Rightarrow> Some x)"
  by (induction xs) auto

lemma isam_search_chain_find:
  "page_chain s p C \<Longrightarrow> C \<noteq> [] \<Longrightarrow> length C \<le> n \<Longrightarrow>
     isam_search_chain n s p key res =
       (case find (\<lambda>r. ir_key r = key) (chain_records C) of None \<Rightarrow> Inr res | Some r \<Rightarrow> isam_raw_records s r res)"
proof (induction C arbitrary: p n)
  case (Cons x C)
  obtain m where n: "n = Suc m" "length C \<le> m" using Cons.prems(3) by (cases n) auto
  note x = Cons.prems(1)[unfolded page_chain_Cons]
  have rd: "dt_read s p = Inr x" using x by (simp add: dt_fetch_read)
  have "isam_search_chain n s p key res =
      bind_io (dp_find (nat (dp_count x)) x key 0) (\<lambda>found. case found of
        Some i \<Rightarrow> bind_io (dp_getRecord x i) (\<lambda>r. isam_raw_records s r res)
      | None \<Rightarrow> if dp_next x \<noteq> - 1 then isam_search_chain m s (dp_next x) key res else Inr res)"
    unfolding n(1) isam_search_chain.simps rd bind_io_Inr ..
  also have "\<dots> = (case find (\<lambda>r. ir_key r = key) (live x) of Some r \<Rightarrow> isam_raw_records s r res
      | None \<Rightarrow> if dp_next x \<noteq> - 1 then isam_search_chain m s (dp_next x) key res else Inr res)"
    by (rule dp_find_live) (use x in simp)
  also have "\<dots> = (case find (\<lambda>r. ir_key r = key) (chain_records (x # C)) of None \<Rightarrow> Inr res | Some r \<Rightarrow> isam_raw_records s r res)"
  proof (cases "C = []")
    case True
    then show ?thesis using x by (simp add: page_chain_Nil split: option.split)
  next
    case False
    then have "dp_next x \<noteq> - 1" using x by (cases C) (auto simp: page_chain_Cons)
    then show ?thesis using Cons.IH[of "dp_next x" m] False x n(2) by (simp add: find_append split: option.split)
  qed
  finally show ?case .
qed simp

section \<open>Insertion in a chain\<close>

text \<open>What an insertion leaves: the chain has one more record, and nothing outside it changes but the end of the file.\<close>

definition chain_added ::
  "'k isam \<Rightarrow> 'k isam \<Rightarrow> physical_pos \<Rightarrow> 'k data_page list \<Rightarrow> 'k data_page list \<Rightarrow> 'k isam_record \<Rightarrow> bool" where
  "chain_added s s' p C C' r \<longleftrightarrow>
     same_files s s' \<and> page_chain s' p C' \<and> C' \<noteq> [] \<and> mset (chain_records C') = add_mset r (mset (chain_records C)) \<and>
     (\<forall>q. q \<notin> chain_ptrs p C \<longrightarrow> q \<noteq> end_pos 0 dp_size_of (dt_file s) \<longrightarrow> dt_fetch s' q = dt_fetch s q) \<and>
     chain_ptrs p C' \<subseteq> insert (end_pos 0 dp_size_of (dt_file s)) (chain_ptrs p C)"

lemma chain_added_step:
  assumes "page_chain s p (x # C)" "chain_added s s' (dp_next x) C C' r"
  shows "chain_added s s' p (x # C) (x # C') r"
proof -
  have p: "p \<noteq> end_pos 0 dp_size_of (dt_file s)" "dt_fetch s p = Some x"
    using assms(1) dt_fetch_end[of s] by (auto simp: page_chain_Cons)
  then have "dt_fetch s' p = Some x" using assms(2) page_chain_head[OF assms(1)] by (auto simp: chain_added_def)
  then show ?thesis using assms p(1) by (auto simp: chain_added_def page_chain_Cons)
qed

lemma chain_write_head:
  assumes "page_chain s p (x # C)" "page_ok y" "dp_count y \<noteq> 0" "dp_next y = dp_next x"
    "mset (live y) = add_mset r (mset (live x))"
  shows "\<exists>s'. dt_write s p y = Inr s' \<and> chain_added s s' p (x # C) (y # C) r"
proof -
  have x: "dt_fetch s p = Some x" "page_chain s (dp_next x) C" using assms(1) by (simp_all add: page_chain_Cons)
  obtain s' where s': "dt_write s p y = Inr s'" "same_files s s'" "dt_fetch s' = (dt_fetch s)(p \<mapsto> y)"
    using x(1) by (rule dt_write_at)
  have "page_chain s' (dp_next x) C"
    by (rule page_chain_frame[OF x(2)]) (use s'(3) page_chain_head[OF assms(1)] in auto)
  then have "chain_added s s' p (x # C) (y # C) r" using s' assms by (auto simp: chain_added_def page_chain_Cons)
  then show ?thesis using s'(1) by blast
qed

lemma chain_link_head:
  assumes "page_chain s p (x # C)" "page_ok y" "dp_count y \<noteq> 0" "dp_next y = end_pos 0 dp_size_of (dt_file s)"
    "page_ok q" "dp_count q \<noteq> 0" "dp_next q = dp_next x" "mset (live y) + mset (live q) = add_mset r (mset (live x))"
  shows "\<exists>s'. dt_write (s\<lparr>dt_file := dt_file s @ [q]\<rparr>) p y = Inr s' \<and> chain_added s s' p (x # C) (y # q # C) r"
proof -
  let ?e = "end_pos 0 dp_size_of (dt_file s)" and ?s1 = "s\<lparr>dt_file := dt_file s @ [q]\<rparr>"
  have x: "dt_fetch s p = Some x" "page_chain s (dp_next x) C" using assms(1) by (simp_all add: page_chain_Cons)
  have pe: "p \<noteq> ?e" using x(1) dt_fetch_end[of s] by auto
  have "dt_fetch ?s1 p = Some x" using x(1) pe by (simp add: dt_append_fetch)
  then obtain s' where s': "dt_write ?s1 p y = Inr s'" "same_files ?s1 s'" "dt_fetch s' = (dt_fetch ?s1)(p \<mapsto> y)"
    by (rule dt_write_at)
  have f: "dt_fetch s' = (dt_fetch s)(?e \<mapsto> q, p \<mapsto> y)" using s'(3) by (simp add: dt_append_fetch)
  have "?e \<notin> chain_ptrs (dp_next x) C" using page_chain_ptrs[OF x(2), of ?e] dt_fetch_end[of s] by auto
  then have "page_chain s' (dp_next x) C"
    by (intro page_chain_frame[OF x(2)]) (use f page_chain_head[OF assms(1)] in auto)
  moreover have "same_files s s'" using same_files_trans[OF same_files_refl s'(2)] .
  moreover have "mset (live q) + mset (live y) = add_mset r (mset (live x))" using assms(8) by (simp add: add.commute)
  ultimately have "chain_added s s' p (x # C) (y # q # C) r"
    using f pe assms by (auto simp: chain_added_def page_chain_Cons)
  then show ?thesis using s'(1) by blast
qed

lemma isam_create_page_chain:
  assumes "page_chain s p [x]" "length mem = 3"
  shows "\<exists>s' C'. isam_create_page mem s p x r = Inr s' \<and> chain_added s s' p [x] C' r"
proof -
  let ?e = "end_pos 0 dp_size_of (dt_file s)"
  obtain q where q: "dp_setRecord (new_data_page mem) r 0 = Inr q" "page_ok q" "live q = [r]" "dp_next q = - 1" "dp_count q = 1"
    using assms(2) by (rule dp_first_record)
  have x: "page_ok x" "dp_count x \<noteq> 0" "dp_next x = - 1" using assms(1) by (simp_all add: page_chain_Cons page_chain_Nil)
  have "\<exists>s'. dt_write (s\<lparr>dt_file := dt_file s @ [q]\<rparr>) p (dp_setNext x ?e) = Inr s' \<and>
      chain_added s s' p [x] [dp_setNext x ?e, q] r"
    using x q by (intro chain_link_head[OF assms(1)]) (simp_all add: dp_setNext_def page_ok_def live_def)
  then show ?thesis using q(1) by (auto simp: isam_create_page_def dt_append_def)
qed

lemma isam_insert_in_page_new:
  assumes "page_chain s p (x # C)" "ir_key r \<notin> ir_key ` set (live x)" "length mem = 3"
  shows "\<exists>s' C'. isam_insert_in_page mem s p x r = Inr s' \<and> chain_added s s' p (x # C) C' r"
proof -
  have x: "page_ok x" "dp_count x \<noteq> 0" using assms(1) by (simp_all add: page_chain_Cons)
  have none: "dp_find (nat (dp_count x)) x (ir_key r) 0 = Inr None" by (rule dp_find_absent[OF x(1) assms(2)])
  show ?thesis
  proof (cases "dp_isFull x")
    case True
    obtain y q where y: "splitAndInsert mem s x r = Inr (s\<lparr>dt_file := dt_file s @ [q]\<rparr>, y)"
      "page_ok y" "page_ok q" "mset (live y) + mset (live q) = add_mset r (mset (live x))"
      "dp_next q = dp_next x" "dp_next y = end_pos 0 dp_size_of (dt_file s)" "dp_count y \<noteq> 0" "dp_count q \<noteq> 0"
      using x(1) True assms(3) by (rule splitAndInsert_ok)
    have "\<exists>s'. dt_write (s\<lparr>dt_file := dt_file s @ [q]\<rparr>) p y = Inr s' \<and> chain_added s s' p (x # C) (y # q # C) r"
      by (rule chain_link_head[OF assms(1) y(2,7,6,3,8,5,4)])
    then show ?thesis using y(1) True by (auto simp: isam_insert_in_page_def none)
  next
    case False
    obtain y where y: "dp_insertRecord x r = Inr y" "page_ok y" "mset (live y) = add_mset r (mset (live x))"
      "dp_next y = dp_next x" "dp_count y = dp_count x + 1" using x(1) False by (rule dp_insertRecord_ok)
    have "dp_count y \<noteq> 0" using y(5) x(1) by (simp add: page_ok_def)
    from chain_write_head[OF assms(1) y(2) this y(4,3)] show ?thesis using y(1) False
      by (auto simp: isam_insert_in_page_def none)
  qed
qed

lemma isam_insert_chain_new:
  "page_chain s p C \<Longrightarrow> C \<noteq> [] \<Longrightarrow> ir_key r \<notin> ir_key ` set (chain_records C) \<Longrightarrow> length mem = 3 \<Longrightarrow> length C \<le> n \<Longrightarrow>
     \<exists>s' C'. isam_insert_chain n mem s p r = Inr s' \<and> chain_added s s' p C C' r"
proof (induction C arbitrary: p n)
  case (Cons x C)
  obtain m where n: "n = Suc m" "length C \<le> m" using Cons.prems(5) by (cases n) auto
  note x = Cons.prems(1)[unfolded page_chain_Cons]
  have rd: "dt_read s p = Inr x" using x by (simp add: dt_fetch_read)
  have ne: "\<not> dp_isEmpty x" using x by (simp add: dp_isEmpty_def)
  obtain l where l: "dp_last x = Inr l" using x ne by (auto elim: dp_last_live)
  have eq: "isam_insert_chain n mem s p r = (if ir_key r \<le> ir_key l then isam_insert_in_page mem s p x r
      else if dp_next x \<noteq> - 1 then isam_insert_chain m mem s (dp_next x) r
      else if \<not> dp_isFull x then bind_io (dp_insertRecord x r) (\<lambda>page1. dt_write s p page1)
      else isam_create_page mem s p x r)"
    unfolding n(1) using rd ne l by simp
  consider "ir_key r \<le> ir_key l" | "\<not> ir_key r \<le> ir_key l" "dp_next x \<noteq> - 1"
    | "\<not> ir_key r \<le> ir_key l" "dp_next x = - 1" "\<not> dp_isFull x"
    | "\<not> ir_key r \<le> ir_key l" "dp_next x = - 1" "dp_isFull x" by blast
  then show ?case
  proof cases
    case 1
    have "ir_key r \<notin> ir_key ` set (live x)" using Cons.prems(3) by auto
    from isam_insert_in_page_new[OF Cons.prems(1) this Cons.prems(4)] show ?thesis using eq 1 by simp
  next
    case 2
    then have "C \<noteq> []" using x by (auto simp: page_chain_Nil)
    then obtain s' C' where "isam_insert_chain m mem s (dp_next x) r = Inr s'" "chain_added s s' (dp_next x) C C' r"
      using Cons.IH[of "dp_next x" m] x n(2) Cons.prems(3,4) by auto
    then show ?thesis using chain_added_step[OF Cons.prems(1)] 2 eq by auto
  next
    case 3
    obtain y where y: "dp_insertRecord x r = Inr y" "page_ok y" "mset (live y) = add_mset r (mset (live x))"
      "dp_next y = dp_next x" "dp_count y = dp_count x + 1" using x 3(3) by (auto elim: dp_insertRecord_ok)
    have "dp_count y \<noteq> 0" using y(5) x by (simp add: page_ok_def)
    from chain_write_head[OF Cons.prems(1) y(2) this y(4,3)] show ?thesis using y(1) 3 eq by auto
  next
    case 4
    then have "C = []" using x by (cases C) (auto simp: page_chain_Cons)
    then show ?thesis using isam_create_page_chain[of s p x mem r] Cons.prems(1,4) 4 eq by simp
  qed
qed simp

end
