(* ===== verification/IsamContract.thy ===== *)
theory IsamContract
  imports IsamChains
begin

text \<open>
  The ISAM index against its contents: the records of the 27 chains, each of which holds the keys between two of the
  records that the index was built from.
\<close>

section \<open>The keys of a chain\<close>

definition in_bucket :: "('k :: linorder) isam_record list \<Rightarrow> nat \<Rightarrow> 'k \<Rightarrow> bool" where
  "in_bucket d j k \<longleftrightarrow> (j \<noteq> 0 \<longrightarrow> ir_key (d ! (3 * j)) \<le> k) \<and> (j \<noteq> 26 \<longrightarrow> k < ir_key (d ! (3 * j + 3)))"

abbreviation search_route :: "('k :: linorder) isam_record list \<Rightarrow> 'k \<Rightarrow> nat" where
  "search_route d k \<equiv> isam_route (\<lambda>x. x \<le> k) d"

lemma route_bucket: "in_bucket d (search_route d k) k"
  using isam_route_bounds(2,3)[of "\<lambda>x. x \<le> k" d] by (auto simp: in_bucket_def)

definition separated :: "('k :: linorder) isam_record list \<Rightarrow> bool" where
  "separated d \<longleftrightarrow> 81 \<le> length d \<and> sorted_wrt (<) (map ir_key d)"

lemma separated_mono: "separated d \<Longrightarrow> i \<le> j \<Longrightarrow> j < 81 \<Longrightarrow> ir_key (d ! i) \<le> ir_key (d ! j)"
  using sorted_wrt_nth_less[of "(<)" "map ir_key d" i j] by (cases "i = j") (auto simp: separated_def)

lemma separated_less: "separated d \<Longrightarrow> i < j \<Longrightarrow> j < 81 \<Longrightarrow> ir_key (d ! i) < ir_key (d ! j)"
  using sorted_wrt_nth_less[of "(<)" "map ir_key d" i j] by (auto simp: separated_def)

lemma bucket_less:
  assumes "separated d" "i < j" "j < 27" "in_bucket d i k" "in_bucket d j k'"
  shows "k < k'"
proof -
  have "k < ir_key (d ! (3 * i + 3))" using assms(2-4) by (simp add: in_bucket_def)
  also have "\<dots> \<le> ir_key (d ! (3 * j))" using assms(2,3) by (intro separated_mono[OF assms(1)]) auto
  also have "\<dots> \<le> k'" using assms(2,5) by (simp add: in_bucket_def)
  finally show ?thesis .
qed

lemma bucket_unique: "separated d \<Longrightarrow> in_bucket d i k \<Longrightarrow> in_bucket d j k \<Longrightarrow> i < 27 \<Longrightarrow> j < 27 \<Longrightarrow> i = j"
  using bucket_less[of d i j k k] bucket_less[of d j i k k] by (cases i j rule: linorder_cases) auto

section \<open>The invariant\<close>

abbreviation page_pos :: "nat \<Rightarrow> physical_pos" where
  "page_pos j \<equiv> slot_pos 0 dp_size_of j"

definition isam_contents :: "(nat \<Rightarrow> 'k data_page list) \<Rightarrow> 'k isam_record list" where
  "isam_contents C = concat (map (\<lambda>j. chain_records (C j)) [0..<27])"

definition isam_repr ::
  "'k :: linordered_idom isam \<Rightarrow> 'k isam_record list \<Rightarrow> (nat \<Rightarrow> 'k data_page list) \<Rightarrow> bool" where
  "isam_repr s d C \<longleftrightarrow> isam_built s d \<and> separated d \<and> distinct (map ir_key (isam_contents C)) \<and>
     (\<forall>j<27. page_chain s (page_pos j) (C j) \<and> C j \<noteq> [] \<and> (\<forall>r\<in>set (chain_records (C j)). in_bucket d j (ir_key r))) \<and>
     (\<forall>i<27. \<forall>j<27. i \<noteq> j \<longrightarrow> chain_ptrs (page_pos i) (C i) \<inter> chain_ptrs (page_pos j) (C j) = {})"

lemma isam_reprD:
  assumes "isam_repr s d C"
  shows "isam_built s d" "separated d" "distinct (map ir_key (isam_contents C))"
    "\<And>j. j < 27 \<Longrightarrow> page_chain s (page_pos j) (C j)" "\<And>j. j < 27 \<Longrightarrow> C j \<noteq> []"
    "\<And>j r. j < 27 \<Longrightarrow> r \<in> set (chain_records (C j)) \<Longrightarrow> in_bucket d j (ir_key r)"
    "\<And>i j. i < 27 \<Longrightarrow> j < 27 \<Longrightarrow> i \<noteq> j \<Longrightarrow> chain_ptrs (page_pos i) (C i) \<inter> chain_ptrs (page_pos j) (C j) = {}"
  using assms unfolding isam_repr_def by blast+

lemma in_contents: "r \<in> set (isam_contents C) \<longleftrightarrow> (\<exists>j<27. r \<in> set (chain_records (C j)))"
  by (auto simp: isam_contents_def)

lemma find_concat_only:
  "j < n \<Longrightarrow> (\<And>i x. i < n \<Longrightarrow> i \<noteq> j \<Longrightarrow> x \<in> set (f i) \<Longrightarrow> \<not> P x) \<Longrightarrow> find P (concat (map f [0..<n])) = find P (f j)"
proof (induction n)
  case (Suc n)
  have none: "find P xs = None" if "\<forall>x\<in>set xs. \<not> P x" for xs using that by (simp add: find_None_iff)
  show ?case
  proof (cases "j = n")
    case True
    have "find P (concat (map f [0..<n])) = None" using Suc.prems(2)[of i x for i x] True
      by (intro none) (fastforce simp: less_Suc_eq)
    then show ?thesis using True by (simp add: find_append)
  next
    case False
    have "find P (concat (map f [0..<n])) = find P (f j)" using Suc.prems False
      by (intro Suc.IH) (auto simp: less_Suc_eq dest!: Suc.prems(2)[rotated 2])
    moreover have "find P (f n) = None" using Suc.prems(2)[of n] False by (intro none) auto
    ultimately show ?thesis by (simp add: find_append split: option.split)
  qed
qed simp

lemma contents_find:
  assumes "isam_repr s d C"
  shows "find (\<lambda>r. ir_key r = k) (isam_contents C) = find (\<lambda>r. ir_key r = k) (chain_records (C (search_route d k)))"
  unfolding isam_contents_def
proof (rule find_concat_only)
  note h = isam_reprD[OF assms]
  show "search_route d k < 27" by (rule isam_route_bounds)
  show "ir_key x \<noteq> k" if "i < 27" "i \<noteq> search_route d k" "x \<in> set (chain_records (C i))" for i x
    using bucket_unique[OF h(2) _ route_bucket that(1) isam_route_bounds(1)] h(6)[OF that(1,3)] that(2) by auto
qed

lemma built_root_pos [simp]: "built_root \<noteq> - 1"
  by (simp add: built_root_def)

lemma isam_search_repr:
  assumes "isam_repr s d C"
  shows "isam_search s k = (case find (\<lambda>r. ir_key r = k) (isam_contents C) of None \<Rightarrow> Inr [] | Some r \<Rightarrow> isam_raw_records s r [])"
proof -
  note h = isam_reprD[OF assms]
  let ?j = "search_route d k"
  have root: "root s = built_root" "idx_fuel s = 14" using h(1) by (simp_all add: isam_built_def built_idx_def)
  have "isam_search_node 14 s (root s) k [] = isam_search_chain (dt_fuel s) s (page_pos ?j) k []"
    by (rule searching.down_built[OF h(1)]) simp
  also have "\<dots> = (case find (\<lambda>r. ir_key r = k) (chain_records (C ?j)) of None \<Rightarrow> Inr [] | Some r \<Rightarrow> isam_raw_records s r [])"
    using isam_route_bounds(1) h(4,5) page_chain_length[OF h(4)] by (intro isam_search_chain_find) (auto simp: le_SucI)
  finally show ?thesis using root by (simp add: isam_search_def contents_find[OF assms] split: option.split)
qed

section \<open>Adding a new key\<close>

lemma contents_update:
  assumes "j < 27" "mset (chain_records C'j) = add_mset r (mset (chain_records (C j)))"
  shows "mset (isam_contents (C(j := C'j))) = add_mset r (mset (isam_contents C))"
proof -
  have "[0..<27] = [0..<j] @ [j..<27]" using assms(1) upt_add_eq_append[of 0 j "27 - j"] by simp
  then have "[0..<27] = [0..<j] @ j # [Suc j..<27]" using assms(1) by (simp add: upt_conv_Cons)
  moreover have "map (\<lambda>i. chain_records ((C(j := C'j)) i)) [0..<j] = map (\<lambda>i. chain_records (C i)) [0..<j]"
    "map (\<lambda>i. chain_records ((C(j := C'j)) i)) [Suc j..<27] = map (\<lambda>i. chain_records (C i)) [Suc j..<27]" by simp_all
  ultimately show ?thesis using assms(2)
    by (simp only: isam_contents_def map_append list.map concat_append concat.simps mset_append fun_upd_same) simp
qed

text \<open>One chain is changed, in its own pages and a new one at the end of the file.\<close>

lemma isam_repr_update:
  assumes "isam_repr s d C" "j < 27" "same_files s s'" "page_chain s' (page_pos j) D" "D \<noteq> []" "dt_fetch s e = None"
    and other: "\<And>q. q \<notin> chain_ptrs (page_pos j) (C j) \<Longrightarrow> q \<noteq> e \<Longrightarrow> dt_fetch s' q = dt_fetch s q"
    and ptrs: "chain_ptrs (page_pos j) D \<subseteq> insert e (chain_ptrs (page_pos j) (C j))"
    and bucket: "\<And>r. r \<in> set (chain_records D) \<Longrightarrow> in_bucket d j (ir_key r)"
    and dist: "distinct (map ir_key (isam_contents (C(j := D))))"
  shows "isam_repr s' d (C(j := D))"
proof -
  note h = isam_reprD[OF assms(1)]
  let ?C = "C(j := D)"
  have e: "e \<notin> chain_ptrs (page_pos i) (C i)" if "i < 27" for i
    using page_chain_ptrs[OF h(4)[OF that], of e] assms(6) by auto
  have chains: "page_chain s' (page_pos i) (?C i)" if "i < 27" for i
  proof (cases "i = j")
    case False
    have "dt_fetch s' q = dt_fetch s q" if "q \<in> chain_ptrs (page_pos i) (C i)" for q
      using other h(7)[OF \<open>i < 27\<close> assms(2) False] e[OF \<open>i < 27\<close>] that by blast
    then show ?thesis using page_chain_frame[OF h(4)[OF that]] False by simp
  qed (use assms(4) in simp)
  have disj: "chain_ptrs (page_pos i) (?C i) \<inter> chain_ptrs (page_pos k) (?C k) = {}" if "i < 27" "k < 27" "i \<noteq> k" for i k
    using h(7)[OF that] e[OF that(1)] e[OF that(2)] ptrs that(3) by (auto simp: fun_upd_def)
  have "in_bucket d i (ir_key x)" if "i < 27" "x \<in> set (chain_records (?C i))" for i x
    using that h(6)[OF that(1)] bucket by (cases "i = j") auto
  moreover have "isam_built s' d" using h(1) assms(3) by (auto simp: isam_built_def same_files_def)
  ultimately show ?thesis unfolding isam_repr_def using h(2) chains disj h(5) assms(5) dist by simp
qed

lemma isam_add_repr:
  assumes "isam_repr s d C" "ir_key r \<notin> ir_key ` set (isam_contents C)" "length mem = 3"
  shows "\<exists>s' C'. isam_add_record mem s r = Inr (s', [ir_pos r]) \<and> isam_repr s' d C' \<and>
    mset (isam_contents C') = add_mset r (mset (isam_contents C)) \<and> dp_file s' = dp_file s"
proof -
  note h = isam_reprD[OF assms(1)]
  let ?j = "search_route d (ir_key r)"
  have j: "?j < 27" by (rule isam_route_bounds)
  have root: "root s = built_root" "idx_fuel s = 14" using h(1) by (simp_all add: isam_built_def built_idx_def)
  have down: "isam_insert_node 14 mem s (root s) r = isam_insert_chain (dt_fuel s) mem s (page_pos ?j) r"
    by (rule inserting.down_built[OF h(1)]) simp
  have "ir_key r \<notin> ir_key ` set (chain_records (C ?j))" using assms(2) j by (auto simp: in_contents image_iff)
  moreover have "length (C ?j) \<le> dt_fuel s" using page_chain_length[OF h(4)[OF j]] by simp
  ultimately obtain s' D where s': "isam_insert_chain (dt_fuel s) mem s (page_pos ?j) r = Inr s'"
    "chain_added s s' (page_pos ?j) (C ?j) D r"
    using isam_insert_chain_new[OF h(4)[OF j] h(5)[OF j] _ assms(3), of r "dt_fuel s"] by blast
  note a = s'(2)[unfolded chain_added_def]
  let ?C = "C(?j := D)"
  have contents: "mset (isam_contents ?C) = add_mset r (mset (isam_contents C))" by (rule contents_update[OF j]) (use a in blast)
  have "set (chain_records D) = insert r (set (chain_records (C ?j)))"
    using a arg_cong[of _ _ set_mset] by (metis set_mset_add_mset_insert set_mset_mset)
  then have bucket: "in_bucket d ?j (ir_key x)" if "x \<in> set (chain_records D)" for x
    using that h(6)[OF j] route_bucket[of d "ir_key r"] by auto
  have "mset (map ir_key (isam_contents ?C)) = add_mset (ir_key r) (mset (map ir_key (isam_contents C)))"
    using arg_cong[OF contents, of "image_mset ir_key"] by simp
  then have "distinct (map ir_key (isam_contents ?C))"
    using h(3) assms(2) mset_eq_imp_distinct_iff[of "map ir_key (isam_contents ?C)" "ir_key r # map ir_key (isam_contents C)"]
    by simp
  then have "isam_repr s' d ?C"
    using a bucket by (intro isam_repr_update[OF assms(1) j _ _ _ dt_fetch_end]) blast+
  moreover have "isam_add_record mem s r = Inr (s', [ir_pos r])"
    using down s'(1) root by (simp add: isam_add_record_def)
  moreover have "dp_file s' = dp_file s" using a by (auto simp: same_files_def)
  ultimately show ?thesis using contents by blast
qed

end
