(* ===== verification/IsamQueries.thy ===== *)
theory IsamQueries
  imports IsamContract
begin

text \<open>
  The contents after \<open>bulk_insert\<close>, and the range search.
\<close>

section \<open>Building\<close>

lemma take_by_3: "3 * n \<le> length d \<Longrightarrow> concat (map (\<lambda>j. [d ! (3 * j), d ! (3 * j + 1), d ! (3 * j + 2)]) [0..<n]) = take (3 * n) d"
proof (induction n)
  case (Suc n)
  have "take (3 * Suc n) d = take (3 * n) d @ [d ! (3 * n), d ! (3 * n + 1), d ! (3 * n + 2)]"
    using Suc.prems take_Suc_conv_app_nth[of "3 * n" d] take_Suc_conv_app_nth[of "3 * n + 1" d]
      take_Suc_conv_app_nth[of "3 * n + 2" d] by (simp add: numeral_2_eq_2 numeral_3_eq_3)
  then show ?case using Suc by simp
qed simp

definition first_pages :: "'k isam_record list \<Rightarrow> nat \<Rightarrow> 'k data_page list" where
  "first_pages d j = [built_page d (3 * j)]"

lemma first_contents: "81 \<le> length d \<Longrightarrow> isam_contents (first_pages d) = take 81 d"
  using take_by_3[of 27 d] by (simp add: isam_contents_def first_pages_def built_page_def live_def numeral_3_eq_3 numeral_2_eq_2)

lemma isam_built_repr:
  assumes "separated d" "standard_metadata (metadata s)" "root s = built_root" "idx_file s = built_idx d"
    "dt_file s = built_pages d 0 27"
  shows "isam_repr s d (first_pages d)"
proof -
  have len: "81 \<le> length d" and srt: "sorted_wrt (<) (map ir_key d)" using assms(1) by (simp_all add: separated_def)
  have dist: "distinct (map ir_key (isam_contents (first_pages d)))"
    using srt strict_sorted_iff[of "map ir_key d"] by (simp add: first_contents[OF len] take_map[symmetric])
  have bucket: "in_bucket d j (ir_key r)" if "j < 27" "r \<in> set (chain_records (first_pages d j))" for j r
  proof -
    have "r = d ! (3 * j + 0) \<or> r = d ! (3 * j + 1) \<or> r = d ! (3 * j + 2)"
      using that(2) by (auto simp: first_pages_def built_page_def live_def numeral_3_eq_3 numeral_2_eq_2)
    then obtain t where t: "t < 3" "r = d ! (3 * j + t)" by (elim disjE) (erule that[rotated], simp)+
    have "j \<noteq> 26 \<Longrightarrow> 3 * j + 3 < 81" using that(1) by simp
    then show ?thesis using separated_mono[OF assms(1), of "3 * j" "3 * j + t"]
        separated_less[OF assms(1), of "3 * j + t" "3 * j + 3"] t that(1) by (auto simp: in_bucket_def)
  qed
  have page: "page_chain s (page_pos j) (first_pages d j)" if "j < 27" for j
    using that dt_fetch_slot[of j s] assms(5)
    by (simp add: first_pages_def page_chain_Cons page_chain_Nil built_pages_def) (simp add: built_page_def page_ok_def)
  show ?thesis unfolding isam_repr_def
    using assms dist bucket page by (auto simp: isam_built_def first_pages_def)
qed

lemma build_rest_repr:
  "isam_repr s d C \<Longrightarrow> distinct (map ir_key rs) \<Longrightarrow> ir_key ` set rs \<inter> ir_key ` set (isam_contents C) = {} \<Longrightarrow> length mem = 3 \<Longrightarrow>
     \<exists>s' C'. build_rest mem s rs = Inr s' \<and> isam_repr s' d C' \<and>
       mset (isam_contents C') = mset (isam_contents C) + mset rs \<and> dp_file s' = dp_file s"
proof (induction rs arbitrary: s C)
  case (Cons r rs)
  obtain s1 C1 where s1: "isam_add_record mem s r = Inr (s1, [ir_pos r])" "isam_repr s1 d C1"
    "mset (isam_contents C1) = add_mset r (mset (isam_contents C))" "dp_file s1 = dp_file s"
    using isam_add_repr[OF Cons.prems(1) _ Cons.prems(4), of r] Cons.prems(3) by auto
  have "set (isam_contents C1) = insert r (set (isam_contents C))"
    using arg_cong[OF s1(3), of set_mset] by simp
  then obtain s' C' where "build_rest mem s1 rs = Inr s'" "isam_repr s' d C'"
    "mset (isam_contents C') = mset (isam_contents C1) + mset rs" "dp_file s' = dp_file s1"
    using Cons.IH[OF s1(2) _ _ Cons.prems(4)] Cons.prems(2,3) by auto
  moreover have "build_rest mem s (r # rs) = build_rest mem s1 rs" using s1(1) by simp
  ultimately show ?case using s1(3,4) by (intro exI[of _ s'] exI[of _ C']) simp
qed auto

text \<open>\<open>bulk_insert\<close> builds the index from the first 81 records, and adds the rest one by one.\<close>

lemma isam_bulk_start:
  assumes "81 \<le> length data" "distinct (map fst data)" "standard_metadata (metadata s)" "length mem = 3" "length kmem = 2"
    and srt: "\<And>xs. mset (srt xs) = mset xs" "\<And>xs. sorted (map ir_key (srt xs))"
  obtains s3 d where "isam_bulk_insert srt kmem mem s data = bind_io (build_rest mem s3 (drop 81 d)) (\<lambda>s1. Inr (s1, [1], [True]))"
    "isam_repr s3 d (first_pages d)" "mset d = mset (map (\<lambda>(k, p). new_isam_record k p) data)" "dp_file s3 = []"
    "separated d"
proof -
  let ?data = "map (\<lambda>(k, p). new_isam_record k p) data"
  let ?d = "srt ?data"
  let ?s3 = "s\<lparr>dp_file := [], dt_file := built_pages ?d 0 27, idx_file := built_idx ?d, root := built_root,
      metadata := (metadata s)\<lparr>root_position := built_root\<rparr>\<rparr>"
  have len: "length ?d = length data" using mset_eq_length[OF srt(1), of ?data] by simp
  have keys: "map ir_key ?data = map fst data" by (auto simp: new_isam_record_def)
  have "mset (map ir_key ?d) = mset (map fst data)" using srt(1)[of ?data] keys by (metis mset_map)
  then have dist: "distinct (map ir_key ?d)" using assms(2) mset_eq_imp_distinct_iff by blast
  then have sep: "separated ?d" using srt(2)[of ?data] strict_sorted_iff len assms(1) by (auto simp: separated_def)
  have build: "isam_build srt kmem mem s ?data = build_rest mem ?s3 (drop 81 ?d)"
    using assms len by (intro isam_build_eq) simp_all
  have "isam_repr ?s3 ?d (first_pages ?d)"
    using sep assms(3) by (intro isam_built_repr) (simp_all add: standard_metadata_def)
  then show thesis using that[of ?s3 ?d] srt(1)[of ?data] sep build by (simp add: isam_bulk_insert_def)
qed

lemma isam_bulk_repr:
  assumes "81 \<le> length data" "distinct (map fst data)" "standard_metadata (metadata s)" "length mem = 3" "length kmem = 2"
    and srt: "\<And>xs. mset (srt xs) = mset xs" "\<And>xs. sorted (map ir_key (srt xs))"
  shows "\<exists>s' d C. isam_bulk_insert srt kmem mem s data = Inr (s', [1], [True]) \<and> isam_repr s' d C \<and> dp_file s' = [] \<and>
    mset (isam_contents C) = mset (map (\<lambda>(k, p). new_isam_record k p) data)"
proof -
  obtain s3 d where d: "isam_bulk_insert srt kmem mem s data = bind_io (build_rest mem s3 (drop 81 d)) (\<lambda>s1. Inr (s1, [1], [True]))"
    "isam_repr s3 d (first_pages d)" "mset d = mset (map (\<lambda>(k, p). new_isam_record k p) data)" "dp_file s3 = []" "separated d"
    using isam_bulk_start[where srt = srt, OF assms] by blast
  have first: "isam_contents (first_pages d) = take 81 d" using d(5) by (intro first_contents) (simp add: separated_def)
  have "distinct (map ir_key (take 81 d @ drop 81 d))" using d(5) by (simp add: separated_def strict_sorted_iff)
  then have "distinct (map ir_key (drop 81 d))" "ir_key ` set (drop 81 d) \<inter> ir_key ` set (take 81 d) = {}"
    unfolding map_append distinct_append by (simp_all add: Int_commute)
  then obtain s' C' where s': "build_rest mem s3 (drop 81 d) = Inr s'" "isam_repr s' d C'"
    "mset (isam_contents C') = mset (take 81 d) + mset (drop 81 d)" "dp_file s' = dp_file s3"
    using build_rest_repr[OF d(2), of "drop 81 d" mem] assms(4) unfolding first by blast
  have "mset (take 81 d) + mset (drop 81 d) = mset d" by (metis append_take_drop_id mset_append)
  then show ?thesis using s' d(1,3,4) by auto
qed

section \<open>Range search\<close>

text \<open>Without duplicates; the last key that was read decides whether the next chain is read.\<close>

definition no_dups :: "'k isam_record list \<Rightarrow> bool" where
  "no_dups rs \<longleftrightarrow> (\<forall>r\<in>set rs. ir_dup_pos r = - 1)"

lemma no_dups_append [simp]: "no_dups (xs @ ys) \<longleftrightarrow> no_dups xs \<and> no_dups ys"
  by (auto simp: no_dups_def)

lemma isam_raw_single [simp]: "ir_dup_pos r = - 1 \<Longrightarrow> isam_raw_records s r res = Inr (res @ [ir_pos r])"
  by (simp add: isam_raw_records_def)

abbreviation range_of :: "('k :: linorder) \<Rightarrow> 'k \<Rightarrow> 'k isam_record list \<Rightarrow> physical_pos list" where
  "range_of lo hi rs \<equiv> map ir_pos (filter (\<lambda>r. lo \<le> ir_key r \<and> ir_key r \<le> hi) rs)"

lemma isam_range_page_live:
  assumes "page_ok p" "dp_count p \<noteq> 0" "no_dups (live p)"
  shows "isam_range_page (nat (dp_count p)) s p 0 lo hi key res = Inr (ir_key (last (live p)), res @ range_of lo hi (live p))"
  using assms by (cases rule: page_okE) (simp_all add: page_simps no_dups_def)

lemma isam_range_chain_live:
  "page_chain s p C \<Longrightarrow> C \<noteq> [] \<Longrightarrow> length C \<le> n \<Longrightarrow> no_dups (chain_records C) \<Longrightarrow>
     isam_range_chain n s p lo hi key res = Inr (ir_key (last (chain_records C)), res @ range_of lo hi (chain_records C))"
proof (induction C arbitrary: p n key res)
  case (Cons x C)
  obtain m where n: "n = Suc m" "length C \<le> m" using Cons.prems(3) by (cases n) auto
  note x = Cons.prems(1)[unfolded page_chain_Cons]
  have rd: "dt_read s p = Inr x" using x by (simp add: dt_fetch_read)
  have page: "isam_range_page (nat (dp_count x)) s x 0 lo hi key res = Inr (ir_key (last (live x)), res @ range_of lo hi (live x))"
    using x Cons.prems(4) by (intro isam_range_page_live) simp_all
  have eq: "isam_range_chain n s p lo hi key res =
      (if dp_next x \<noteq> - 1 then isam_range_chain m s (dp_next x) lo hi (ir_key (last (live x))) (res @ range_of lo hi (live x))
       else Inr (ir_key (last (live x)), res @ range_of lo hi (live x)))"
    unfolding n(1) isam_range_chain.simps rd bind_io_Inr page using x by (simp add: dp_isEmpty_def)
  show ?case
  proof (cases "C = []")
    case True
    then show ?thesis using x eq by (simp add: page_chain_Nil)
  next
    case False
    then have nxt: "dp_next x \<noteq> - 1" using x by (cases C) (auto simp: page_chain_Cons)
    have "chain_records C \<noteq> []"
      using x False by (cases C) (auto simp: page_chain_Cons page_ok_def live_def)
    then show ?thesis using Cons.IH[of "dp_next x" m] False x n(2) nxt eq Cons.prems(4) by simp
  qed
qed simp

lemma page_pos_Suc: "page_pos j + dp_size_of = page_pos (Suc j)"
  by (simp add: slot_pos_def algebra_simps)

lemma page_pos_less: "page_pos i < page_pos j \<longleftrightarrow> i < j"
  using isam_sizes(1) by (simp add: slot_pos_def)

lemma isam_range_pages_live:
  assumes "isam_repr s d C" "no_dups (isam_contents C)"
  shows "j < 27 \<Longrightarrow> 27 - j \<le> n \<Longrightarrow> isam_range_pages n s (page_pos j) (page_pos 27) lo hi key res =
    Inr (res @ range_of lo hi (concat (map (\<lambda>j. chain_records (C j)) [j..<27])))"
proof (induction n arbitrary: j key res)
  case (Suc n)
  note h = isam_reprD[OF assms(1)]
  have nd: "no_dups (chain_records (C j))" using assms(2) Suc.prems(1) by (auto simp: no_dups_def in_contents)
  have chain: "isam_range_chain (dt_fuel s) s (page_pos j) lo hi key res =
      Inr (ir_key (last (chain_records (C j))), res @ range_of lo hi (chain_records (C j)))"
    using Suc.prems(1) h(4,5) page_chain_length[OF h(4)] nd by (intro isam_range_chain_live) (auto simp: le_SucI)
  let ?k = "ir_key (last (chain_records (C j)))"
  have ne: "chain_records (C j) \<noteq> []"
    using h(4,5)[OF Suc.prems(1)] by (cases "C j") (auto simp: page_chain_Cons page_ok_def live_def)
  have eq: "isam_range_pages (Suc n) s (page_pos j) (page_pos 27) lo hi key res =
      (if Suc j < 27 \<and> ?k \<le> hi then isam_range_pages n s (page_pos (Suc j)) (page_pos 27) lo hi ?k (res @ range_of lo hi (chain_records (C j)))
       else Inr (res @ range_of lo hi (chain_records (C j))))"
    unfolding isam_range_pages.simps chain by (simp add: Let_def page_pos_Suc page_pos_less)
  have split: "[j..<27] = j # [Suc j..<27]" using Suc.prems(1) by (simp add: upt_conv_Cons)
  show ?case
  proof (cases "Suc j < 27 \<and> ?k \<le> hi")
    case True
    then show ?thesis unfolding eq using Suc.IH[of "Suc j"] Suc.prems(2) split by simp
  next
    case False
    have "range_of lo hi (concat (map (\<lambda>j. chain_records (C j)) [Suc j..<27])) = []"
    proof (cases "Suc j < 27")
      case True
      have "hi < ir_key r" if "i \<in> {Suc j..<27}" "r \<in> set (chain_records (C i))" for i r
        using bucket_less[OF h(2), of j i ?k "ir_key r"] h(6)[OF Suc.prems(1) last_in_set[OF ne]] h(6)[of i r] that False True
        by auto
      then show ?thesis by (fastforce simp: filter_empty_conv not_le)
    qed simp
    then show ?thesis unfolding eq split if_not_P[OF False] by simp
  qed
qed simp

lemma isam_range_repr:
  assumes "isam_repr s d C" "no_dups (isam_contents C)"
  shows "isam_range_search s lo hi = Inr (range_of lo hi (isam_contents C))"
proof -
  note h = isam_reprD[OF assms(1)]
  let ?j = "isam_route (\<lambda>x. x < lo) d"
  have j: "?j < 27" by (rule isam_route_bounds)
  have root: "root s = built_root" "idx_fuel s = 14" "isam_last_pos s = page_pos 27"
    using h(1) by (simp_all add: isam_built_def built_idx_def isam_last_pos_def standard_metadata_def ISAM_LEVELS_def slot_pos_def)
  have fuel: "27 - ?j \<le> Suc (nat (page_pos 27 div dp_size_of))" by (simp add: slot_pos_def)
  have "isam_range_node 14 s (root s) lo hi [] =
      isam_range_pages (Suc (nat (isam_last_pos s div dp_size_of))) s (page_pos ?j) (isam_last_pos s) lo hi lo []"
    by (rule ranging.down_built[OF h(1)]) simp
  also have "\<dots> = Inr (range_of lo hi (concat (map (\<lambda>j. chain_records (C j)) [?j..<27])))"
    unfolding root(3) isam_range_pages_live[OF assms j fuel] append_Nil ..
  also have "range_of lo hi (concat (map (\<lambda>j. chain_records (C j)) [?j..<27])) = range_of lo hi (isam_contents C)"
  proof -
    have "ir_key r < lo" if "i < ?j" "r \<in> set (chain_records (C i))" for i r
    proof -
      have "ir_key r < ir_key (d ! (3 * i + 3))" using h(6)[of i r] that j by (auto simp: in_bucket_def)
      also have "\<dots> \<le> ir_key (d ! (3 * ?j))" using that(1) j by (intro separated_mono[OF h(2)]) auto
      also have "\<dots> < lo" using isam_route_bounds(2)[of "\<lambda>x. x < lo" d] that(1) by simp
      finally show ?thesis .
    qed
    then have "range_of lo hi (concat (map (\<lambda>j. chain_records (C j)) [0..<?j])) = []"
      by (fastforce simp: filter_empty_conv not_le)
    moreover have "[0..<27] = [0..<?j] @ [?j..<27]" using j upt_add_eq_append[of 0 ?j "27 - ?j"] by simp
    ultimately show ?thesis unfolding isam_contents_def by simp
  qed
  finally show ?thesis using root by (simp add: isam_range_search_def)
qed

end
