(* ===== verification/IsamTypes.thy ===== *)
theory IsamTypes
  imports IsamChains
begin

text \<open>
  Every operation keeps all data pages well formed: three cells of memory and a counter between 0 and 3.
\<close>

definition pages_ok :: "'k isam \<Rightarrow> bool" where
  "pages_ok s \<longleftrightarrow> (\<forall>p\<in>set (dt_file s). page_ok p)"

lemma pages_ok_read: "pages_ok s \<Longrightarrow> dt_read s p = Inr x \<Longrightarrow> page_ok x"
  using moveReadRecord_Inr[of 0 dp_size_of "dt_file s" p x] by (auto simp: pages_ok_def dt_read_def)

lemma pages_ok_write: "pages_ok s \<Longrightarrow> page_ok x \<Longrightarrow> dt_write s p x = Inr s' \<Longrightarrow> pages_ok s'"
  using set_update_subset_insert[of "dt_file s"]
  by (fastforce simp: pages_ok_def dt_write_def moveWriteRecord_def bind_io_eq_Inr split: if_splits)

lemma pages_ok_append: "pages_ok s \<Longrightarrow> page_ok x \<Longrightarrow> pages_ok (fst (dt_append s x))"
  by (simp add: pages_ok_def dt_append_def)

lemma set_cell_length: "set_cell xs i x = Inr ys \<Longrightarrow> length ys = length xs"
  by (auto simp: set_cell_def split: if_splits)

section \<open>Pages\<close>

lemma dp_setNext_type [simp]: "page_ok (dp_setNext p n) = page_ok p" "dp_count (dp_setNext p n) = dp_count p"
  by (simp_all add: dp_setNext_def page_ok_def)

lemma dp_setRecord_type:
  "page_ok p \<Longrightarrow> dp_count p < 3 \<Longrightarrow> dp_setRecord p r i = Inr p' \<Longrightarrow> page_ok p' \<and> dp_count p' = dp_count p + 1"
  by (auto simp: dp_setRecord_def page_ok_def bind_io_eq_Inr dest: set_cell_length)

lemma dp_setRecord_end_type: "page_ok p \<Longrightarrow> dp_setRecord p r (dp_count p) = Inr p' \<Longrightarrow> page_ok p'"
  using dp_setRecord_type[of p r "dp_count p" p']
  by (cases "dp_count p < 3") (auto simp: dp_setRecord_def page_ok_def set_cell_def bind_io_eq_Inr split: if_splits)

lemma dp_insertRecord_type: "page_ok p \<Longrightarrow> dp_insertRecord p r = Inr p' \<Longrightarrow> page_ok p'"
  by (cases "dp_isFull p") (auto simp: dp_insertRecord_def elim: dp_insertRecord_ok[of p r])

lemma dp_remove_type:
  assumes "page_ok p" "dp_remove p i = Inr p'"
  shows "page_ok p' \<and> dp_count p' = dp_count p - 1"
proof -
  have "0 \<le> i" "i < dp_count p" using assms(2) by (auto simp: dp_remove_def Let_def split: if_splits)
  moreover have "dp_count p \<le> 3" using assms(1) by (simp add: page_ok_def)
  ultimately consider "i = 0" | "i = 1" | "i = 2" by linarith
  then show ?thesis using assms \<open>i < dp_count p\<close>
    by cases (erule page_okE; auto simp: dp_remove_def page_simps)+
qed

lemma remove_in_page_type: "page_ok p \<Longrightarrow> remove_in_page n p key i del = Inr (p', del') \<Longrightarrow> page_ok p'"
proof (induction n arbitrary: p i del)
  case (Suc n)
  then show ?case by (auto simp: bind_io_eq_Inr split: if_splits dest: dp_remove_type)
qed simp

lemma merge_copy_type:
  "page_ok p \<Longrightarrow> dp_count p + int n \<le> 3 \<Longrightarrow> merge_copy n p q c i = Inr p' \<Longrightarrow> page_ok p'"
proof (induction n arbitrary: p i)
  case (Suc n)
  obtain r p1 where p1: "dp_setRecord p r (c + i) = Inr p1" "merge_copy n p1 q c (i + 1) = Inr p'"
    using Suc.prems(3) by (auto simp: bind_io_eq_Inr)
  have "page_ok p1 \<and> dp_count p1 = dp_count p + 1" using Suc.prems(1,2) by (intro dp_setRecord_type[OF _ _ p1(1)]) auto
  then show ?case using Suc.IH[OF _ _ p1(2)] Suc.prems(2) by simp
qed simp

section \<open>Operations\<close>

lemma isam_merge_type:
  assumes "pages_ok s" "page_ok p" "isam_merge s p = Inr (s', p')"
  shows "pages_ok s' \<and> page_ok p'"
proof (cases "dp_next p = - 1")
  case False
  then obtain q where q: "dt_read s (dp_next p) = Inr q" using assms(3) by (auto simp: isam_merge_def bind_io_eq_Inr)
  have qo: "page_ok q" by (rule pages_ok_read[OF assms(1) q])
  show ?thesis
  proof (cases "dp_count p + dp_count q \<le> dp_getCapacity")
    case True
    then show ?thesis using assms False q qo merge_copy_type[OF assms(2), of "nat (dp_count q)" q]
      by (auto simp: isam_merge_def bind_io_eq_Inr dp_getCapacity_def page_ok_def[of q])
  next
    case F: False
    then obtain r q1 s1 where "dp_setRecord p r (dp_count p) = Inr p'" "dp_remove q 0 = Inr q1"
      "dt_write s (dp_next p') q1 = Inr s'"
      using assms(3) False q by (auto simp: isam_merge_def bind_io_eq_Inr)
    then show ?thesis
      using dp_setRecord_end_type[OF assms(2)] dp_remove_type[OF qo] pages_ok_write[OF assms(1)] by blast
  qed
qed (use assms in \<open>simp add: isam_merge_def\<close>)

lemma isam_create_page_type:
  assumes "pages_ok s" "page_ok p" "length mem = 3" "isam_create_page mem s q p r = Inr s'"
  shows "pages_ok s'"
proof -
  obtain x where x: "dp_setRecord (new_data_page mem) r 0 = Inr x" "page_ok x" using assms(3) by (rule dp_first_record)
  note ok = pages_ok_append[OF assms(1) x(2)]
  have "dt_write (fst (dt_append s x)) q (dp_setNext p (snd (dt_append s x))) = Inr s'"
    using assms(4) x(1) by (simp add: isam_create_page_def case_prod_unfold Let_def)
  then show ?thesis by (rule pages_ok_write[OF ok, rotated]) (simp add: assms(2))
qed

lemma isam_insert_in_page_type:
  assumes "pages_ok s" "page_ok p" "length mem = 3" "isam_insert_in_page mem s q p r = Inr s'"
  shows "pages_ok s'"
proof -
  obtain found where found: "dp_find (nat (dp_count p)) p (ir_key r) 0 = Inr found"
    using assms(4) by (auto simp: isam_insert_in_page_def bind_io_eq_Inr)
  show ?thesis
  proof (cases found)
    case (Some i)
    then obtain r1 rs where w: "set_cell (dp_records p) i r1 = Inr rs"
      "\<exists>dups. dt_write (s\<lparr>dp_file := dups\<rparr>) q (p\<lparr>dp_records := rs\<rparr>) = Inr s'"
      using assms(4) found
      by (auto simp: isam_insert_in_page_def bind_io_eq_Inr isam_insertDuplicate_def isam_insertDuplicateFile_def Let_def)
    then obtain dups where dups: "dt_write (s\<lparr>dp_file := dups\<rparr>) q (p\<lparr>dp_records := rs\<rparr>) = Inr s'" by blast
    have "page_ok (p\<lparr>dp_records := rs\<rparr>)" using assms(2) set_cell_length[OF w(1)] by (simp add: page_ok_def)
    moreover have "pages_ok (s\<lparr>dp_file := dups\<rparr>)" using assms(1) by (simp add: pages_ok_def)
    ultimately show ?thesis using pages_ok_write[OF _ _ dups] by blast
  next
    case None
    show ?thesis
    proof (cases "dp_isFull p")
      case True
      obtain p1 x where x: "splitAndInsert mem s p r = Inr (s\<lparr>dt_file := dt_file s @ [x]\<rparr>, p1)" "page_ok p1" "page_ok x"
        using splitAndInsert_ok[OF assms(2) True assms(3)] by metis
      have "pages_ok (s\<lparr>dt_file := dt_file s @ [x]\<rparr>)" using assms(1) x(3) by (simp add: pages_ok_def)
      moreover have "dt_write (s\<lparr>dt_file := dt_file s @ [x]\<rparr>) q p1 = Inr s'"
        using assms(4) found None True x(1) by (simp add: isam_insert_in_page_def)
      ultimately show ?thesis by (rule pages_ok_write[OF _ x(2)])
    next
      case False
      then obtain p1 where "dp_insertRecord p r = Inr p1" "dt_write s q p1 = Inr s'"
        using assms(4) found None by (auto simp: isam_insert_in_page_def bind_io_eq_Inr)
      then show ?thesis using dp_insertRecord_type[OF assms(2)] pages_ok_write[OF assms(1)] by blast
    qed
  qed
qed

lemma isam_insert_chain_type:
  "pages_ok s \<Longrightarrow> length mem = 3 \<Longrightarrow> isam_insert_chain n mem s p r = Inr s' \<Longrightarrow> pages_ok s'"
proof (induction n arbitrary: p)
  case (Suc n)
  obtain x where x: "dt_read s p = Inr x" using Suc.prems(3) by (auto simp: bind_io_eq_Inr)
  note xo = pages_ok_read[OF Suc.prems(1) x]
  show ?case
  proof (cases "dp_isEmpty x")
    case True
    then show ?thesis using Suc.prems(3) x isam_create_page_type[OF Suc.prems(1) xo Suc.prems(2)] by simp
  next
    case False
    then obtain l where l: "dp_last x = Inr l" using Suc.prems(3) x by (auto simp: bind_io_eq_Inr)
    have eq: "isam_insert_chain (Suc n) mem s p r = (if ir_key r \<le> ir_key l then isam_insert_in_page mem s p x r
        else if dp_next x \<noteq> - 1 then isam_insert_chain n mem s (dp_next x) r
        else if \<not> dp_isFull x then bind_io (dp_insertRecord x r) (\<lambda>page1. dt_write s p page1)
        else isam_create_page mem s p x r)"
      using False l x by simp
    consider "ir_key r \<le> ir_key l" | "\<not> ir_key r \<le> ir_key l" "dp_next x \<noteq> - 1"
      | "\<not> ir_key r \<le> ir_key l" "dp_next x = - 1" "\<not> dp_isFull x"
      | "\<not> ir_key r \<le> ir_key l" "dp_next x = - 1" "dp_isFull x" by blast
    then show ?thesis
    proof cases
      case 1
      then show ?thesis using Suc.prems(3) isam_insert_in_page_type[OF Suc.prems(1) xo Suc.prems(2)] unfolding eq by simp
    next
      case 2
      then show ?thesis using Suc.prems Suc.IH unfolding eq by simp
    next
      case 3
      then obtain x1 where "dp_insertRecord x r = Inr x1" "dt_write s p x1 = Inr s'"
        using Suc.prems(3) unfolding eq by (auto simp: bind_io_eq_Inr)
      then show ?thesis using dp_insertRecord_type[OF xo] pages_ok_write[OF Suc.prems(1)] by blast
    next
      case 4
      then show ?thesis using Suc.prems(3) isam_create_page_type[OF Suc.prems(1) xo Suc.prems(2)] unfolding eq by simp
    qed
  qed
qed simp

lemma isam_insert_node_type:
  "pages_ok s \<Longrightarrow> length mem = 3 \<Longrightarrow> isam_insert_node n mem s p r = Inr s' \<Longrightarrow> pages_ok s'"
proof (induction n arbitrary: p)
  case (Suc n)
  then show ?case
    using isam_insert_chain_type[OF Suc.prems(1,2)]
    by (auto simp: bind_io_eq_Inr simp del: isam_insert_chain.simps split: if_splits)
qed simp

lemma isam_remove_chain_type:
  "pages_ok s \<Longrightarrow> isam_remove_chain n s p q iter key = Inr (s', res) \<Longrightarrow> pages_ok s'"
proof (induction n arbitrary: p iter)
  case (Suc n)
  obtain x y where x: "dt_read s p = Inr x" "dt_read s q = Inr y" using Suc.prems(2) by (auto simp: bind_io_eq_Inr)
  note ok = pages_ok_read[OF Suc.prems(1) x(1)] pages_ok_read[OF Suc.prems(1) x(2)]
  show ?case
  proof (cases "dp_isEmpty x")
    case False
    then obtain l where l: "dp_last x = Inr l" using Suc.prems(2) x by (auto simp: bind_io_eq_Inr)
    show ?thesis
    proof (cases "key \<le> ir_key l")
      case True
      then obtain x1 del where x1: "remove_in_page (nat (dp_count x)) x key 0 (- 1) = Inr (x1, del)"
        using Suc.prems(2) x False l by (auto simp: bind_io_eq_Inr)
      note x1o = remove_in_page_type[OF ok(1) x1]
      have "(\<exists>s1 x2. isam_merge s x1 = Inr (s1, x2) \<and> dt_write s1 p x2 = Inr s') \<or> dt_write s p x1 = Inr s' \<or>
          dt_write s q (dp_setNext y (dp_next x1)) = Inr s' \<or> s' = s"
        using Suc.prems(2) x x1 False l True by (auto simp: bind_io_eq_Inr split: if_splits)
      then show ?thesis
      proof (elim disjE exE conjE)
        fix s1 x2
        assume "isam_merge s x1 = Inr (s1, x2)" "dt_write s1 p x2 = Inr s'"
        then show ?thesis using isam_merge_type[OF Suc.prems(1) x1o] pages_ok_write by blast
      next
        assume "dt_write s p x1 = Inr s'"
        then show ?thesis by (rule pages_ok_write[OF Suc.prems(1) x1o])
      next
        assume "dt_write s q (dp_setNext y (dp_next x1)) = Inr s'"
        then show ?thesis by (rule pages_ok_write[OF Suc.prems(1), rotated]) (simp add: ok(2))
      qed (use Suc.prems(1) in simp)
    qed (use Suc x False l in \<open>auto split: if_splits\<close>)
  qed (use Suc x in simp)
qed simp

lemma isam_remove_node_type: "pages_ok s \<Longrightarrow> isam_remove_node n s p key = Inr (s', res) \<Longrightarrow> pages_ok s'"
proof (induction n arbitrary: p)
  case (Suc n)
  then show ?case
    using isam_remove_chain_type[OF Suc.prems(1)]
    by (auto simp: bind_io_eq_Inr simp del: isam_remove_chain.simps split: if_splits)
qed simp

end
