(* ===== verification/IsamRemove.thy ===== *)
theory IsamRemove
  imports IsamQueries
begin

text \<open>
  Removal from an ISAM index whose chain is sorted: the record leaves its page, the page takes records of the next one when
  it has only one left, and nothing else is lost, as long as the page does not become empty.
\<close>

section \<open>Pages\<close>

lemma remove_in_page_live:
  assumes "page_ok p" "r \<in> set (live p)" "ir_key r = key" "distinct (map ir_key (live p))"
  obtains y where "remove_in_page (nat (dp_count p)) p key 0 (- 1) = Inr (y, ir_pos r)" "page_ok y"
    "live y = filter (\<lambda>x. ir_key x \<noteq> key) (live p)" "dp_next y = dp_next p" "dp_count y = dp_count p - 1"
proof -
  have "\<exists>y. remove_in_page (nat (dp_count p)) p key 0 (- 1) = Inr (y, ir_pos r) \<and> page_ok y \<and>
      live y = filter (\<lambda>x. ir_key x \<noteq> key) (live p) \<and> dp_next y = dp_next p \<and> dp_count y = dp_count p - 1"
    using assms(1)
  proof (cases rule: page_okE)
    case (1 a b c n)
    then show ?thesis using assms(2) by (simp add: page_simps)
  next
    case (2 a b c n)
    then show ?thesis using assms(2,3) by (auto simp: page_simps dp_remove_def set_cell_def cell_def)
  next
    case (3 a b c n)
    then show ?thesis using assms(2-4) by (auto simp: page_simps dp_remove_def set_cell_def cell_def)
  next
    case (4 a b c n)
    then show ?thesis using assms(2-4) by (auto simp: page_simps dp_remove_def set_cell_def cell_def)
  qed
  then show thesis using that by blast
qed

text \<open>Taking all records of the next page, or its first one.\<close>

lemma merge_copy_live:
  assumes "page_ok p" "dp_count p = 1" "page_ok z" "dp_count z \<le> 2"
  obtains y where "merge_copy (nat (dp_count z)) p z (dp_count p) 0 = Inr y" "page_ok y" "live y = live p @ live z"
    "dp_count y = dp_count p + dp_count z"
proof -
  have "\<exists>y. merge_copy (nat (dp_count z)) p z (dp_count p) 0 = Inr y \<and> page_ok y \<and> live y = live p @ live z \<and>
      dp_count y = dp_count p + dp_count z"
    using assms(1)
    by (cases rule: page_okE; use assms(3) in \<open>cases rule: page_okE\<close>)
      (use assms(2,4) in \<open>simp_all add: page_simps set_cell_def cell_def\<close>)
  then show thesis using that by blast
qed

lemma merge_shift_live:
  assumes "page_ok p" "dp_count p = 1" "page_ok z" "dp_count z = 3"
  obtains r y z1 where "dp_getRecord z 0 = Inr r" "dp_setRecord p r (dp_count p) = Inr y" "dp_remove z 0 = Inr z1"
    "page_ok y" "dp_count y = 2" "dp_next y = dp_next p" "page_ok z1" "dp_count z1 = 2" "dp_next z1 = dp_next z"
    "live y @ live z1 = live p @ live z"
proof -
  obtain a b c n where p: "p = \<lparr>dp_records = [a, b, c], dp_next = n, dp_count = 1\<rparr>"
    using assms(1,2) by (cases rule: page_okE) auto
  obtain a' b' c' n' where z: "z = \<lparr>dp_records = [a', b', c'], dp_next = n', dp_count = 3\<rparr>"
    using assms(3,4) by (cases rule: page_okE) auto
  show thesis
    by (rule that[of a' "\<lparr>dp_records = [a, a', c], dp_next = n, dp_count = 2\<rparr>"
          "\<lparr>dp_records = [b', c', \<lparr>ir_key = 0, ir_pos = - 1, ir_dup_pos = - 1\<rparr>], dp_next = n', dp_count = 2\<rparr>"])
      (simp_all add: p z page_simps dp_remove_def set_cell_def cell_def)
qed

section \<open>Chains\<close>

text \<open>What a removal leaves: pages of the chain only are changed, and the chain ends up in some of its pages.\<close>

definition chain_cut :: "'k isam \<Rightarrow> 'k isam \<Rightarrow> physical_pos \<Rightarrow> 'k data_page list \<Rightarrow> 'k data_page list \<Rightarrow> bool" where
  "chain_cut s s' p C C' \<longleftrightarrow>
     same_files s s' \<and> page_chain s' p C' \<and> C' \<noteq> [] \<and>
     (\<forall>q. q \<notin> chain_ptrs p C \<longrightarrow> dt_fetch s' q = dt_fetch s q) \<and> chain_ptrs p C' \<subseteq> chain_ptrs p C"

lemma chain_cut_step:
  assumes "page_chain s p (x # C)" "chain_cut s s' (dp_next x) C C'"
  shows "chain_cut s s' p (x # C) (x # C')"
proof -
  have "dt_fetch s' p = Some x" using assms page_chain_head[OF assms(1)] by (auto simp: chain_cut_def page_chain_Cons)
  then show ?thesis using assms by (auto simp: chain_cut_def page_chain_Cons)
qed

text \<open>The first page of a chain is written, and goes on to the second page or to the one behind it.\<close>

lemma chain_cut_head:
  assumes "page_chain s p (x # C)" "page_ok y" "dp_count y \<noteq> 0" "dp_next y = dp_next x"
  shows "\<exists>s'. dt_write s p y = Inr s' \<and> chain_cut s s' p (x # C) (y # C)"
proof -
  have x: "dt_fetch s p = Some x" "page_chain s (dp_next x) C" using assms(1) by (simp_all add: page_chain_Cons)
  obtain s' where s': "dt_write s p y = Inr s'" "same_files s s'" "dt_fetch s' = (dt_fetch s)(p \<mapsto> y)"
    using x(1) by (rule dt_write_at)
  have "page_chain s' (dp_next x) C"
    by (rule page_chain_frame[OF x(2)]) (use s'(3) page_chain_head[OF assms(1)] in auto)
  then have "chain_cut s s' p (x # C) (y # C)" using s' assms by (auto simp: chain_cut_def page_chain_Cons)
  then show ?thesis using s'(1) by blast
qed

text \<open>The first page goes on behind some page of its chain: the pages up to that one leave the chain.\<close>

lemma page_chain_behind:
  "page_chain s q (Z @ w # D) \<Longrightarrow>
     page_ok w \<and> dp_count w \<noteq> 0 \<and> page_chain s (dp_next w) D \<and> chain_ptrs (dp_next w) D \<subseteq> chain_ptrs q (Z @ w # D)"
  by (induction Z arbitrary: q) (auto simp: page_chain_Cons)

lemma chain_cut_behind:
  assumes "page_chain s p (x # Z @ w # D)" "page_ok y" "dp_count y \<noteq> 0" "dp_next y = dp_next w"
  shows "\<exists>s'. dt_write s p y = Inr s' \<and> chain_cut s s' p (x # Z @ w # D) (y # D)"
proof -
  have x: "dt_fetch s p = Some x" "page_chain s (dp_next x) (Z @ w # D)" using assms(1) by (simp_all add: page_chain_Cons)
  note w = page_chain_behind[OF x(2)]
  obtain s' where s': "dt_write s p y = Inr s'" "same_files s s'" "dt_fetch s' = (dt_fetch s)(p \<mapsto> y)"
    using x(1) by (rule dt_write_at)
  have "page_chain s' (dp_next w) D"
    by (rule page_chain_frame[of s]) (use w s'(3) page_chain_head[OF assms(1)] in auto)
  then have "chain_cut s s' p (x # Z @ w # D) (y # D)" using s' assms w by (auto simp: chain_cut_def page_chain_Cons)
  then show ?thesis using s'(1) by blast
qed

lemmas chain_cut_second = chain_cut_behind[where Z = "[]", unfolded append_Nil]

lemma chain_cut_trans:
  assumes "chain_cut s s1 p C C1" "chain_cut s1 s2 p C1 C2"
  shows "chain_cut s s2 p C C2"
  using assms same_files_trans unfolding chain_cut_def by (metis subset_iff)

text \<open>The page that lost a record, and is not empty, is merged and written.\<close>

lemma isam_merge_chain:
  assumes "page_chain s p (x # C)" "page_ok y" "dp_count y = 1" "dp_next y = dp_next x"
  shows "\<exists>s1 y1 s2 C'. isam_merge s y = Inr (s1, y1) \<and> dt_write s1 p y1 = Inr s2 \<and> chain_cut s s2 p (x # C) C' \<and>
    chain_records C' = live y @ chain_records C"
proof (cases C)
  case Nil
  then have "dp_next x = - 1" using assms(1) by (simp add: page_chain_Cons page_chain_Nil)
  moreover obtain s' where "dt_write s p y = Inr s'" "chain_cut s s' p (x # C) (y # C)"
    using chain_cut_head[OF assms(1,2) _ assms(4)] assms(3) by auto
  ultimately show ?thesis using assms(4) Nil by (intro exI[of _ s] exI[of _ y] exI[of _ s'] exI[of _ "y # C"]) (simp add: isam_merge_def)
next
  case (Cons z D)
  have z: "dt_fetch s (dp_next x) = Some z" "page_ok z" "dp_count z \<noteq> 0" "page_chain s (dp_next x) (z # D)"
    using assms(1) by (simp_all add: Cons page_chain_Cons)
  then have nxt: "dp_next y \<noteq> - 1" and rd: "dt_read s (dp_next y) = Inr z"
    using assms(4) by (auto simp: page_chain_def dt_fetch_read dt_fetch_def dt_read_def moveReadRecord_def)
  show ?thesis
  proof (cases "dp_count z \<le> 2")
    case True
    obtain y1 where y1: "merge_copy (nat (dp_count z)) y z (dp_count y) 0 = Inr y1" "page_ok y1" "live y1 = live y @ live z"
      "dp_count y1 = dp_count y + dp_count z"
      using assms(2,3) z(2) True by (rule merge_copy_live)
    let ?y = "dp_setNext y1 (dp_next z)"
    have ok: "page_ok ?y" "dp_count ?y \<noteq> 0" "dp_next ?y = dp_next z" "live ?y = live y @ live z"
      using y1 assms(3) z(2) by (simp_all add: dp_setNext_def page_ok_def live_def)
    obtain s' where s': "dt_write s p ?y = Inr s'" "chain_cut s s' p (x # z # D) (?y # D)"
      using chain_cut_second[OF assms(1)[unfolded Cons] ok(1-3)] by blast
    have "isam_merge s y = Inr (s, ?y)" using nxt rd y1(1) True assms(3) by (simp add: isam_merge_def dp_getCapacity_def)
    then show ?thesis using s' ok(4) by (intro exI[of _ s] exI[of _ ?y] exI[of _ s'] exI[of _ "?y # D"]) (simp add: Cons)
  next
    case False
    then have three: "dp_count z = 3" using z(2) by (simp add: page_ok_def)
    obtain r y1 z1 where y1: "dp_getRecord z 0 = Inr r" "dp_setRecord y r (dp_count y) = Inr y1" "dp_remove z 0 = Inr z1"
      "page_ok y1" "dp_count y1 = 2" "dp_next y1 = dp_next y" "page_ok z1" "dp_count z1 = 2" "dp_next z1 = dp_next z"
      "live y1 @ live z1 = live y @ live z"
      using assms(2,3) z(2) three by (rule merge_shift_live)
    obtain s1 where s1: "dt_write s (dp_next x) z1 = Inr s1" "chain_cut s s1 (dp_next x) (z # D) (z1 # D)"
      using chain_cut_head[OF z(4) y1(7) _ y1(9)] y1(8) by auto
    note c1 = chain_cut_step[OF assms(1)[unfolded Cons] s1(2)]
    have "page_chain s1 p (x # z1 # D)" using c1 by (simp add: chain_cut_def)
    then obtain s2 where s2: "dt_write s1 p y1 = Inr s2" "chain_cut s1 s2 p (x # z1 # D) (y1 # z1 # D)"
      using chain_cut_head[OF _ y1(4), of s1 p x "z1 # D"] y1(5,6) assms(4) by auto
    have "isam_merge s y = Inr (s1, y1)"
      using nxt rd y1(1-3,6) s1(1) assms(3,4) three by (simp add: isam_merge_def dp_getCapacity_def)
    moreover have "chain_records (y1 # z1 # D) = live y @ chain_records C" using y1(10) by (simp add: Cons flip: append_assoc)
    ultimately show ?thesis using chain_cut_trans[OF c1 s2(2)] s2(1) Cons by blast
  qed
qed

text \<open>Where the key is: the first page whose last key is not smaller.\<close>

lemma isam_remove_page:
  assumes "page_chain s p (x # C)" "r \<in> set (live x)" "ir_key r = key" "distinct (map ir_key (chain_records (x # C)))"
    and "key \<le> ir_key (last (live x))" "dp_count x \<noteq> 1" "ir_pos r \<noteq> - 1" "dt_fetch s q = Some x0"
  shows "\<exists>s' C'. isam_remove_chain (Suc n) s p q iter key = Inr (s', [ir_pos r]) \<and> chain_cut s s' p (x # C) C' \<and>
    chain_records C' = filter (\<lambda>r. ir_key r \<noteq> key) (chain_records (x # C))"
proof -
  note x = assms(1)[unfolded page_chain_Cons]
  have rd: "dt_read s p = Inr x" "dt_read s q = Inr x0" using x assms(8) by (simp_all add: dt_fetch_read)
  have ne: "\<not> dp_isEmpty x" using x by (simp add: dp_isEmpty_def)
  obtain l where l: "dp_last x = Inr l" "l = last (live x)" using x ne by (auto elim: dp_last_live)
  obtain y where y: "remove_in_page (nat (dp_count x)) x key 0 (- 1) = Inr (y, ir_pos r)" "page_ok y"
    "live y = filter (\<lambda>x. ir_key x \<noteq> key) (live x)" "dp_next y = dp_next x" "dp_count y = dp_count x - 1"
    using remove_in_page_live[of x r key] x assms(2-4) by auto
  have left: "dp_count y \<noteq> 0" "\<not> dp_isEmpty y" "1 \<le> dp_count y"
    using y(2,5) assms(6) by (simp_all add: dp_isEmpty_def page_ok_def)
  have "ir_key ` set (live x) \<inter> ir_key ` set (chain_records C) = {}"
    using assms(4) unfolding list.map concat.simps map_append distinct_append set_map by blast
  then have "\<forall>r'\<in>set (chain_records C). ir_key r' \<noteq> key" using assms(2,3) by blast
  then have "filter (\<lambda>r. ir_key r \<noteq> key) (chain_records C) = chain_records C" by (rule filter_True)
  then have records: "live y @ chain_records C = filter (\<lambda>r. ir_key r \<noteq> key) (chain_records (x # C))" using y(3) by simp
  have eq: "isam_remove_chain (Suc n) s p q iter key =
      (if dp_count y \<le> 1 then bind_io (isam_merge s y) (\<lambda>(s1, page2). bind_io (dt_write s1 p page2) (\<lambda>s2. Inr (s2, [ir_pos r])))
       else bind_io (dt_write s p y) (\<lambda>s1. Inr (s1, [ir_pos r])))"
    using rd ne l assms(5,7) y(1) left(2) by (simp add: dp_getCapacity_def)
  show ?thesis
  proof (cases "dp_count y \<le> 1")
    case True
    then have "dp_count y = 1" using left(3) by simp
    from isam_merge_chain[OF assms(1) y(2) this y(4)] obtain s1 y1 s2 C' where
      "isam_merge s y = Inr (s1, y1)" "dt_write s1 p y1 = Inr s2" "chain_cut s s2 p (x # C) C'"
      "chain_records C' = live y @ chain_records C" by blast
    then show ?thesis using eq True records by (intro exI[of _ s2] exI[of _ C']) simp
  next
    case False
    obtain s' where "dt_write s p y = Inr s'" "chain_cut s s' p (x # C) (y # C)"
      using chain_cut_head[OF assms(1) y(2) left(1) y(4)] by blast
    then show ?thesis using eq False records by (intro exI[of _ s'] exI[of _ "y # C"]) simp
  qed
qed

definition chain_sorted :: "('k :: linorder) data_page list \<Rightarrow> bool" where
  "chain_sorted C \<longleftrightarrow> sorted_wrt (<) (map ir_key (chain_records C))"

text \<open>The removal does not empty a page, or empties the second one, which is taken out of the chain.\<close>

definition remove_keeps :: "'k data_page list \<Rightarrow> 'k \<Rightarrow> bool" where
  "remove_keeps C key \<longleftrightarrow>
     (\<forall>i<length C. key \<in> ir_key ` set (live (C ! i)) \<longrightarrow> dp_count (C ! i) \<noteq> 1 \<or> i = 1)"

lemma chain_sorted_Cons:
  "chain_sorted (x # C) \<longleftrightarrow> sorted_wrt (<) (map ir_key (live x)) \<and> chain_sorted C \<and>
     (\<forall>a\<in>set (live x). \<forall>b\<in>set (chain_records C). ir_key a < ir_key b)"
  by (auto simp: chain_sorted_def sorted_wrt_append)

lemma chain_sorted_distinct: "chain_sorted C \<Longrightarrow> distinct (map ir_key (chain_records C))"
  by (simp add: chain_sorted_def strict_sorted_iff)

lemma live_last:
  assumes "page_ok x" "dp_count x \<noteq> 0"
  shows "live x \<noteq> []" "last (live x) \<in> set (live x)" "dp_last x = Inr (last (live x))" "\<not> dp_isEmpty x"
  using assms by (cases rule: page_okE; simp add: page_simps cell_def)+

lemma page_last_max:
  fixes x :: "('k :: linorder) data_page"
  assumes "sorted_wrt (<) (map ir_key (live x))" "r \<in> set (live x)"
  shows "ir_key r \<le> ir_key (last (live x))"
proof -
  obtain ys where "live x = ys @ [last (live x)]" using assms(2) by (metis append_butlast_last_id empty_iff empty_set)
  then have "sorted_wrt (<) (map ir_key (ys @ [last (live x)]))" "r \<in> set (ys @ [last (live x)])" using assms by metis+
  then show ?thesis by (auto simp: sorted_wrt_append)
qed

text \<open>A page in front of the one with the key.\<close>

lemma isam_remove_chain_skip:
  assumes "page_chain s p (x # C)" "C \<noteq> []" "ir_key (last (live x)) < key" "dt_fetch s q = Some x0"
  shows "isam_remove_chain (Suc n) s p q iter key = isam_remove_chain n s (dp_next x) q (Suc iter) key"
proof -
  note x = assms(1)[unfolded page_chain_Cons]
  have "dp_next x \<noteq> - 1"
    using x assms(2) by (cases C) (auto simp: page_chain_Cons dt_fetch_def dt_read_def moveReadRecord_def)
  then show ?thesis using x assms(3,4) live_last[of x] by (simp add: dt_fetch_read not_le)
qed

lemma isam_remove_chain_at:
  assumes "ir_key r = key" "ir_pos r \<noteq> - 1" "dt_fetch s q = Some x0"
  shows "page_chain s p C \<Longrightarrow> chain_sorted C \<Longrightarrow> r \<in> set (chain_records C) \<Longrightarrow> length C \<le> n \<Longrightarrow>
    (\<And>x. x \<in> set C \<Longrightarrow> r \<in> set (live x) \<Longrightarrow> dp_count x \<noteq> 1) \<Longrightarrow>
    \<exists>s' C'. isam_remove_chain n s p q iter key = Inr (s', [ir_pos r]) \<and> chain_cut s s' p C C' \<and>
      chain_records C' = filter (\<lambda>r. ir_key r \<noteq> key) (chain_records C)"
proof (induction C arbitrary: p n iter)
  case (Cons x C)
  obtain m where n: "n = Suc m" "length C \<le> m" using Cons.prems(4) by (cases n) auto
  note x = Cons.prems(1)[unfolded page_chain_Cons]
  note srt = Cons.prems(2)[unfolded chain_sorted_Cons]
  show ?case
  proof (cases "r \<in> set (live x)")
    case True
    have "key \<le> ir_key (last (live x))" using page_last_max[of x r] srt True assms(1) by simp
    then show ?thesis unfolding n(1)
      using isam_remove_page[OF Cons.prems(1) True assms(1) chain_sorted_distinct[OF Cons.prems(2)] _ _ assms(2,3)]
        Cons.prems(5)[of x] True by simp
  next
    case False
    then have r: "r \<in> set (chain_records C)" using Cons.prems(3) by simp
    then have ne: "C \<noteq> []" by auto
    have less: "ir_key (last (live x)) < key" using srt r live_last(2)[of x] x assms(1) by blast
    from Cons.IH[of "dp_next x" m "Suc iter"] x srt r n(2) Cons.prems(5) obtain s' C' where
      "isam_remove_chain m s (dp_next x) q (Suc iter) key = Inr (s', [ir_pos r])" "chain_cut s s' (dp_next x) C C'"
      "chain_records C' = filter (\<lambda>r. ir_key r \<noteq> key) (chain_records C)" by auto
    moreover have "filter (\<lambda>r. ir_key r \<noteq> key) (live x) = live x"
      using srt r assms(1) by (intro filter_True) fastforce
    ultimately show ?thesis unfolding n(1) isam_remove_chain_skip[OF Cons.prems(1) ne less assms(3)]
      using chain_cut_step[OF Cons.prems(1)] by (intro exI[of _ s'] exI[of _ "x # C'"]) simp
  qed
qed simp

text \<open>
  A page behind the first one becomes empty: the first page is linked to the page behind it, since the position of the page
  before is never advanced.  The pages in between leave the chain with it.
\<close>

lemma isam_remove_chain_skips:
  assumes "dt_fetch s q = Some x0"
  shows "page_chain s p (Z @ w # D) \<Longrightarrow> \<forall>z\<in>set Z. ir_key (last (live z)) < key \<Longrightarrow>
    \<exists>p'. page_chain s p' (w # D) \<and>
      isam_remove_chain (length Z + n) s p q iter key = isam_remove_chain n s p' q (length Z + iter) key"
proof (induction Z arbitrary: p iter)
  case (Cons z Z)
  have "page_chain s (dp_next z) (Z @ w # D)" using Cons.prems(1) by (simp add: page_chain_Cons)
  with Cons.IH[of "dp_next z" "Suc iter"] Cons.prems(2) obtain p' where "page_chain s p' (w # D)"
    "isam_remove_chain (length Z + n) s (dp_next z) q (Suc iter) key = isam_remove_chain n s p' q (length Z + Suc iter) key" by auto
  moreover have "isam_remove_chain (Suc (length Z + n)) s p q iter key =
      isam_remove_chain (length Z + n) s (dp_next z) q (Suc iter) key"
    by (rule isam_remove_chain_skip[of s p z "Z @ w # D"]) (use Cons.prems assms in auto)
  ultimately show ?case by auto
qed auto

lemma isam_remove_drops:
  assumes chain: "page_chain s p (x # Z @ w # D)" and srt: "chain_sorted (x # Z @ w # D)"
    and r: "live w = [r]" "ir_key r = key" "ir_pos r \<noteq> - 1" and fuel: "length Z + 2 \<le> n"
  shows "\<exists>s'. isam_remove_chain n s p p 0 key = Inr (s', [ir_pos r]) \<and>
    chain_cut s s' p (x # Z @ w # D) (dp_setNext x (dp_next w) # D)"
proof -
  have x: "dt_fetch s p = Some x" "page_ok x" "dp_count x \<noteq> 0" using chain by (simp_all add: page_chain_Cons)
  obtain m where n: "n = length (x # Z) + Suc m" using fuel by (auto simp: le_iff_add)
  have "page_ok z \<and> dp_count z \<noteq> 0" if "z \<in> set (x # Z)" for z using chain that by (auto simp: page_chain_def)
  then have "last (live z) \<in> set (live z)" if "z \<in> set (x # Z)" for z using that live_last(2)[of z] by blast
  moreover have "ir_key a < key" if "z \<in> set (x # Z)" "a \<in> set (live z)" for z a
    using srt that r(1,2) by (auto simp: chain_sorted_def sorted_wrt_append)
  ultimately have less: "\<forall>z\<in>set (x # Z). ir_key (last (live z)) < key" by blast
  obtain p' where p': "page_chain s p' (w # D)"
    "isam_remove_chain n s p p 0 key = isam_remove_chain (Suc m) s p' p (length (x # Z) + 0) key"
    using isam_remove_chain_skips[OF x(1) _ less, of p w D "Suc m" 0] chain unfolding n by auto
  note w = p'(1)[unfolded page_chain_Cons]
  have "page_ok w" using w by simp
  then have one: "dp_count w = 1" using r(1) by (cases rule: page_okE) (auto simp: live_def)
  obtain y where y: "remove_in_page (nat (dp_count w)) w key 0 (- 1) = Inr (y, ir_pos r)" "dp_next y = dp_next w"
    "dp_count y = dp_count w - 1"
    using remove_in_page_live[of w r key] w r(1,2) by auto
  let ?x = "dp_setNext x (dp_next w)"
  have ok: "page_ok ?x" "dp_count ?x \<noteq> 0" "dp_next ?x = dp_next w" using x by (simp_all add: dp_setNext_def page_ok_def)
  obtain s' where s': "dt_write s p ?x = Inr s'" "chain_cut s s' p (x # Z @ w # D) (?x # D)"
    using chain_cut_behind[OF chain ok] by blast
  have "isam_remove_chain (Suc m) s p' p (length (x # Z) + 0) key = Inr (s', [ir_pos r])"
    using w x live_last[of w] r one y s'(1) by (simp add: dt_fetch_read dp_isEmpty_def)
  then show ?thesis using p'(2) s'(2) by auto
qed

lemma isam_remove_second:
  assumes "page_chain s p (x # z # D)" "chain_sorted (x # z # D)" "r \<in> set (live z)" "ir_key r = key" "ir_pos r \<noteq> - 1"
    "dp_count z = 1"
  shows "\<exists>s' C'. isam_remove_chain (Suc (Suc n)) s p p 0 key = Inr (s', [ir_pos r]) \<and> chain_cut s s' p (x # z # D) C' \<and>
    chain_records C' = filter (\<lambda>r. ir_key r \<noteq> key) (chain_records (x # z # D))"
proof -
  note srt = assms(2)[unfolded chain_sorted_Cons]
  have "page_ok z" using assms(1) by (simp add: page_chain_Cons)
  then have z: "live z = [r]" using assms(3,6) by (cases rule: page_okE) (auto simp: live_def)
  obtain s' where s': "isam_remove_chain (Suc (Suc n)) s p p 0 key = Inr (s', [ir_pos r])"
    "chain_cut s s' p (x # z # D) (dp_setNext x (dp_next z) # D)"
    using isam_remove_drops[of s p x "[]" z D r key "Suc (Suc n)"] assms(1,2,4,5) z by auto
  have "filter (\<lambda>r. ir_key r \<noteq> key) (live x) = live x" using srt assms(3,4) by (intro filter_True) fastforce
  moreover have "filter (\<lambda>r. ir_key r \<noteq> key) (chain_records D) = chain_records D" using srt assms(3,4) by (intro filter_True) fastforce
  moreover have "live (dp_setNext x (dp_next z)) = live x" by (simp add: dp_setNext_def live_def)
  ultimately have "chain_records (dp_setNext x (dp_next z) # D) = filter (\<lambda>r. ir_key r \<noteq> key) (chain_records (x # z # D))"
    using z assms(4) by simp
  then show ?thesis using s' by blast
qed

lemma isam_remove_chain_sorted:
  assumes "page_chain s p C" "chain_sorted C" "r \<in> set (chain_records C)" "ir_key r = key" "ir_pos r \<noteq> - 1"
    "remove_keeps C key" "length C < n"
  shows "\<exists>s' C'. isam_remove_chain n s p p 0 key = Inr (s', [ir_pos r]) \<and> chain_cut s s' p C C' \<and>
    chain_records C' = filter (\<lambda>r. ir_key r \<noteq> key) (chain_records C)"
proof -
  obtain x D where C: "C = x # D" using assms(3) by (cases C) auto
  have q: "dt_fetch s p = Some x" using assms(1) by (simp add: C page_chain_Cons)
  show ?thesis
  proof (cases "\<exists>z E. D = z # E \<and> r \<in> set (live z) \<and> dp_count z = 1")
    case True
    then obtain z E where D: "D = z # E" "r \<in> set (live z)" "dp_count z = 1" by blast
    obtain m where "n = Suc (Suc m)" using assms(7) by (cases n; cases "n - 1") (auto simp: C D(1))
    then show ?thesis using isam_remove_second[of s p x z E r key m] assms(1,2,4,5) D C by simp
  next
    case False
    have "dp_count y \<noteq> 1" if y: "y \<in> set C" "r \<in> set (live y)" for y
    proof -
      obtain i where i: "i < length C" "C ! i = y" using y(1) by (auto simp: in_set_conv_nth)
      then have "dp_count y \<noteq> 1 \<or> i = 1" using assms(4,6) y(2) by (auto simp: remove_keeps_def)
      moreover have "dp_count y \<noteq> 1" if "i = 1"
        using False i y(2) that by (cases D) (auto simp: C)
      ultimately show ?thesis by blast
    qed
    then show ?thesis using assms(7) by (intro isam_remove_chain_at[OF assms(4,5) q assms(1-3)]) auto
  qed
qed

text \<open>A key that is not in the chain: nothing is written.\<close>

lemma remove_in_page_absent:
  assumes "key \<notin> ir_key ` set (live p)" "page_ok p"
  shows "remove_in_page (nat (dp_count p)) p key 0 (- 1) = Inr (p, - 1)"
  using assms(2,1) by (cases rule: page_okE) (auto simp: page_simps cell_def)

lemma isam_remove_chain_absent:
  assumes "dt_fetch s q = Some x0"
  shows "page_chain s p C \<Longrightarrow> C \<noteq> [] \<Longrightarrow> key \<notin> ir_key ` set (chain_records C) \<Longrightarrow> length C \<le> n \<Longrightarrow>
    isam_remove_chain n s p q iter key = Inr (s, [])"
proof (induction C arbitrary: p n iter)
  case (Cons x C)
  obtain m where n: "n = Suc m" "length C \<le> m" using Cons.prems(4) by (cases n) auto
  note x = Cons.prems(1)[unfolded page_chain_Cons]
  have absent: "key \<notin> ir_key ` set (live x)" using Cons.prems(3) by auto
  show ?case
  proof (cases "key \<le> ir_key (last (live x))")
    case True
    then show ?thesis unfolding n(1)
      using x assms live_last[of x] remove_in_page_absent[OF absent] by (simp add: dt_fetch_read)
  next
    case False
    then have less: "ir_key (last (live x)) < key" by simp
    show ?thesis
    proof (cases "C = []")
      case True
      then show ?thesis unfolding n(1) using x False assms live_last[of x] by (simp add: dt_fetch_read page_chain_Nil)
    next
      case nonempty: False
      show ?thesis unfolding n(1) isam_remove_chain_skip[OF Cons.prems(1) nonempty less assms]
        using Cons.prems(3) by (intro Cons.IH) (use x nonempty n(2) in auto)
    qed
  qed
qed simp

section \<open>The index\<close>

lemma isam_remove_at:
  assumes "isam_repr s d C"
  shows "isam_remove s k = isam_remove_chain (dt_fuel s) s (page_pos (search_route d k)) (page_pos (search_route d k)) 0 k"
proof -
  have root: "root s = built_root" "idx_fuel s = 14"
    using isam_reprD(1)[OF assms] by (simp_all add: isam_built_def built_idx_def)
  have "isam_remove_node 14 s (root s) k =
      isam_remove_chain (dt_fuel s) s (page_pos (search_route d k)) (page_pos (search_route d k)) 0 k"
    by (rule removing.down_built[OF isam_reprD(1)[OF assms]]) simp
  then show ?thesis using root by (simp add: isam_remove_def)
qed

lemma isam_remove_absent:
  assumes "isam_repr s d C" "k \<notin> ir_key ` set (isam_contents C)"
  shows "isam_remove s k = Inr (s, [])"
proof -
  note h = isam_reprD[OF assms(1)]
  let ?j = "search_route d k"
  have j: "?j < 27" by (rule isam_route_bounds)
  obtain x D where x: "C ?j = x # D" using h(5)[OF j] by (cases "C ?j") auto
  then have "dt_fetch s (page_pos ?j) = Some x" using h(4)[OF j] by (simp add: page_chain_Cons)
  moreover have "k \<notin> ir_key ` set (chain_records (C ?j))" using assms(2) j by (auto simp: in_contents image_iff)
  ultimately show ?thesis unfolding isam_remove_at[OF assms(1)]
    using h(4,5)[OF j] page_chain_length[OF h(4)[OF j]] by (intro isam_remove_chain_absent) auto
qed

lemma contents_filter:
  assumes "j < 27" "chain_records D = filter P (chain_records (C j))"
    "\<And>i r. i < 27 \<Longrightarrow> i \<noteq> j \<Longrightarrow> r \<in> set (chain_records (C i)) \<Longrightarrow> P r"
  shows "isam_contents (C(j := D)) = filter P (isam_contents C)"
proof -
  have "chain_records ((C(j := D)) i) = filter P (chain_records (C i))" if "i \<in> set [0..<27]" for i
    using assms that by (cases "i = j") (auto intro!: filter_True[symmetric])
  then have "map (\<lambda>i. chain_records ((C(j := D)) i)) [0..<27] = map (\<lambda>i. filter P (chain_records (C i))) [0..<27]"
    by (intro map_cong) auto
  then show ?thesis by (simp only: isam_contents_def filter_concat map_map comp_def)
qed

lemma isam_remove_repr:
  assumes "isam_repr s d C" "chain_sorted (C (search_route d k))" "remove_keeps (C (search_route d k)) k"
    and "r \<in> set (isam_contents C)" "ir_key r = k" "ir_pos r \<noteq> - 1"
  shows "\<exists>s' C'. isam_remove s k = Inr (s', [ir_pos r]) \<and> isam_repr s' d C' \<and>
    isam_contents C' = filter (\<lambda>r. ir_key r \<noteq> k) (isam_contents C) \<and> dp_file s' = dp_file s \<and>
    (\<forall>i. chain_sorted (C i) \<longrightarrow> chain_sorted (C' i))"
proof -
  note h = isam_reprD[OF assms(1)]
  let ?j = "search_route d k" and ?P = "\<lambda>r. ir_key r \<noteq> k"
  have j: "?j < 27" by (rule isam_route_bounds)
  have other: "?P x" if "i < 27" "i \<noteq> ?j" "x \<in> set (chain_records (C i))" for i x
    using bucket_unique[OF h(2) _ route_bucket that(1) j] h(6)[OF that(1,3)] that(2) by auto
  then have "r \<in> set (chain_records (C ?j))" using assms(4,5) by (auto simp: in_contents)
  moreover have "length (C ?j) < dt_fuel s" using page_chain_length[OF h(4)[OF j]] by simp
  ultimately obtain s' D where s': "isam_remove_chain (dt_fuel s) s (page_pos ?j) (page_pos ?j) 0 k = Inr (s', [ir_pos r])"
    "chain_cut s s' (page_pos ?j) (C ?j) D" "chain_records D = filter ?P (chain_records (C ?j))"
    using isam_remove_chain_sorted[OF h(4)[OF j] assms(2) _ assms(5,6,3)] by blast
  note cut = s'(2)[unfolded chain_cut_def]
  have contents: "isam_contents (C(?j := D)) = filter ?P (isam_contents C)"
    by (rule contents_filter[of ?j D ?P C, OF j s'(3)]) (rule other)
  have "distinct (map ir_key (filter ?P (isam_contents C)))" using h(3) by (simp add: distinct_map_filter)
  then have "isam_repr s' d (C(?j := D))"
    using cut h(6)[OF j] s'(3) contents by (intro isam_repr_update[OF assms(1) j _ _ _ dt_fetch_end]) auto
  moreover have "chain_sorted ((C(?j := D)) i)" if "chain_sorted (C i)" for i
    using that s'(3) by (cases "i = ?j") (simp_all add: chain_sorted_def sorted_wrt_map sorted_wrt_filter)
  moreover have "dp_file s' = dp_file s" using cut by (auto simp: same_files_def)
  ultimately show ?thesis using s'(1) contents unfolding isam_remove_at[OF assms(1)]
    by (intro exI[of _ s'] exI[of _ "C(?j := D)"]) simp
qed

text \<open>The page that becomes empty is the third one of its chain or a later one: the pages before it, but the first, are lost.\<close>

lemma isam_remove_loses:
  assumes rep: "isam_repr s d C" and C: "C (search_route d k) = x # Z @ w # D"
    and srt: "chain_sorted (C (search_route d k))" and r: "live w = [r]" "ir_key r = k" "ir_pos r \<noteq> - 1"
  shows "\<exists>s'. isam_remove s k = Inr (s', [ir_pos r]) \<and> dp_file s' = dp_file s \<and>
    isam_repr s' d (C(search_route d k := dp_setNext x (dp_next w) # D)) \<and>
    isam_contents (C(search_route d k := dp_setNext x (dp_next w) # D)) =
      filter (\<lambda>a. a \<noteq> r \<and> a \<notin> set (chain_records Z)) (isam_contents C)"
proof -
  note h = isam_reprD[OF rep]
  let ?j = "search_route d k" and ?x = "dp_setNext x (dp_next w)" and ?P = "\<lambda>a. a \<noteq> r \<and> a \<notin> set (chain_records Z)"
  have j: "?j < 27" by (rule isam_route_bounds)
  note chain = h(4)[OF j, unfolded C]
  have "length (x # Z @ w # D) \<le> length (dt_file s)" using page_chain_length[OF chain] .
  then have "length Z + 2 \<le> dt_fuel s" using page_chain_length[OF chain] by simp
  then obtain s' where s': "isam_remove_chain (dt_fuel s) s (page_pos ?j) (page_pos ?j) 0 k = Inr (s', [ir_pos r])"
    "chain_cut s s' (page_pos ?j) (x # Z @ w # D) (?x # D)"
    using isam_remove_drops[OF chain srt[unfolded C] r] by blast
  note cut = s'(2)[unfolded chain_cut_def]
  have live: "live ?x = live x" by (simp add: dp_setNext_def live_def)
  have dist: "distinct (live x @ chain_records Z @ r # chain_records D)"
    using distinct_map[THEN iffD1, THEN conjunct1, OF chain_sorted_distinct[OF srt[unfolded C]]] by (simp add: r(1))
  then have "filter ?P (live x) = live x" "filter ?P (chain_records D) = chain_records D" "filter ?P (chain_records Z) = []"
    by (auto simp: filter_empty_conv intro!: filter_True)
  then have rec: "chain_records (?x # D) = filter ?P (chain_records (C ?j))" using live r(1) by (simp add: C)
  have other: "?P a" if "i < 27" "i \<noteq> ?j" "a \<in> set (chain_records (C i))" for i a
  proof -
    have "a \<notin> set (chain_records (C ?j))"
      using bucket_unique[OF h(2) h(6)[OF that(1,3)] h(6)[OF j, of a] that(1) j] that(2) by blast
    then show ?thesis using r(1) by (auto simp: C)
  qed
  have contents: "isam_contents (C(?j := ?x # D)) = filter ?P (isam_contents C)"
    by (rule contents_filter[of ?j "?x # D" ?P C, OF j rec]) (rule other)
  have "distinct (map ir_key (filter ?P (isam_contents C)))" using h(3) by (simp add: distinct_map_filter)
  then have "isam_repr s' d (C(?j := ?x # D))"
    using cut h(6)[OF j] rec contents by (intro isam_repr_update[OF rep j _ _ _ dt_fetch_end]) (auto simp: C)
  moreover have "dp_file s' = dp_file s" using cut by (auto simp: same_files_def)
  ultimately show ?thesis using s'(1) contents unfolding isam_remove_at[OF rep] by blast
qed

text \<open>An index that was just built from 81 records is sorted everywhere, and no page of it becomes empty.\<close>

lemma first_pages_sorted:
  assumes "separated d" "j < 27"
  shows "chain_sorted (first_pages d j)" "remove_keeps (first_pages d j) k"
proof -
  have i: "3 * j + 2 < 81" using assms(2) by simp
  show "chain_sorted (first_pages d j)"
    using separated_less[OF assms(1), of "3 * j" "3 * j + 1"] separated_less[OF assms(1), of "3 * j + 1" "3 * j + 2"]
      separated_less[OF assms(1), of "3 * j" "3 * j + 2"] i
    by (simp add: chain_sorted_def first_pages_def built_page_def live_def numeral_3_eq_3 numeral_2_eq_2)
  show "remove_keeps (first_pages d j) k"
    by (simp add: remove_keeps_def first_pages_def built_page_def)
qed

end
