(* ===== verification/IsamTheorems.thy ===== *)
theory IsamTheorems
  imports IsamQueries IsamTypes IsamRemove
begin

text \<open>
  The properties of the ISAM index, each applied to a concrete index.
\<close>

section \<open>Lemmas\<close>

text \<open>The records of a list of keys and positions, and what a search finds in them.\<close>

abbreviation isam_records :: "('k \<times> physical_pos) list \<Rightarrow> 'k isam_record list" where
  "isam_records data \<equiv> map (\<lambda>(k, p). new_isam_record k p) data"

lemma find_key_record:
  assumes "mset rs = mset (isam_records data)" "distinct (map fst data)"
  shows "find (\<lambda>r. ir_key r = k) rs = map_option (\<lambda>p. new_isam_record k p) (map_of data k)"
proof -
  have rs: "r \<in> set rs \<longleftrightarrow> (\<exists>k p. (k, p) \<in> set data \<and> r = new_isam_record k p)" for r
    using arg_cong[OF assms(1), of set_mset] by auto
  show ?thesis
  proof (cases "map_of data k")
    case None
    then have "ir_key r \<noteq> k" if "r \<in> set rs" for r
      using rs[of r] that by (auto simp: map_of_eq_None_iff new_isam_record_def image_iff)
    then show ?thesis using None by (simp add: find_None_iff)
  next
    case (Some p)
    then have "new_isam_record k p \<in> set rs" using rs map_of_SomeD by fastforce
    then have "find (\<lambda>r. ir_key r = k) rs \<noteq> None" by (auto simp: find_None_iff new_isam_record_def)
    then obtain r where r: "find (\<lambda>r. ir_key r = k) rs = Some r" by blast
    then have "r \<in> set rs" "ir_key r = k" by (auto simp: find_Some_iff)
    then obtain q where "(k, q) \<in> set data" "r = new_isam_record k q" using rs[of r] by (auto simp: new_isam_record_def)
    then show ?thesis using r Some assms(2) by (auto dest: map_of_is_SomeI)
  qed
qed

lemma find_distinct_key: "distinct (map ir_key rs) \<Longrightarrow> a \<in> set rs \<Longrightarrow> find (\<lambda>r. ir_key r = ir_key a) rs = Some a"
  by (induction rs) (auto simp: image_iff)

lemma find_key_removed:
  "distinct (map ir_key rs) \<Longrightarrow> a \<in> set rs \<Longrightarrow> \<not> P a \<Longrightarrow> find (\<lambda>r. ir_key r = ir_key a) (filter P rs) = None"
  by (auto simp: find_None_iff distinct_map dest: inj_onD)

lemma find_filter_key:
  "find (\<lambda>r. ir_key r = k') (filter (\<lambda>r. ir_key r \<noteq> k) rs) = (if k' = k then None else find (\<lambda>r. ir_key r = k') rs)"
  by (induction rs) auto

lemma no_dups_records: "mset rs = mset (isam_records data) \<Longrightarrow> no_dups rs"
  by (drule arg_cong[of _ _ set_mset]) (auto simp: no_dups_def new_isam_record_def)

text \<open>A concrete index of 81 records, with blank memory.\<close>

definition demo_mem :: "int isam_record list" where
  "demo_mem = replicate 3 (new_isam_record 0 0)"

definition demo_isam_data :: "(int \<times> physical_pos) list" where
  "demo_isam_data = map (\<lambda>i. (10 * int i, int i)) [0..<81]"

definition demo_isam :: "int isam io" where
  "demo_isam = bind_io (isam_bulk_insert (sort_key ir_key) [0, 0] demo_mem (new_isam None None False) demo_isam_data)
     (\<lambda>(s, _). Inr s)"

fun isam_adds :: "int isam \<Rightarrow> (int \<times> physical_pos) list \<Rightarrow> int isam io" where
  "isam_adds s [] = Inr s"
| "isam_adds s ((k, p) # xs) = bind_io (isam_add demo_mem s k p) (\<lambda>(s1, _). isam_adds s1 xs)"

lemma demo_isam_facts:
  "length demo_isam_data = 81" "distinct (map fst demo_isam_data)" "length demo_mem = 3" "length [0 :: int, 0] = 2"
  "standard_metadata (metadata (new_isam None None False :: int isam))"
  "mset (sort_key ir_key xs) = mset (xs :: int isam_record list)" "sorted (map ir_key (sort_key ir_key xs))"
  by (simp_all add: demo_isam_data_def demo_mem_def comp_def distinct_map inj_on_def standard_metadata_def new_isam_def
      metadata_init_def ip_getCapacity_def dp_getCapacity_def Let_def)

lemma demo_isam_repr:
  obtains s d C where "demo_isam = Inr s" "isam_repr s d C" "mset (isam_contents C) = mset (isam_records demo_isam_data)"
proof -
  obtain s d C where "isam_bulk_insert (sort_key ir_key) [0, 0] demo_mem (new_isam None None False) demo_isam_data = Inr (s, [1], [True])"
    "isam_repr s d C" "mset (isam_contents C) = mset (isam_records demo_isam_data)"
    using isam_bulk_repr[OF _ demo_isam_facts(2,5,3,4) demo_isam_facts(6,7)] demo_isam_facts(1) by auto
  then show thesis by (intro that) (simp_all add: demo_isam_def)
qed

text \<open>The chains of the concrete index are sorted, and no removal empties a page of it.\<close>

lemma demo_isam_sorted:
  obtains s d C where "demo_isam = Inr s" "isam_repr s d C" "mset (isam_contents C) = mset (isam_records demo_isam_data)"
    "\<forall>j<27. \<forall>k. chain_sorted (C j) \<and> remove_keeps (C j) k"
proof -
  obtain s d where s: "isam_bulk_insert (sort_key ir_key) [0, 0] demo_mem (new_isam None None False) demo_isam_data =
      bind_io (build_rest demo_mem s (drop 81 d)) (\<lambda>s1. Inr (s1, [1], [True]))"
    "isam_repr s d (first_pages d)" "mset d = mset (isam_records demo_isam_data)" "separated d"
    using isam_bulk_start[where srt = "sort_key ir_key", OF _ demo_isam_facts(2,5,3,4) demo_isam_facts(6,7)] demo_isam_facts(1)
    by (metis le_refl)
  have "length d = 81" using s(3) demo_isam_facts(1) by (metis length_map size_mset)
  then have "demo_isam = Inr s" "isam_contents (first_pages d) = d" using s(1) by (simp_all add: demo_isam_def first_contents)
  then show thesis using s first_pages_sorted[OF s(4)] by (intro that[of s d "first_pages d"]) simp_all
qed

definition demo_long :: "int isam io" where
  "demo_long = bind_io (isam_bulk_insert (sort_key ir_key) [0, 0] demo_mem (new_isam None None False)
     (map (\<lambda>i. (10 * int i, int i)) [0..<85])) (\<lambda>(s, _). Inr s)"

text \<open>The last chain of the index of 85 records has three pages, and the third one has one record.\<close>

lemma demo_long_pages:
  "bind_io demo_long (\<lambda>s. bind_io (dt_read s (page_pos 26)) (\<lambda>x. bind_io (dt_read s (dp_next x)) (\<lambda>z.
     bind_io (dt_read s (dp_next z)) (\<lambda>w. Inr (map ir_key (live x), live z, live w, dp_next w))))) =
   Inr ([780, 790, 800], [new_isam_record 810 81, new_isam_record 820 82, new_isam_record 830 83], [new_isam_record 840 84], - 1)"
  by code_simp

lemma no_page_before: "dt_fetch s (- 1) = None"
  by (simp add: dt_fetch_def dt_read_def moveReadRecord_def)

lemma demo_long_chain:
  obtains s d C x z w where "demo_long = Inr s" "isam_repr s d C" "dp_file s = []" "C (search_route d 840) = [x, z, w]"
    "chain_sorted (C (search_route d 840))" "live w = [new_isam_record 840 84]" "new_isam_record 820 82 \<in> set (live z)"
proof -
  let ?data = "map (\<lambda>i. (10 * int i, int i)) [0..<85]"
  have data: "81 \<le> length ?data" "distinct (map fst ?data)" by (simp_all add: comp_def distinct_map inj_on_def)
  obtain s d C where s: "demo_long = Inr s" "isam_repr s d C" "dp_file s = []"
    "mset (isam_contents C) = mset (isam_records ?data)"
    using isam_bulk_repr[where srt = "sort_key ir_key", OF data demo_isam_facts(5,3,4,6,7)] unfolding demo_long_def by fastforce
  note h = isam_reprD[OF s(2)]
  obtain x z w where p: "dt_fetch s (page_pos 26) = Some x" "dt_fetch s (dp_next x) = Some z" "dt_fetch s (dp_next z) = Some w"
    "map ir_key (live x) = [780, 790, 800]" "live z = [new_isam_record 810 81, new_isam_record 820 82, new_isam_record 830 83]"
    "live w = [new_isam_record 840 84]" "dp_next w = - 1"
    using demo_long_pages unfolding s(1) bind_io_Inr by (auto simp: bind_io_eq_Inr dt_fetch_read)
  have chain: "page_chain s (page_pos 26) (C 26)" "C 26 \<noteq> []" using h(4,5)[of 26] by simp_all
  then obtain C1 where C1: "C 26 = x # C1" "page_chain s (dp_next x) C1" using p(1) by (cases "C 26") (auto simp: page_chain_Cons)
  then obtain C2 where C2: "C1 = z # C2" "page_chain s (dp_next z) C2"
    using p(2) no_page_before[of s] by (cases C1) (auto simp: page_chain_Cons page_chain_Nil)
  then obtain C3 where C3: "C2 = w # C3" "page_chain s (- 1) C3"
    using p(3,7) no_page_before[of s] by (cases C2) (auto simp: page_chain_Cons page_chain_Nil)
  have C: "C 26 = [x, z, w]" using C1 C2 C3 no_page_before[of s] by (cases C3) (auto simp: page_chain_Cons)
  have "new_isam_record 840 84 \<in> set (chain_records (C 26))" using p(6) by (simp add: C)
  then have "in_bucket d 26 840" using h(6)[of 26 "new_isam_record 840 84"] by (simp add: new_isam_record_def)
  from bucket_unique[OF h(2) route_bucket this isam_route_bounds(1)] have j: "search_route d 840 = 26" by simp
  have "chain_sorted (C 26)" using p(4-6) by (simp add: C chain_sorted_def new_isam_record_def)
  then show thesis using s C p(5,6) j by (intro that[of s d C x z w]) simp_all
qed

section \<open>Properties\<close>

text \<open>
  C27: \<open>bulk_insert\<close> of at least 81 records with different keys, in any order, succeeds, and then \<open>search\<close> returns for every
  key of them exactly its position, and nothing for any other key, whatever the contents of the memory of new pages are.
\<close>

theorem isam_bulk_insert_correct:
  assumes "81 \<le> length data" "distinct (map fst data)" "standard_metadata (metadata s)" "length mem = 3" "length kmem = 2"
    and "\<And>xs. mset (srt xs) = mset xs" "\<And>xs. sorted (map ir_key (srt xs))"
  shows "\<exists>s'. isam_bulk_insert srt kmem mem s data = Inr (s', [1], [True]) \<and>
    (\<forall>k. isam_search s' k = Inr (case map_of data k of None \<Rightarrow> [] | Some p \<Rightarrow> [p]))"
proof -
  obtain s' d C where s': "isam_bulk_insert srt kmem mem s data = Inr (s', [1], [True])" "isam_repr s' d C"
    "mset (isam_contents C) = mset (isam_records data)"
    using isam_bulk_repr[OF assms] by blast
  have "isam_search s' k = Inr (case map_of data k of None \<Rightarrow> [] | Some p \<Rightarrow> [p])" for k
    unfolding isam_search_repr[OF s'(2)] find_key_record[OF s'(3) assms(2)]
    by (simp add: new_isam_record_def split: option.split)
  then show ?thesis using s'(1) by blast
qed

theorem isam_bulk_insert_correct_witness:
  "\<exists>s. demo_isam = Inr s \<and> isam_search s 420 = Inr [42] \<and> isam_search s 425 = Inr []"
proof -
  obtain s where s: "isam_bulk_insert (sort_key ir_key) [0, 0] demo_mem (new_isam None None False) demo_isam_data = Inr (s, [1], [True])"
    "\<And>k. isam_search s k = Inr (case map_of demo_isam_data k of None \<Rightarrow> [] | Some p \<Rightarrow> [p])"
    using isam_bulk_insert_correct[OF _ demo_isam_facts(2,5,3,4) demo_isam_facts(6,7)] demo_isam_facts(1) by auto
  have "map_of demo_isam_data 420 = Some 42" "map_of demo_isam_data 425 = None"
    by (simp_all add: demo_isam_data_def upt_conv_Cons)
  then show ?thesis using s by (simp add: demo_isam_def)
qed

text \<open>
  C28: \<open>add\<close> of a key that is not in the index returns its position and adds one record to the contents, in whatever place of
  its chain; the chains stay well formed and apart, and every search finds what it found before, and the new key.
\<close>

theorem isam_add_new:
  assumes "isam_repr s d C" "k \<notin> ir_key ` set (isam_contents C)" "length mem = 3"
  shows "\<exists>s' C'. isam_add mem s k p = Inr (s', [p]) \<and> isam_repr s' d C' \<and>
    mset (isam_contents C') = add_mset (new_isam_record k p) (mset (isam_contents C)) \<and>
    (\<forall>k'. isam_search s' k' = (if k' = k then Inr [p] else isam_search s k'))"
proof -
  obtain s' C' where s': "isam_add_record mem s (new_isam_record k p) = Inr (s', [p])" "isam_repr s' d C'"
    "mset (isam_contents C') = add_mset (new_isam_record k p) (mset (isam_contents C))" "dp_file s' = dp_file s"
    using isam_add_repr[OF assms(1) _ assms(3), of "new_isam_record k p"] assms(2) by (auto simp: new_isam_record_def)
  have found: "find (\<lambda>r. ir_key r = k') rs = Some r" if "distinct (map ir_key rs)" "r \<in> set rs" "ir_key r = k'" for rs and r :: "'a isam_record" and k'
    using that by (induction rs) auto
  have sets: "set (isam_contents C') = insert (new_isam_record k p) (set (isam_contents C))"
    using arg_cong[OF s'(3), of set_mset] by simp
  note d = isam_reprD(3)[OF assms(1)] isam_reprD(3)[OF s'(2)]
  have raw: "isam_raw_records s' r res = isam_raw_records s r res" for r res by (simp add: isam_raw_records_def s'(4))
  have "isam_search s' k' = (if k' = k then Inr [p] else isam_search s k')" for k'
  proof (cases "k' = k")
    case True
    have "find (\<lambda>r. ir_key r = k) (isam_contents C') = Some (new_isam_record k p)"
      by (rule found[OF d(2)]) (simp_all add: sets new_isam_record_def)
    then show ?thesis using True isam_search_repr[OF s'(2), of k] by (simp add: new_isam_record_def)
  next
    case False
    have "find (\<lambda>r. ir_key r = k') (isam_contents C') = find (\<lambda>r. ir_key r = k') (isam_contents C)"
    proof (cases "find (\<lambda>r. ir_key r = k') (isam_contents C)")
      case None
      then have "find (\<lambda>r. ir_key r = k') (isam_contents C') = None"
        using False sets by (auto simp: find_None_iff new_isam_record_def)
      then show ?thesis using None by simp
    next
      case (Some r)
      then have "r \<in> set (isam_contents C)" "ir_key r = k'" by (auto simp: find_Some_iff)
      then show ?thesis using Some found[OF d(2), of r k'] sets by simp
    qed
    then show ?thesis using False isam_search_repr[OF s'(2)] isam_search_repr[OF assms(1)] raw by (simp split: option.split)
  qed
  then show ?thesis using s' by (auto simp: isam_add_def)
qed

theorem isam_add_new_witness:
  "\<exists>s s'. demo_isam = Inr s \<and> isam_add demo_mem s 425 7 = Inr (s', [7]) \<and> isam_search s' 425 = Inr [7] \<and>
     isam_search s' 420 = isam_search s 420"
proof -
  obtain s d C where s: "demo_isam = Inr s" "isam_repr s d C" "mset (isam_contents C) = mset (isam_records demo_isam_data)"
    by (rule demo_isam_repr)
  have "set (isam_contents C) = set (isam_records demo_isam_data)" using arg_cong[OF s(3), of set_mset] by simp
  moreover have "10 * int i \<noteq> 425" for i by presburger
  ultimately have "425 \<notin> ir_key ` set (isam_contents C)" by (auto simp: demo_isam_data_def new_isam_record_def)
  from isam_add_new[OF s(2) this demo_isam_facts(3), of 7] show ?thesis using s(1) by fastforce
qed

text \<open>
  C30: \<open>range_search\<close> on an index without duplicates returns the positions of exactly the records whose keys are between the
  bounds, both included, chain by chain.
\<close>

theorem isam_range_correct:
  assumes "isam_repr s d C" "no_dups (isam_contents C)"
  shows "isam_range_search s lo hi = Inr (map ir_pos (filter (\<lambda>r. lo \<le> ir_key r \<and> ir_key r \<le> hi) (isam_contents C)))"
  by (rule isam_range_repr[OF assms])

theorem isam_range_correct_witness:
  "\<exists>s ps. demo_isam = Inr s \<and> isam_range_search s 100 135 = Inr ps \<and> mset ps = {# 10, 11, 12, 13 #}"
proof -
  obtain s d C where s: "demo_isam = Inr s" "isam_repr s d C" "mset (isam_contents C) = mset (isam_records demo_isam_data)"
    by (rule demo_isam_repr)
  let ?P = "\<lambda>r :: int isam_record. 100 \<le> ir_key r \<and> ir_key r \<le> 135"
  have "mset (map ir_pos (filter ?P (isam_contents C))) = image_mset ir_pos (filter_mset ?P (mset (isam_contents C)))" by simp
  also have "\<dots> = mset (map ir_pos (filter ?P (isam_records demo_isam_data)))" unfolding s(3) by simp
  also have "map ir_pos (filter ?P (isam_records demo_isam_data)) = [10, 11, 12, 13]"
    by (simp add: demo_isam_data_def upt_conv_Cons new_isam_record_def)
  finally have "mset (map ir_pos (filter ?P (isam_contents C))) = {# 10, 11, 12, 13 #}" by simp
  then show ?thesis using s(1) isam_range_correct[OF s(2) no_dups_records[OF s(3)], of 100 135] by blast
qed

text \<open>
  C29: \<open>remove\<close> of a key on a chain whose records are sorted returns the position of its record, or nothing when the key is
  not there.  The record alone leaves the contents, the chains stay well formed, apart and sorted, and every search finds what
  it found before except the removed key.  The hypotheses say what the removal relies on: the pages of the chain are in order,
  no page but the second one loses its last record, and the position is not -1, which the code takes for an absent key.
\<close>

theorem isam_remove_correct:
  assumes "isam_repr s d C" "chain_sorted (C (search_route d k))" "remove_keeps (C (search_route d k)) k"
    and "\<forall>r\<in>set (isam_contents C). ir_key r = k \<longrightarrow> ir_pos r \<noteq> - 1"
  shows "\<exists>s' C'. isam_remove s k =
      Inr (s', case find (\<lambda>r. ir_key r = k) (isam_contents C) of None \<Rightarrow> [] | Some r \<Rightarrow> [ir_pos r]) \<and>
    isam_repr s' d C' \<and> isam_contents C' = filter (\<lambda>r. ir_key r \<noteq> k) (isam_contents C) \<and>
    (\<forall>i. chain_sorted (C i) \<longrightarrow> chain_sorted (C' i)) \<and>
    (\<forall>k'. isam_search s' k' = (if k' = k then Inr [] else isam_search s k'))"
proof (cases "find (\<lambda>r. ir_key r = k) (isam_contents C)")
  case None
  then have absent: "k \<notin> ir_key ` set (isam_contents C)" by (auto simp: find_None_iff)
  then have "filter (\<lambda>r. ir_key r \<noteq> k) (isam_contents C) = isam_contents C" by (intro filter_True) auto
  then show ?thesis using None absent assms(1) isam_remove_absent[OF assms(1) absent]
    by (intro exI[of _ s] exI[of _ C]) (auto simp: isam_search_repr[OF assms(1)])
next
  case (Some r)
  then have r: "r \<in> set (isam_contents C)" "ir_key r = k" by (auto simp: find_Some_iff)
  then obtain s' C' where s': "isam_remove s k = Inr (s', [ir_pos r])" "isam_repr s' d C'"
    "isam_contents C' = filter (\<lambda>r. ir_key r \<noteq> k) (isam_contents C)" "dp_file s' = dp_file s"
    "\<forall>i. chain_sorted (C i) \<longrightarrow> chain_sorted (C' i)"
    using isam_remove_repr[OF assms(1-3)] assms(4) by blast
  have "isam_search s' k' = (if k' = k then Inr [] else isam_search s k')" for k'
    unfolding isam_search_repr[OF s'(2)] isam_search_repr[OF assms(1)] s'(3) find_filter_key
    by (simp add: isam_raw_records_def s'(4) split: option.split)
  then show ?thesis using Some s' by auto
qed

theorem isam_remove_correct_witness:
  "\<exists>s s'. demo_isam = Inr s \<and> isam_search s 420 = Inr [42] \<and> isam_remove s 420 = Inr (s', [42]) \<and>
     isam_search s' 420 = Inr [] \<and> isam_search s' 430 = isam_search s 430"
proof -
  obtain s d C where s: "demo_isam = Inr s" "isam_repr s d C" "mset (isam_contents C) = mset (isam_records demo_isam_data)"
    "\<forall>j<27. \<forall>k. chain_sorted (C j) \<and> remove_keeps (C j) k"
    by (rule demo_isam_sorted)
  have found: "find (\<lambda>r. ir_key r = 420) (isam_contents C) = Some (new_isam_record 420 42)"
    unfolding find_key_record[OF s(3) demo_isam_facts(2)] by (simp add: demo_isam_data_def upt_conv_Cons)
  have "set (isam_contents C) = set (isam_records demo_isam_data)" using arg_cong[OF s(3), of set_mset] by simp
  then have "\<forall>r\<in>set (isam_contents C). ir_key r = 420 \<longrightarrow> ir_pos r \<noteq> - 1"
    by (auto simp: demo_isam_data_def new_isam_record_def)
  with isam_remove_correct[OF s(2), of 420] s(4) isam_route_bounds(1)[where d = d] obtain s' where
    "isam_remove s 420 = Inr (s', [42])" "\<forall>k'. isam_search s' k' = (if k' = 420 then Inr [] else isam_search s k')"
    unfolding found by (auto simp: new_isam_record_def)
  moreover have "isam_search s 420 = Inr [42]"
    unfolding isam_search_repr[OF s(2)] found by (simp add: new_isam_record_def)
  ultimately show ?thesis using s(1) by (intro exI[of _ s] exI[of _ s']) simp
qed

text \<open>
  C31: The data pages keep their type: after any \<open>add\<close> or \<open>remove\<close> every page of the file has three records and a counter
  between 0 and 3, if it had before.
\<close>

theorem isam_pages_typed:
  assumes "\<forall>p\<in>set (dt_file s). page_ok p" "length mem = 3"
  shows "(isam_add mem s k q = Inr (s', res) \<longrightarrow> (\<forall>p\<in>set (dt_file s'). page_ok p)) \<and>
    (isam_remove s k = Inr (s', res) \<longrightarrow> (\<forall>p\<in>set (dt_file s'). page_ok p))"
proof (intro conjI impI)
  have ok: "pages_ok s" using assms(1) by (simp add: pages_ok_def)
  show "\<forall>p\<in>set (dt_file s'). page_ok p" if "isam_add mem s k q = Inr (s', res)"
    using that isam_insert_node_type[OF ok assms(2)]
    by (auto simp: isam_add_def isam_add_record_def bind_io_eq_Inr pages_ok_def simp del: isam_insert_node.simps split: if_splits)
  show "\<forall>p\<in>set (dt_file s'). page_ok p" if "isam_remove s k = Inr (s', res)"
    using that isam_remove_node_type[OF ok, of "idx_fuel s" "root s" k s' res]
    by (auto simp: isam_remove_def pages_ok_def simp del: isam_remove_node.simps split: if_splits)
qed

lemma demo_isam_typed:
  "bind_io demo_isam (\<lambda>s. bind_io (isam_add demo_mem s 425 7) (\<lambda>(s1, _). bind_io (isam_remove s1 420) (\<lambda>(s2, res).
     Inr (list_all page_ok (dt_file s), res)))) = Inr (True, [42])"
  by code_simp

theorem isam_pages_typed_witness:
  "\<exists>s s1 s2. demo_isam = Inr s \<and> isam_add demo_mem s 425 7 = Inr (s1, [7]) \<and> (\<forall>p\<in>set (dt_file s1). page_ok p) \<and>
     isam_remove s1 420 = Inr (s2, [42]) \<and> (\<forall>p\<in>set (dt_file s2). page_ok p)"
proof -
  obtain s s1 r s2 where s: "demo_isam = Inr s" "isam_add demo_mem s 425 7 = Inr (s1, r)" "isam_remove s1 420 = Inr (s2, [42])"
    "\<forall>p\<in>set (dt_file s). page_ok p"
    using demo_isam_typed by (auto simp: bind_io_eq_Inr list_all_iff)
  have r: "r = [7]" using s(2) by (auto simp: isam_add_def isam_add_record_def bind_io_eq_Inr new_isam_record_def split: if_splits)
  have t: "\<forall>p\<in>set (dt_file s1). page_ok p"
    using isam_pages_typed[OF s(4) demo_isam_facts(3), of 425 7 s1 r] s(2) by simp
  have "\<forall>p\<in>set (dt_file s2). page_ok p"
    using isam_pages_typed[OF t demo_isam_facts(3), of 420 0 s2 "[42]"] s(3) by simp
  then show ?thesis using s(1-3) t r by blast
qed

text \<open>
  C32: A removal that empties the third page of a chain or a later one loses records: on a sorted chain it returns the
  position of its key, but links the first page to the page behind the emptied one, and the records of all pages
  between the first one and the emptied one leave the contents.  A search that found one of them finds nothing from then on.
\<close>

theorem isam_remove_loses_pages:
  assumes "isam_repr s d C" "C (search_route d k) = x # Z @ w # D" "chain_sorted (C (search_route d k))"
    and "live w = [r]" "ir_key r = k" "ir_pos r \<noteq> - 1"
  shows "\<exists>s'. isam_remove s k = Inr (s', [ir_pos r]) \<and>
    isam_repr s' d (C(search_route d k := dp_setNext x (dp_next w) # D)) \<and>
    isam_contents (C(search_route d k := dp_setNext x (dp_next w) # D)) =
      filter (\<lambda>a. a \<noteq> r \<and> a \<notin> set (chain_records Z)) (isam_contents C) \<and>
    (\<forall>a\<in>set (chain_records Z). isam_search s (ir_key a) = isam_raw_records s a [] \<and> isam_search s' (ir_key a) = Inr [])"
proof -
  obtain s' where s': "isam_remove s k = Inr (s', [ir_pos r])" "dp_file s' = dp_file s"
    "isam_repr s' d (C(search_route d k := dp_setNext x (dp_next w) # D))"
    "isam_contents (C(search_route d k := dp_setNext x (dp_next w) # D)) =
      filter (\<lambda>a. a \<noteq> r \<and> a \<notin> set (chain_records Z)) (isam_contents C)"
    using isam_remove_loses[OF assms] by blast
  have "isam_search s (ir_key a) = isam_raw_records s a [] \<and> isam_search s' (ir_key a) = Inr []"
    if a: "a \<in> set (chain_records Z)" for a
  proof -
    have "a \<in> set (isam_contents C)"
      using a assms(2) isam_route_bounds(1)[of "\<lambda>x. x \<le> k" d] by (auto simp: in_contents intro!: exI[of _ "search_route d k"])
    then show ?thesis unfolding isam_search_repr[OF assms(1)] isam_search_repr[OF s'(3)] s'(4)
      using find_distinct_key[OF isam_reprD(3)[OF assms(1)]] find_key_removed[OF isam_reprD(3)[OF assms(1)]] a by simp
  qed
  then show ?thesis using s' by blast
qed

theorem isam_remove_loses_pages_witness:
  "\<exists>s s'. demo_long = Inr s \<and> isam_search s 820 = Inr [82] \<and> isam_remove s 840 = Inr (s', [84]) \<and> isam_search s' 820 = Inr []"
proof -
  obtain s d C x z w where s: "demo_long = Inr s" "isam_repr s d C" "dp_file s = []" "C (search_route d 840) = [x, z, w]"
    "chain_sorted (C (search_route d 840))" "live w = [new_isam_record 840 84]" "new_isam_record 820 82 \<in> set (live z)"
    by (rule demo_long_chain)
  have C: "C (search_route d 840) = x # [z] @ w # []" using s(4) by simp
  have r: "ir_key (new_isam_record 840 84) = (840 :: int)" "ir_pos (new_isam_record (840 :: int) 84) \<noteq> - 1"
    by (simp_all add: new_isam_record_def)
  from isam_remove_loses_pages[OF s(2) C s(5,6) r] obtain s' where
    "isam_remove s 840 = Inr (s', [ir_pos (new_isam_record (840 :: int) 84)])"
    "\<forall>a\<in>set (chain_records [z]). isam_search s (ir_key a) = isam_raw_records s a [] \<and> isam_search s' (ir_key a) = Inr []"
    by blast
  with s(1,3,7) show ?thesis
    by (intro exI[of _ s] exI[of _ s']) (auto simp: new_isam_record_def isam_raw_records_def dest: bspec[of _ _ "new_isam_record 820 82"])
qed

text \<open>
  A second way to lose a record, on a concrete index: an addition compares with memory behind the last record, so that a
  page need not be sorted; a second record of a key of such a page is then not linked to the first one, and no search returns
  it.
\<close>

lemma isam_duplicate_lost:
  "bind_io demo_isam (\<lambda>s. bind_io (isam_adds s [(5, 1000), (3, 1001), (5, 1002)]) (\<lambda>s. isam_search s 5)) = Inr [1000]"
  by code_simp

end
