(* ===== verification/RecordCodec.thy ===== *)
theory RecordCodec
  imports Prelude "HOL-Library.Word" "HOL-Library.Char_ord" "HOL-Library.List_Lexorder"
begin

unbundle bit_operations_syntax

text \<open>
  The records of a table (\<open>include/DBEngine/Record/Record.hpp\<close>, \<open>src/DBEngine/Record/Record.cpp\<close>):
  the types of attributes, the conversions between the text of a field and its value, and the
  layout of a record in the data file.  A field is stored in as many bytes as its type says:
  integers in two's complement, low byte first, strings padded with blanks or cut.  The
  conversions of \<open>float\<close> values are those of the C library; they are a parameter \<open>fc\<close> of the
  functions that use them.
\<close>

section \<open>Attributes and types\<close>

datatype attribute = Attribute (att_name: string) (att_value: string)

datatype index_id = IndexId (idx_table: string) (idx_attribute: string)

text \<open>The defaulted \<open>operator<=>\<close> compares the members in order.\<close>

instantiation attribute :: linorder
begin

fun less_eq_attribute :: "attribute \<Rightarrow> attribute \<Rightarrow> bool" where
  "less_eq_attribute (Attribute n v) (Attribute n' v') \<longleftrightarrow> n < n' \<or> n = n' \<and> v \<le> v'"

definition less_attribute :: "attribute \<Rightarrow> attribute \<Rightarrow> bool" where
  "less_attribute a b \<longleftrightarrow> a \<le> b \<and> \<not> b \<le> a"

instance
proof
  fix a b c :: attribute
  show "a < b \<longleftrightarrow> a \<le> b \<and> \<not> b \<le> a" by (rule less_attribute_def)
  show "a \<le> a" by (cases a) simp
  show "a \<le> b \<Longrightarrow> b \<le> c \<Longrightarrow> a \<le> c" by (cases a; cases b; cases c) auto
  show "a \<le> b \<Longrightarrow> b \<le> a \<Longrightarrow> a = b" by (cases a; cases b) auto
  show "a \<le> b \<or> b \<le> a" by (cases a; cases b) auto
qed

end

instantiation index_id :: linorder
begin

fun less_eq_index_id :: "index_id \<Rightarrow> index_id \<Rightarrow> bool" where
  "less_eq_index_id (IndexId t a) (IndexId t' a') \<longleftrightarrow> t < t' \<or> t = t' \<and> a \<le> a'"

definition less_index_id :: "index_id \<Rightarrow> index_id \<Rightarrow> bool" where
  "less_index_id a b \<longleftrightarrow> a \<le> b \<and> \<not> b \<le> a"

instance
proof
  fix a b c :: index_id
  show "a < b \<longleftrightarrow> a \<le> b \<and> \<not> b \<le> a" by (rule less_index_id_def)
  show "a \<le> a" by (cases a) simp
  show "a \<le> b \<Longrightarrow> b \<le> c \<Longrightarrow> a \<le> c" by (cases a; cases b; cases c) auto
  show "a \<le> b \<Longrightarrow> b \<le> a \<Longrightarrow> a = b" by (cases a; cases b) auto
  show "a \<le> b \<or> b \<le> a" by (cases a; cases b) auto
qed

end

datatype types = BOOL_t | INT_t | FLOAT_t | VARCHAR_t

record db_type =
  type_size :: "16 word"
  type_kind :: types

text \<open>The constructor without a size.\<close>

fun mk_type :: "types \<Rightarrow> db_type io" where
  "mk_type BOOL_t = Inr \<lparr>type_size = 1, type_kind = BOOL_t\<rparr>"
| "mk_type INT_t = Inr \<lparr>type_size = 4, type_kind = INT_t\<rparr>"
| "mk_type FLOAT_t = Inr \<lparr>type_size = 4, type_kind = FLOAT_t\<rparr>"
| "mk_type VARCHAR_t = Inl InvalidArgument"

definition mk_type_sized :: "types \<Rightarrow> int \<Rightarrow> db_type" where
  "mk_type_sized k n = \<lparr>type_size = word_of_int n, type_kind = k\<rparr>"

datatype rec_status = DELETED | OK

record db_record =
  rec_status :: rec_status
  m_fields :: "string list"

definition empty_record :: db_record where
  "empty_record = \<lparr>rec_status = OK, m_fields = []\<rparr>"

section \<open>Numbers as text\<close>

definition digit_char :: "nat \<Rightarrow> char" where
  "digit_char d = char_of (48 + d)"

definition is_digit :: "char \<Rightarrow> bool" where
  "is_digit c \<longleftrightarrow> 48 \<le> (of_char c :: nat) \<and> (of_char c :: nat) \<le> 57"

definition digit_value :: "char \<Rightarrow> nat" where
  "digit_value c = of_char c - 48"

definition is_space :: "char \<Rightarrow> bool" where
  "is_space c \<longleftrightarrow> (of_char c :: nat) \<in> {9, 10, 11, 12, 13, 32}"

definition digits_value :: "string \<Rightarrow> nat" where
  "digits_value ds = foldl (\<lambda>a c. 10 * a + digit_value c) 0 ds"

fun nat_string :: "nat \<Rightarrow> string" where
  "nat_string n = (if n < 10 then [digit_char n] else nat_string (n div 10) @ [digit_char (n mod 10)])"

declare nat_string.simps [simp del]

text \<open>\<open>std::to_string(int)\<close> and \<open>std::stoi\<close>.\<close>

definition int_string :: "int \<Rightarrow> string" where
  "int_string i = (if i < 0 then CHR ''-'' # nat_string (nat (- i)) else nat_string (nat i))"

definition stoi :: "string \<Rightarrow> int io" where
  "stoi s =
     (let s1 = dropWhile is_space s;
          neg = (case s1 of c # _ \<Rightarrow> c = CHR ''-'' | [] \<Rightarrow> False);
          s2 = (case s1 of c # r \<Rightarrow> if c = CHR ''-'' \<or> c = CHR ''+'' then r else s1 | [] \<Rightarrow> s1);
          ds = takeWhile is_digit s2;
          v = (if neg then - int (digits_value ds) else int (digits_value ds))
      in if ds = [] then Inl InvalidArgument
         else if - (2 ^ 31) \<le> v \<and> v < 2 ^ 31 then Inr v else Inl OutOfRange)"

text \<open>\<open>stob\<close>: the words that mean true, in any case.\<close>

definition toupper :: "char \<Rightarrow> char" where
  "toupper c = (if 97 \<le> (of_char c :: nat) \<and> (of_char c :: nat) \<le> 122 then char_of ((of_char c :: nat) - 32) else c)"

definition stob :: "string \<Rightarrow> bool" where
  "stob s \<longleftrightarrow> map toupper s \<in>
     {''YES'', ''Y'', ''SI'', ''S'', ''V'', ''VERDADERO'', ''T'', ''TRUE''}"

section \<open>Values as bytes\<close>

definition int_bytes :: "32 word \<Rightarrow> char list" where
  "int_bytes w = map (\<lambda>i. char_of (unat w div 256 ^ i mod 256)) [0..<4]"

definition bytes_int :: "char list \<Rightarrow> 32 word" where
  "bytes_int cs = of_nat (foldr (\<lambda>c a. of_char c + 256 * a) cs 0)"

text \<open>
  The conversions of floating point numbers: \<open>stof\<close> followed by the four bytes of the value, and
  the text of the value read from four bytes.
\<close>

record float_conv =
  fl_parse :: "string \<Rightarrow> char list io"
  fl_print :: "char list \<Rightarrow> string"

text \<open>
  \<open>std::memcpy\<close> of \<open>field_size\<close> bytes out of a value of \<open>n\<close> bytes: beyond it the bytes of other
  objects are read.
\<close>

definition copy_from :: "nat \<Rightarrow> char list \<Rightarrow> char list io" where
  "copy_from n bs = (if n \<le> length bs then Inr (take n bs) else Inl Uninitialised)"

definition field_at :: "db_record \<Rightarrow> nat \<Rightarrow> string io" where
  "field_at r i = (if i < length (m_fields r) then Inr (m_fields r ! i) else Inl OutOfRange)"

text \<open>The bytes one field is written as.\<close>

definition field_bytes :: "float_conv \<Rightarrow> db_type \<Rightarrow> string \<Rightarrow> char list io" where
  "field_bytes fc ty s =
     (let n = unat (type_size ty) in
      case type_kind ty of
        BOOL_t \<Rightarrow> copy_from n [char_of (if stob s then 1 else 0 :: nat)]
      | INT_t \<Rightarrow> bind_io (stoi s) (\<lambda>v. copy_from n (int_bytes (word_of_int v)))
      | FLOAT_t \<Rightarrow> bind_io (fl_parse fc s) (copy_from n)
      | VARCHAR_t \<Rightarrow> Inr (take n s @ replicate (n - length s) CHR '' ''))"

text \<open>The text a field is read as; an integer of which not all bytes are read is not defined.\<close>

definition bytes_field :: "float_conv \<Rightarrow> db_type \<Rightarrow> char list \<Rightarrow> string io" where
  "bytes_field fc ty bs =
     (case type_kind ty of
        BOOL_t \<Rightarrow> if length bs = 1 then Inr (if hd bs = CHR 0x00 then ''false'' else ''true'') else Inl Uninitialised
      | INT_t \<Rightarrow> if length bs = 4 then Inr (int_string (sint (bytes_int bs))) else Inl Uninitialised
      | FLOAT_t \<Rightarrow> if length bs = 4 then Inr (fl_print fc bs) else Inl Uninitialised
      | VARCHAR_t \<Rightarrow> Inr bs)"

section \<open>Writing and reading a record\<close>

text \<open>
  \<open>std::accumulate\<close> with a \<open>uint8_t\<close> accumulator: the size of a record is computed modulo 256.
\<close>

definition record_size :: "db_type list \<Rightarrow> 8 word" where
  "record_size tys = foldl (\<lambda>sum ty. ucast (ucast sum + ucast (type_size ty) :: 32 word)) 0 tys"

fun write_fields :: "float_conv \<Rightarrow> db_record \<Rightarrow> int \<Rightarrow> nat \<Rightarrow> db_type list \<Rightarrow> char list \<Rightarrow> char list io" where
  "write_fields fc r buffer_size i [] buf = Inr buf"
| "write_fields fc r buffer_size i (ty # tys) buf =
     (if int (length buf) + uint (type_size ty) > buffer_size then Inl RuntimeError
      else bind_io (field_at r i) (\<lambda>s.
           bind_io (field_bytes fc ty s) (\<lambda>bs.
           write_fields fc r buffer_size (Suc i) tys (buf @ bs))))"

text \<open>
  \<open>Record::write\<close>: the bytes it gives to the stream.  It writes \<open>buffer_size\<close> bytes of the buffer; the
  fields fill it exactly, unless the sum of the sizes wrapped, and then the check above throws.
\<close>

definition record_write :: "float_conv \<Rightarrow> db_type list \<Rightarrow> db_record \<Rightarrow> char list io" where
  "record_write fc tys r =
     bind_io (write_fields fc r (uint (record_size tys)) 0 tys []) (\<lambda>buf.
     if length buf = unat (record_size tys) then Inr buf else Inl Uninitialised)"

fun read_fields :: "float_conv \<Rightarrow> db_type list \<Rightarrow> char list \<Rightarrow> string list io" where
  "read_fields fc [] bs = Inr []"
| "read_fields fc (ty # tys) bs =
     (let n = unat (type_size ty) in
      if n \<le> length bs then
        bind_io (bytes_field fc ty (take n bs)) (\<lambda>s.
        bind_io (read_fields fc tys (drop n bs)) (\<lambda>ss. Inr (s # ss)))
      else Inl Uninitialised)"

text \<open>
  \<open>Record::read\<close> from the bytes that are left in the stream; \<open>None\<close> is a stream in its failed state.
  A failed read leaves the record as it was.
\<close>

definition record_read ::
  "float_conv \<Rightarrow> db_type list \<Rightarrow> char list option \<Rightarrow> db_record \<Rightarrow> (char list option \<times> db_record) io" where
  "record_read fc tys stream r =
     (let n = unat (record_size tys) in
      case stream of
        None \<Rightarrow> Inr (None, r)
      | Some bs \<Rightarrow>
          if n \<le> length bs then
            bind_io (read_fields fc tys (take n bs)) (\<lambda>ss. Inr (Some (drop n bs), r\<lparr>m_fields := ss\<rparr>))
          else Inr (None, r))"

text \<open>\<open>RecordHash\<close>: over the characters of all fields, on 64 bits; \<open>char\<close> is signed.\<close>

definition hash_char :: "char \<Rightarrow> 64 word" where
  "hash_char c = scast (of_nat (of_char c) :: 8 word)"

definition record_hash :: "db_record \<Rightarrow> 64 word" where
  "record_hash r =
     foldl (\<lambda>h field. foldl (\<lambda>h c. xor h (hash_char c + 0x9e3779b9 + push_bit 6 h + drop_bit 2 h)) h field)
       0 (m_fields r)"

text \<open>
  \<open>cast_and_execute\<close> and \<open>key_cast_and_execute\<close>: the value the function is called with; \<open>None\<close> where it
  is not called at all.  Boolean keys are not supported, and the one-argument key cast does not
  call the function on strings.
\<close>

datatype db_value = VInt int | VFloat "char list" | VBool bool | VStr string

definition cast_value :: "float_conv \<Rightarrow> types \<Rightarrow> string \<Rightarrow> db_value io" where
  "cast_value fc k s =
     (case k of
        INT_t \<Rightarrow> bind_io (stoi s) (\<lambda>v. Inr (VInt v))
      | FLOAT_t \<Rightarrow> bind_io (fl_parse fc s) (\<lambda>v. Inr (VFloat v))
      | BOOL_t \<Rightarrow> Inr (VBool (stob s))
      | VARCHAR_t \<Rightarrow> Inr (VStr s))"

definition key_cast_value :: "float_conv \<Rightarrow> types \<Rightarrow> string \<Rightarrow> db_value option io" where
  "key_cast_value fc k s =
     (case k of
        INT_t \<Rightarrow> bind_io (stoi s) (\<lambda>v. Inr (Some (VInt v)))
      | FLOAT_t \<Rightarrow> bind_io (fl_parse fc s) (\<lambda>v. Inr (Some (VFloat v)))
      | BOOL_t \<Rightarrow> Inr None
      | VARCHAR_t \<Rightarrow> Inr None)"

definition cast_values :: "float_conv \<Rightarrow> types \<Rightarrow> string \<Rightarrow> string \<Rightarrow> (db_value \<times> db_value) io" where
  "cast_values fc k s1 s2 =
     bind_io (cast_value fc k s1) (\<lambda>v1. bind_io (cast_value fc k s2) (\<lambda>v2. Inr (v1, v2)))"

definition key_cast_values :: "float_conv \<Rightarrow> types \<Rightarrow> string \<Rightarrow> string \<Rightarrow> (db_value \<times> db_value) option io" where
  "key_cast_values fc k s1 s2 =
     (if k = BOOL_t then Inr None else bind_io (cast_values fc k s1 s2) (\<lambda>v. Inr (Some v)))"

text \<open>\<open>Type::to_string\<close>.\<close>

definition type_string :: "db_type \<Rightarrow> string" where
  "type_string ty =
     (case type_kind ty of BOOL_t \<Rightarrow> ''BOOL'' | INT_t \<Rightarrow> ''INT'' | FLOAT_t \<Rightarrow> ''FLOAT'' | VARCHAR_t \<Rightarrow> ''VARCHAR'')
     @ [CHR 0x09] @ ''Size: '' @ nat_string (unat (type_size ty)) @ [CHR 0x0A]"

end
