(* ===== verification/RecordTheorems.thy ===== *)
theory RecordTheorems
  imports RecordCodec
begin

text \<open>
  Records survive the data file: numbers printed are read back, bytes written are read back, and a
  record written and read is the record with its fields in canonical form.  A table whose record
  is longer than 255 bytes can never store one.
\<close>

section \<open>Numbers\<close>

lemma of_char_digit: "d < 10 \<Longrightarrow> (of_char (digit_char d) :: nat) = 48 + d"
  by (simp add: digit_char_def)

lemma is_digit_digit_char: "d < 10 \<Longrightarrow> is_digit (digit_char d)"
  by (simp add: is_digit_def of_char_digit)

lemma digit_value_digit_char: "d < 10 \<Longrightarrow> digit_value (digit_char d) = d"
  by (simp add: digit_value_def of_char_digit)

lemma nat_string_digits: "\<forall>c\<in>set (nat_string n). is_digit c"
proof (induction n rule: nat_string.induct)
  case (1 n)
  then show ?case by (subst nat_string.simps) (auto simp: is_digit_digit_char)
qed

lemma nat_string_not_Nil [simp]: "nat_string n \<noteq> []"
  by (subst nat_string.simps) simp

lemma digits_value_snoc: "digits_value (ds @ [c]) = 10 * digits_value ds + digit_value c"
  by (simp add: digits_value_def)

lemma digits_value_nat_string: "digits_value (nat_string n) = n"
proof (induction n rule: nat_string.induct)
  case (1 n)
  show ?case
  proof (cases "n < 10")
    case True
    then have "nat_string n = [digit_char n]" by (subst nat_string.simps) simp
    then show ?thesis using True by (simp add: digits_value_def digit_value_digit_char)
  next
    case False
    then have "nat_string n = nat_string (n div 10) @ [digit_char (n mod 10)]" by (subst nat_string.simps) simp
    then show ?thesis using 1 False by (simp add: digits_value_snoc digit_value_digit_char)
  qed
qed

lemma digit_not_space: "is_digit c \<Longrightarrow> \<not> is_space c"
  by (auto simp: is_digit_def is_space_def)

lemma digit_not_sign: "is_digit c \<Longrightarrow> c \<noteq> CHR ''-'' \<and> c \<noteq> CHR ''+''"
  by (auto simp: is_digit_def)

lemma stoi_int_string:
  assumes "- (2 ^ 31) \<le> i" "i < 2 ^ 31"
  shows "stoi (int_string i) = Inr i"
proof -
  have digits: "takeWhile is_digit (nat_string n) = nat_string n" for n
    using nat_string_digits by (simp add: takeWhile_eq_all_conv)
  have minus: "\<not> is_space CHR ''-''" by (simp add: is_space_def)
  show ?thesis
  proof (cases "i < 0")
    case True
    then have "dropWhile is_space (int_string i) = CHR ''-'' # nat_string (nat (- i))"
      using minus by (simp add: int_string_def)
    then show ?thesis using True assms
      by (simp add: stoi_def digits digits_value_nat_string)
  next
    case False
    obtain c r where c: "nat_string (nat i) = c # r" by (cases "nat_string (nat i)") auto
    then have dig: "is_digit c" using nat_string_digits[of "nat i"] by simp
    then have drop: "dropWhile is_space (int_string i) = c # r"
      using False c digit_not_space by (simp add: int_string_def)
    have val: "takeWhile is_digit (c # r) = c # r" "digits_value (c # r) = nat i"
      using digits[of "nat i"] digits_value_nat_string[of "nat i"] by (simp_all add: c)
    show ?thesis using digit_not_sign[OF dig] False assms val(2)
      by (simp add: stoi_def drop val(1) del: takeWhile.simps)
  qed
qed

lemma stoi_range: "stoi s = Inr v \<Longrightarrow> - (2 ^ 31) \<le> v \<and> v < 2 ^ 31"
  by (auto simp: stoi_def Let_def split: if_splits)

section \<open>Bytes\<close>

lemma int_bytes_length [simp]: "length (int_bytes w) = 4"
  by (simp add: int_bytes_def)

lemma bytes_int_bytes: "bytes_int (int_bytes w) = w"
proof -
  have lt: "unat w < 256 ^ 4" using unsigned_less[of w] by simp
  have "foldr (\<lambda>c a. of_char c + 256 * a) (int_bytes w) (0 :: nat) =
      unat w mod 256 + 256 * (unat w div 256 mod 256 + 256 * (unat w div 65536 mod 256 + 256 * (unat w div 16777216 mod 256)))"
  proof -
    have "[0..<4] = [0, 1, 2, 3 :: nat]" by (simp add: upt_rec)
    then show ?thesis by (simp add: int_bytes_def)
  qed
  also have "\<dots> = unat w"
  proof -
    let ?n = "unat w"
    have "?n div 16777216 < 256" using lt by simp
    then have 3: "?n div 16777216 mod 256 = ?n div 65536 div 256" by (simp add: div_mult2_eq[symmetric])
    have 2: "?n div 65536 mod 256 + 256 * (?n div 65536 div 256) = ?n div 65536" by simp
    have 1: "?n div 256 mod 256 + 256 * (?n div 65536) = ?n div 256"
      using mod_mult_div_eq[of "?n div 256" 256] by (simp add: div_mult2_eq[symmetric])
    have 0: "?n mod 256 + 256 * (?n div 256) = ?n" by simp
    show ?thesis by (simp only: 3 2 1 0)
  qed
  finally show ?thesis by (simp add: bytes_int_def)
qed

lemma sint_word_of_int: "- (2 ^ 31) \<le> v \<Longrightarrow> v < 2 ^ 31 \<Longrightarrow> sint (word_of_int v :: 32 word) = v"
  by (simp add: signed_of_int signed_take_bit_int_eq_self)

section \<open>The size of a record\<close>

definition total_size :: "db_type list \<Rightarrow> nat" where
  "total_size tys = sum_list (map (\<lambda>ty. unat (type_size ty)) tys)"

lemma total_size_simps [simp]:
  "total_size [] = 0" "total_size (ty # tys) = unat (type_size ty) + total_size tys"
  by (simp_all add: total_size_def)

lemma record_size_mod: "unat (record_size tys) = total_size tys mod 256"
proof -
  have step: "unat (ucast (ucast (a :: 8 word) + ucast (b :: 16 word) :: 32 word) :: 8 word) = (unat a + unat b) mod 256" for a b
  proof -
    have "unat a < 256" "unat b < 65536" using unsigned_less[of a] unsigned_less[of b] by simp_all
    then show ?thesis by (simp add: unat_word_ariths unsigned_ucast_eq take_bit_eq_mod)
  qed
  have "unat (foldl (\<lambda>sum ty. ucast (ucast sum + ucast (type_size ty) :: 32 word)) (a :: 8 word) tys) =
      (unat a + total_size tys) mod 256" for a
  proof (induction tys arbitrary: a)
    case Nil
    then show ?case using unsigned_less[of a, where 'a = nat] by simp
  next
    case (Cons ty tys)
    then show ?case by (simp add: step mod_add_right_eq algebra_simps)
  qed
  from this[of 0] show ?thesis by (simp add: record_size_def)
qed

section \<open>Fields\<close>

text \<open>The types the constructor without a size makes, and strings of any size.\<close>

definition type_ok :: "db_type \<Rightarrow> bool" where
  "type_ok ty \<longleftrightarrow> (case type_kind ty of BOOL_t \<Rightarrow> type_size ty = 1 | INT_t \<Rightarrow> type_size ty = 4
     | FLOAT_t \<Rightarrow> type_size ty = 4 | VARCHAR_t \<Rightarrow> True)"

lemma mk_type_ok: "mk_type k = Inr ty \<Longrightarrow> type_ok ty"
  by (cases k) (auto simp: type_ok_def)

text \<open>A \<open>float\<close> has four bytes.\<close>

definition float_ok :: "float_conv \<Rightarrow> bool" where
  "float_ok fc \<longleftrightarrow> (\<forall>s b. fl_parse fc s = Inr b \<longrightarrow> length b = 4)"

definition castable :: "float_conv \<Rightarrow> db_type \<Rightarrow> string \<Rightarrow> bool" where
  "castable fc ty s \<longleftrightarrow> (case type_kind ty of INT_t \<Rightarrow> \<exists>v. stoi s = Inr v | FLOAT_t \<Rightarrow> \<exists>b. fl_parse fc s = Inr b
     | _ \<Rightarrow> True)"

text \<open>How a field comes back from the file.\<close>

definition stored_as :: "float_conv \<Rightarrow> db_type \<Rightarrow> string \<Rightarrow> string \<Rightarrow> bool" where
  "stored_as fc ty s t \<longleftrightarrow>
     (case type_kind ty of
        BOOL_t \<Rightarrow> t = (if stob s then ''true'' else ''false'')
      | INT_t \<Rightarrow> \<exists>v. stoi s = Inr v \<and> t = int_string v
      | FLOAT_t \<Rightarrow> \<exists>b. fl_parse fc s = Inr b \<and> t = fl_print fc b
      | VARCHAR_t \<Rightarrow> t = take (unat (type_size ty)) s @ replicate (unat (type_size ty) - length s) CHR '' '')"

lemma field_bytes_length: "field_bytes fc ty s = Inr bs \<Longrightarrow> length bs = unat (type_size ty)"
  by (auto simp: field_bytes_def Let_def copy_from_def bind_io_eq_Inr split: types.splits if_splits)

lemma field_bytes_castable:
  "type_ok ty \<Longrightarrow> float_ok fc \<Longrightarrow> (\<exists>bs. field_bytes fc ty s = Inr bs) \<longleftrightarrow> castable fc ty s"
proof -
  assume ok: "type_ok ty" and fl: "float_ok fc"
  have "\<exists>bs. copy_from 4 b = Inr bs" if "fl_parse fc s = Inr b" for b
    using fl that by (auto simp: float_ok_def copy_from_def)
  then show ?thesis using ok
    by (auto simp: field_bytes_def castable_def type_ok_def Let_def bind_io_eq_Inr split: types.splits)
      (auto simp: copy_from_def)
qed

lemma field_bytes_cast: "field_bytes fc ty s = Inr bs \<Longrightarrow> castable fc ty s"
  by (auto simp: field_bytes_def castable_def Let_def bind_io_eq_Inr split: types.splits)

lemma field_roundtrip:
  assumes "type_ok ty" "float_ok fc" "field_bytes fc ty s = Inr bs"
  shows "\<exists>t. bytes_field fc ty bs = Inr t \<and> stored_as fc ty s t"
proof (cases "type_kind ty")
  case INT_t
  then obtain v where v: "stoi s = Inr v" "bs = int_bytes (word_of_int v)"
    using assms by (auto simp: field_bytes_def Let_def copy_from_def bind_io_eq_Inr type_ok_def)
  then have "sint (bytes_int bs) = v" using stoi_range[OF v(1)] by (simp add: bytes_int_bytes sint_word_of_int)
  then show ?thesis using INT_t v by (simp add: bytes_field_def stored_as_def)
next
  case BOOL_t
  have c: "char_of (0 :: nat) = CHR 0x00" "char_of (1 :: nat) = CHR 0x01" by code_simp+
  from BOOL_t show ?thesis using assms c
    by (cases "stob s") (auto simp: field_bytes_def copy_from_def type_ok_def bytes_field_def stored_as_def)
next
  case FLOAT_t
  then show ?thesis using assms
    by (auto simp: field_bytes_def copy_from_def type_ok_def bytes_field_def stored_as_def float_ok_def bind_io_eq_Inr)
next
  case VARCHAR_t
  then show ?thesis using assms
    by (auto simp: field_bytes_def bytes_field_def stored_as_def Let_def)
qed

text \<open>What was read is written as the same bytes.\<close>

lemma field_stable:
  assumes "type_kind ty \<noteq> FLOAT_t" "stored_as fc ty s t"
  shows "field_bytes fc ty t = field_bytes fc ty s"
proof (cases "type_kind ty")
  case INT_t
  with assms obtain v where v: "stoi s = Inr v" "t = int_string v" by (auto simp: stored_as_def)
  then have "stoi t = Inr v" using stoi_range[OF v(1)] stoi_int_string by simp
  with INT_t v show ?thesis by (simp add: field_bytes_def)
next
  case BOOL_t
  have "stob ''true''" "\<not> stob ''false''" by code_simp+
  with BOOL_t assms show ?thesis by (simp add: field_bytes_def stored_as_def)
next
  case VARCHAR_t
  have "n - min (length s) n - (n - length s) = 0" for n by simp
  with VARCHAR_t assms show ?thesis
    by (cases "length s \<le> unat (type_size ty)") (auto simp: field_bytes_def stored_as_def Let_def)
qed (use assms in simp)

section \<open>Records\<close>

lemma write_fields_bytes:
  "write_fields fc r B i tys buf = Inr out \<Longrightarrow>
     length out = length buf + total_size tys \<and> (tys \<noteq> [] \<longrightarrow> int (length out) \<le> B)"
proof (induction tys arbitrary: i buf)
  case (Cons ty tys)
  then obtain s bs where s: "field_at r i = Inr s" "field_bytes fc ty s = Inr bs"
    "write_fields fc r B (Suc i) tys (buf @ bs) = Inr out" "int (length buf) + uint (type_size ty) \<le> B"
    by (auto simp: bind_io_eq_Inr split: if_splits)
  then show ?case using Cons.IH[OF s(3)] field_bytes_length[OF s(2)] by (cases tys) auto
qed simp

lemma write_fields_read:
  assumes "float_ok fc" "\<forall>ty\<in>set tys. type_ok ty" "write_fields fc r B i tys buf = Inr (buf @ out)"
  shows "\<exists>ss. read_fields fc tys out = Inr ss \<and> length ss = length tys \<and>
     (\<forall>j<length tys. stored_as fc (tys ! j) (m_fields r ! (i + j)) (ss ! j))"
  using assms(2,3)
proof (induction tys arbitrary: i buf out)
  case (Cons ty tys)
  then obtain s bs where s: "field_at r i = Inr s" "field_bytes fc ty s = Inr bs"
    "write_fields fc r B (Suc i) tys (buf @ bs) = Inr (buf @ out)"
    by (auto simp: bind_io_eq_Inr split: if_splits)
  have "\<exists>out'. buf @ out = (buf @ bs) @ out'"
    using s(3)
  proof (induction tys arbitrary: i bs)
    case (Cons ty' tys)
    then show ?case by (fastforce simp: bind_io_eq_Inr split: if_splits)
  qed auto
  then obtain out' where out: "out = bs @ out'" by auto
  obtain ss where ss: "read_fields fc tys out' = Inr ss" "length ss = length tys"
    "\<forall>j<length tys. stored_as fc (tys ! j) (m_fields r ! (Suc i + j)) (ss ! j)"
    using Cons.IH[of "Suc i" "buf @ bs" out'] Cons.prems s(3) out by auto
  obtain t where t: "bytes_field fc ty bs = Inr t" "stored_as fc ty s t"
    using field_roundtrip[OF _ assms(1) s(2)] Cons.prems by auto
  have "m_fields r ! i = s" using s(1) by (simp add: field_at_def split: if_splits)
  then have "\<forall>j<Suc (length tys). stored_as fc ((ty # tys) ! j) (m_fields r ! (i + j)) ((t # ss) ! j)"
    using ss(3) t(2) by (auto simp: less_Suc_eq_0_disj)
  moreover have "read_fields fc (ty # tys) out = Inr (t # ss)"
    using field_bytes_length[OF s(2)] t(1) ss(1) by (simp add: out Let_def)
  ultimately show ?case using ss(2) by (intro exI[of _ "t # ss"]) simp
qed simp

lemma write_fields_castable:
  assumes "float_ok fc" "\<forall>ty\<in>set tys. type_ok ty" "int (length buf + total_size tys) \<le> B"
    "i + length tys \<le> length (m_fields r)" "\<forall>j<length tys. castable fc (tys ! j) (m_fields r ! (i + j))"
  shows "\<exists>out. write_fields fc r B i tys buf = Inr out"
  using assms(2-5)
proof (induction tys arbitrary: i buf)
  case (Cons ty tys)
  have c: "castable fc ty (m_fields r ! i)" using Cons.prems(4)[rule_format, of 0] by simp
  then obtain bs where bs: "field_bytes fc ty (m_fields r ! i) = Inr bs"
    using field_bytes_castable[OF _ assms(1), of ty] Cons.prems(1) by auto
  have "\<forall>j<length tys. castable fc (tys ! j) (m_fields r ! (Suc i + j))"
    using Cons.prems(4) by (metis Suc_less_eq add_Suc_shift length_Cons nth_Cons_Suc)
  then have "\<exists>out. write_fields fc r B (Suc i) tys (buf @ bs) = Inr out"
    using Cons.prems(1-3) field_bytes_length[OF bs] by (intro Cons.IH) auto
  then show ?case using bs Cons.prems(2,3) by (auto simp: field_at_def)
qed simp

lemma write_fields_needs:
  "write_fields fc r B i tys buf = Inr out \<Longrightarrow>
     (tys \<noteq> [] \<longrightarrow> i + length tys \<le> length (m_fields r)) \<and> (\<forall>j<length tys. castable fc (tys ! j) (m_fields r ! (i + j)))"
proof (induction tys arbitrary: i buf)
  case (Cons ty tys)
  then obtain s bs where s: "field_at r i = Inr s" "field_bytes fc ty s = Inr bs"
    "write_fields fc r B (Suc i) tys (buf @ bs) = Inr out"
    by (auto simp: bind_io_eq_Inr split: if_splits)
  have i: "i < length (m_fields r)" "m_fields r ! i = s" using s(1) by (auto simp: field_at_def split: if_splits)
  from Cons.IH[OF s(3)] i field_bytes_cast[OF s(2)] show ?case
    by (cases tys) (auto simp: less_Suc_eq_0_disj)
qed simp

lemma record_write_length: "record_write fc tys r = Inr bs \<Longrightarrow> length bs = total_size tys \<and> total_size tys < 256"
proof -
  assume "record_write fc tys r = Inr bs"
  then have w: "write_fields fc r (uint (record_size tys)) 0 tys [] = Inr bs" "length bs = unat (record_size tys)"
    by (auto simp: record_write_def bind_io_eq_Inr split: if_splits)
  then show ?thesis using write_fields_bytes[OF w(1)] by (simp add: record_size_mod)
qed

lemma record_write_Inr:
  "(\<exists>bs. record_write fc tys r = Inr bs) \<longleftrightarrow>
     total_size tys < 256 \<and> (\<exists>bs. write_fields fc r (int (total_size tys)) 0 tys [] = Inr bs)"
proof
  assume "\<exists>bs. record_write fc tys r = Inr bs"
  then obtain bs where bs: "record_write fc tys r = Inr bs" ..
  then have lt: "total_size tys < 256" using record_write_length by blast
  then have "uint (record_size tys) = int (total_size tys)"
    using record_size_mod[of tys] by (simp add: uint_nat)
  then show "total_size tys < 256 \<and> (\<exists>bs. write_fields fc r (int (total_size tys)) 0 tys [] = Inr bs)"
    using bs lt by (auto simp: record_write_def bind_io_eq_Inr)
next
  assume a: "total_size tys < 256 \<and> (\<exists>bs. write_fields fc r (int (total_size tys)) 0 tys [] = Inr bs)"
  then have "uint (record_size tys) = int (total_size tys)" "unat (record_size tys) = total_size tys"
    using record_size_mod[of tys] by (simp_all add: uint_nat)
  then show "\<exists>bs. record_write fc tys r = Inr bs"
    using a write_fields_bytes[of fc r "int (total_size tys)" 0 tys "[]"] by (auto simp: record_write_def)
qed

text \<open>The same fields come back whatever follows and whatever record they are read into.\<close>

lemma record_roundtrip_fields:
  assumes "float_ok fc" "\<forall>ty\<in>set tys. type_ok ty" "record_write fc tys r = Inr bs"
  shows "\<exists>ss. length ss = length tys \<and> (\<forall>i<length tys. stored_as fc (tys ! i) (m_fields r ! i) (ss ! i)) \<and>
     (\<forall>rest r0. record_read fc tys (Some (bs @ rest)) r0 = Inr (Some rest, r0\<lparr>m_fields := ss\<rparr>))"
proof -
  have len: "length bs = unat (record_size tys)"
    using record_write_length[OF assms(3)] by (simp add: record_size_mod)
  have "write_fields fc r (uint (record_size tys)) 0 tys [] = Inr ([] @ bs)"
    using assms(3) by (auto simp: record_write_def bind_io_eq_Inr split: if_splits)
  from write_fields_read[OF assms(1,2) this] obtain ss where
    "read_fields fc tys bs = Inr ss" "length ss = length tys"
    "\<forall>i<length tys. stored_as fc (tys ! i) (m_fields r ! i) (ss ! i)" by auto
  then show ?thesis using len by (intro exI[of _ ss]) (simp add: record_read_def Let_def)
qed

section \<open>Properties\<close>

text \<open>
  \<open>stoi\<close> reads back what \<open>to_string\<close> prints, for every value of a 32-bit integer, and the four bytes a
  field is written as are read back as the same value.
\<close>

theorem int_field_roundtrip:
  assumes "- (2 ^ 31) \<le> v" "v < 2 ^ 31"
  shows "stoi (int_string v) = Inr v \<and> sint (bytes_int (int_bytes (word_of_int v))) = v"
  using stoi_int_string[OF assms] sint_word_of_int[OF assms] by (simp add: bytes_int_bytes)

lemma int_field_roundtrip_witness: "stoi (int_string (- 2147483648)) = Inr (- 2147483648)"
  using int_field_roundtrip[of "- 2147483648"] by simp

text \<open>
  C19: \<open>Record::write\<close> succeeds exactly when the fields of the record are at most 255 bytes together, it has a
  field for every type and each one is the text of a value of its type.
\<close>

theorem record_write_succeeds:
  assumes "float_ok fc" "\<forall>ty\<in>set tys. type_ok ty"
  shows "(\<exists>bs. record_write fc tys r = Inr bs) \<longleftrightarrow>
     total_size tys < 256 \<and> (tys = [] \<or> length tys \<le> length (m_fields r)) \<and>
     (\<forall>i<length tys. castable fc (tys ! i) (m_fields r ! i))"
proof
  assume "\<exists>bs. record_write fc tys r = Inr bs"
  then show "total_size tys < 256 \<and> (tys = [] \<or> length tys \<le> length (m_fields r)) \<and>
     (\<forall>i<length tys. castable fc (tys ! i) (m_fields r ! i))"
    unfolding record_write_Inr using write_fields_needs[of fc r _ 0 tys "[]"] by fastforce
next
  assume "total_size tys < 256 \<and> (tys = [] \<or> length tys \<le> length (m_fields r)) \<and>
     (\<forall>i<length tys. castable fc (tys ! i) (m_fields r ! i))"
  then show "\<exists>bs. record_write fc tys r = Inr bs"
    unfolding record_write_Inr
    using write_fields_castable[OF assms, of "[]" "int (total_size tys)" 0 r] by auto
qed

text \<open>A table with a number and a name, and float conversions on single bytes for the examples.\<close>

definition demo_types :: "db_type list" where
  "demo_types = [\<lparr>type_size = 4, type_kind = INT_t\<rparr>, \<lparr>type_size = 3, type_kind = VARCHAR_t\<rparr>,
     \<lparr>type_size = 1, type_kind = BOOL_t\<rparr>]"

definition demo_float :: float_conv where
  "demo_float = \<lparr>fl_parse = (\<lambda>s. Inr (take 4 (s @ ''0000''))), fl_print = (\<lambda>bs. bs)\<rparr>"

definition demo_record :: db_record where
  "demo_record = \<lparr>rec_status = OK, m_fields = ['' +42'', ''a'', ''Si'']\<rparr>"

lemma demo_types_ok: "float_ok demo_float" "\<forall>ty\<in>set demo_types. type_ok ty"
  by (auto simp: float_ok_def demo_float_def demo_types_def type_ok_def)

lemma record_write_succeeds_witness: "\<exists>bs. record_write demo_float demo_types demo_record = Inr bs"
proof -
  have "stoi '' +42'' = Inr 42" by code_simp
  then have "\<forall>i<length demo_types. castable demo_float (demo_types ! i) (m_fields demo_record ! i)"
    by (auto simp: demo_types_def demo_record_def castable_def less_Suc_eq_0_disj)
  then show ?thesis using record_write_succeeds[OF demo_types_ok, of demo_record]
    by (simp add: demo_types_def demo_record_def)
qed

text \<open>
  C18: What \<open>Record::write\<close> wrote \<open>Record::read\<close> reads back: the fields in canonical form (integers as
  \<open>to_string\<close> prints them, true or false, strings cut or padded with blanks to their size), and
  the stream stands behind the record.
\<close>

theorem record_roundtrip:
  assumes "float_ok fc" "\<forall>ty\<in>set tys. type_ok ty" "record_write fc tys r = Inr bs"
  shows "\<exists>ss. record_read fc tys (Some (bs @ rest)) r0 = Inr (Some rest, r0\<lparr>m_fields := ss\<rparr>) \<and>
     length ss = length tys \<and> (\<forall>i<length tys. stored_as fc (tys ! i) (m_fields r ! i) (ss ! i))"
  using record_roundtrip_fields[OF assms] by blast

lemma demo_record_written: "\<exists>bs. record_write demo_float demo_types demo_record = Inr bs"
proof -
  have "stoi '' +42'' = Inr 42" by code_simp
  then have "\<forall>i<length demo_types. castable demo_float (demo_types ! i) (m_fields demo_record ! (0 + i))"
    by (auto simp: demo_types_def demo_record_def castable_def less_Suc_eq_0_disj)
  then show ?thesis unfolding record_write_Inr
    using write_fields_castable[OF demo_types_ok, of "[]" 8 0 demo_record]
    by (simp add: demo_types_def demo_record_def del: write_fields.simps)
qed

lemma record_roundtrip_witness:
  "\<exists>bs ss. record_write demo_float demo_types demo_record = Inr bs \<and>
     record_read demo_float demo_types (Some (bs @ ''x'')) empty_record = Inr (Some ''x'', empty_record\<lparr>m_fields := ss\<rparr>) \<and>
     ss ! 0 = ''42'' \<and> ss ! 2 = ''true''"
proof -
  obtain bs where bs: "record_write demo_float demo_types demo_record = Inr bs" using demo_record_written by blast
  from record_roundtrip[OF demo_types_ok bs, of "''x''" empty_record] obtain ss where
    ss: "record_read demo_float demo_types (Some (bs @ ''x'')) empty_record = Inr (Some ''x'', empty_record\<lparr>m_fields := ss\<rparr>)"
    "\<forall>i<length demo_types. stored_as demo_float (demo_types ! i) (m_fields demo_record ! i) (ss ! i)" by blast
  have v: "stoi '' +42'' = Inr 42" "int_string 42 = ''42''" "stob ''Si''" by code_simp+
  have "ss ! 0 = ''42''" "ss ! 2 = ''true''"
    using ss(2)[rule_format, of 0] ss(2)[rule_format, of 2] v
    by (simp_all add: demo_types_def demo_record_def stored_as_def numeral_2_eq_2)
  with bs ss(1) show ?thesis by blast
qed

text \<open>
  A record with a table of more than 255 bytes per record is never written: the size of the buffer is
  computed modulo 256, and the check of the buffer (or an earlier conversion) throws.
\<close>

lemma record_write_too_long:
  assumes "256 \<le> total_size tys"
  shows "(\<exists>e. record_write fc tys r = Inl e) \<and> record_size tys = of_nat (total_size tys)"
proof -
  have "\<nexists>bs. record_write fc tys r = Inr bs" using record_write_length assms by fastforce
  moreover have "record_size tys = of_nat (unat (record_size tys))" by simp
  then have "record_size tys = of_nat (total_size tys mod 256)" by (simp only: record_size_mod)
  then have "record_size tys = of_nat (total_size tys)"
    using word_of_nat_eq_iff[of "total_size tys mod 256" "total_size tys", where 'a = 8] by (simp add: take_bit_eq_mod)
  ultimately show ?thesis by (cases "record_write fc tys r") auto
qed

lemma record_write_too_long_witness:
  "\<exists>e. record_write demo_float [\<lparr>type_size = 300, type_kind = VARCHAR_t\<rparr>] \<lparr>rec_status = OK, m_fields = [''a'']\<rparr> = Inl e"
  using record_write_too_long[of "[\<lparr>type_size = 300, type_kind = VARCHAR_t\<rparr>]"] by simp

text \<open>
  The form in which a record is read is stable: without \<open>float\<close> columns, writing the record that was read
  gives the same bytes again.
\<close>

lemma record_write_stable:
  assumes "\<forall>ty\<in>set tys. type_kind ty \<noteq> FLOAT_t" "length (m_fields r) = length tys" "length ss = length tys"
    "\<forall>i<length tys. stored_as fc (tys ! i) (m_fields r ! i) (ss ! i)"
  shows "record_write fc tys (r\<lparr>m_fields := ss\<rparr>) = record_write fc tys r"
proof -
  have same: "field_bytes fc (tys ! j) (ss ! j) = field_bytes fc (tys ! j) (m_fields r ! j)" if "j < length tys" for j
    using assms(1,4) that by (intro field_stable) auto
  have "write_fields fc (r\<lparr>m_fields := ss\<rparr>) B i ts buf = write_fields fc r B i ts buf"
    if "i + length ts \<le> length tys"
      "\<forall>j<length ts. field_bytes fc (ts ! j) (ss ! (i + j)) = field_bytes fc (ts ! j) (m_fields r ! (i + j))" for B i ts buf
    using that
  proof (induction ts arbitrary: i buf)
    case (Cons ty ts)
    have "field_bytes fc ty (ss ! i) = field_bytes fc ty (m_fields r ! i)"
      using Cons.prems(2)[rule_format, of 0] by simp
    moreover have "\<forall>j<length ts. field_bytes fc (ts ! j) (ss ! (Suc i + j)) = field_bytes fc (ts ! j) (m_fields r ! (Suc i + j))"
      using Cons.prems(2) by (metis Suc_less_eq add_Suc_shift length_Cons nth_Cons_Suc)
    ultimately show ?case using Cons.IH[of "Suc i"] Cons.prems(1) assms(2,3) by (simp add: field_at_def)
  qed simp
  from this[of 0 tys] same show ?thesis by (simp add: record_write_def)
qed

lemma record_write_stable_witness:
  "record_write demo_float demo_types \<lparr>rec_status = OK, m_fields = [''42'', ''a  '', ''true'']\<rparr> =
   record_write demo_float demo_types demo_record"
proof -
  have "stoi '' +42'' = Inr 42" "int_string 42 = ''42''" "stob ''Si''" "''a  '' = ''a'' @ replicate 2 CHR '' ''"
    by code_simp+
  then have "\<forall>i<length demo_types. stored_as demo_float (demo_types ! i) (m_fields demo_record ! i)
      ([''42'', ''a  '', ''true''] ! i)"
    by (auto simp: demo_types_def demo_record_def stored_as_def less_Suc_eq_0_disj)
  then show ?thesis
    using record_write_stable[of demo_types demo_record "[''42'', ''a  '', ''true'']" demo_float]
    by (simp add: demo_types_def demo_record_def)
qed

text \<open>
  \<open>RecordHash\<close> is a function of the concatenated fields: records that differ only in where the
  fields are cut have the same hash, although they are not equal.
\<close>

theorem record_hash_concat:
  assumes "concat (m_fields r) = concat (m_fields r')"
  shows "record_hash r = record_hash r'"
proof -
  have "foldl (\<lambda>h field. foldl f h field) a xs = foldl f a (concat xs)" for f :: "64 word \<Rightarrow> char \<Rightarrow> 64 word" and a xs
    by (induction xs arbitrary: a) simp_all
  then show ?thesis using assms by (simp add: record_hash_def)
qed

lemma record_hash_concat_witness:
  "record_hash \<lparr>rec_status = OK, m_fields = [''ab'', ''c'']\<rparr> = record_hash \<lparr>rec_status = OK, m_fields = [''a'', ''bc'']\<rparr>"
  by (rule record_hash_concat) simp

end
