(* ===== verification/HeapFile.thy ===== *)
theory HeapFile
  imports RecordTheorems
begin

text \<open>
  The heap file of a table (\<open>include/DBEngine/HeapFile.hpp\<close>, \<open>src/DBEngine/HeapFile.cpp\<close>).  The state is the
  object and the two files it owns; \<open>dir_there\<close> is whether the directory of the files exists, which \<open>clean_table\<close> of the
  engine removes behind the object.  No file can be opened then, and the end of the file is reported as -1.  An operation returns the state also when it throws, because
  an exception leaves the stream of the object open: \<open>stream\<close> is \<open>Some b\<close> then, with the bytes \<open>b\<close> that
  are still in its buffer.  Opening an open stream fails, so the operation that follows works on a
  failed stream: it reads and writes nothing, and its \<open>close\<close> ends this state.  The buffer is taken to be large enough
  for what an operation writes before it throws.
\<close>

record heap_file =
  c_record_size :: "8 word"
  m_table_name :: string
  m_table_path :: string
  attribute_names :: "string list"
  attribute_types :: "db_type list"
  primary_key :: string
  first_deleted :: int
  record_count :: "64 word"
  data_file :: "char list"
  metadata_size :: nat
  stream :: "char list option"
  dir_there :: bool

text \<open>Whether \<open>open\<close> of the stream of the object succeeds.\<close>

definition opens :: "heap_file \<Rightarrow> bool" where
  [simp]: "opens h \<longleftrightarrow> stream h = None \<and> dir_there h"

record query_response =
  qr_records :: "db_record list"
  query_times :: "(string \<times> nat) list"

abbreviation TABLES_PATH :: string where "TABLES_PATH \<equiv> ''DB_FILES/Tables/''"
abbreviation DEFAULT_DELETED :: int where "DEFAULT_DELETED \<equiv> - 1"

text \<open>\<open>sizeof(TableMetadata)\<close> on x86-64 with libstdc++; \<open>write_metadata\<close> writes the object's own bytes.\<close>

definition sizeof_metadata :: nat where "sizeof_metadata = 104"

definition write_metadata :: "heap_file \<Rightarrow> heap_file" where
  "write_metadata h = (if dir_there h then h\<lparr>metadata_size := sizeof_metadata\<rparr> else h)"

definition update_first_deleted :: "heap_file \<Rightarrow> int \<Rightarrow> heap_file" where
  "update_first_deleted h p = write_metadata (h\<lparr>first_deleted := p\<rparr>)"

text \<open>
  \<open>read_metadata\<close>: a file of another size is reported as corrupted or empty; one of the right size is
  read over the first four bytes of the object, which are a part of a pointer.
\<close>

definition read_metadata :: "heap_file \<Rightarrow> bool io" where
  "read_metadata h = (if metadata_size h \<noteq> sizeof_metadata then Inr False else Inl Uninitialised)"

text \<open>The constructors, for the bytes of the data file and the size of the metadata file on the disk.\<close>

definition heap_construct ::
  "string \<Rightarrow> db_type list \<Rightarrow> string list \<Rightarrow> string \<Rightarrow> char list \<Rightarrow> nat \<Rightarrow> heap_file io" where
  "heap_construct name tys names pk data meta =
     (let h = \<lparr>c_record_size = record_size tys, m_table_name = name, m_table_path = TABLES_PATH @ name @ ''/'',
                attribute_names = names, attribute_types = tys, primary_key = pk, first_deleted = 0,
                record_count = 0, data_file = data, metadata_size = meta, stream = None, dir_there = True\<rparr>
      in bind_io (read_metadata h) (\<lambda>found.
         Inr (if \<not> found then update_first_deleted h DEFAULT_DELETED else h)))"

definition heap_construct_path :: "string \<Rightarrow> string \<Rightarrow> char list \<Rightarrow> nat \<Rightarrow> heap_file io" where
  "heap_construct_path name path data meta =
     (let h = \<lparr>c_record_size = 0, m_table_name = name, m_table_path = path,
                attribute_names = [], attribute_types = [], primary_key = [], first_deleted = 0,
                record_count = 0, data_file = data, metadata_size = meta, stream = None, dir_there = True\<rparr>
      in bind_io (read_metadata h) (\<lambda>_. Inr h))"

section \<open>Reading and writing\<close>

definition heap_close :: "heap_file \<Rightarrow> heap_file" where
  "heap_close h = (case stream h of None \<Rightarrow> h | Some buf \<Rightarrow> h\<lparr>data_file := data_file h @ buf, stream := None\<rparr>)"

definition next_pos :: "heap_file \<Rightarrow> int" where
  "next_pos h = (if dir_there h then int (length (data_file h)) else - 1)"

definition get_record_size :: "heap_file \<Rightarrow> 8 word" where
  "get_record_size h = c_record_size h"

definition heap_add :: "float_conv \<Rightarrow> heap_file \<Rightarrow> db_record \<Rightarrow> heap_file \<times> int io" where
  "heap_add fc h r =
     (let initial_pos = next_pos h;
          counted = (\<lambda>h'. write_metadata (h'\<lparr>record_count := record_count h' + 1\<rparr>))
      in case record_write fc (attribute_types h) r of
           Inl e \<Rightarrow> (if opens h then h\<lparr>stream := Some []\<rparr> else h, Inl e)
         | Inr bs \<Rightarrow>
             (if opens h then (counted (h\<lparr>data_file := data_file h @ bs\<rparr>), Inr initial_pos)
              else (counted (heap_close h), Inr initial_pos)))"

text \<open>The records of a bulk insertion, one after another: the bytes written, and the exception if any.\<close>

fun write_all :: "float_conv \<Rightarrow> db_type list \<Rightarrow> db_record list \<Rightarrow> char list \<Rightarrow> char list \<times> io_error option" where
  "write_all fc tys [] buf = (buf, None)"
| "write_all fc tys (r # rs) buf =
     (case record_write fc tys r of Inl e \<Rightarrow> (buf, Some e) | Inr bs \<Rightarrow> write_all fc tys rs (buf @ bs))"

text \<open>\<open>bulk_insert\<close> opens the file without \<open>in\<close> or \<open>app\<close>, which truncates it.\<close>

definition heap_bulk_insert :: "float_conv \<Rightarrow> heap_file \<Rightarrow> db_record list \<Rightarrow> heap_file \<times> int list io" where
  "heap_bulk_insert fc h rs =
     (let h1 = (if opens h then h\<lparr>data_file := []\<rparr> else h);
          initial_pos = next_pos h1;
          positions = map (\<lambda>i. initial_pos + int i * uint (get_record_size h)) [0..<length rs];
          counted = (\<lambda>h'. write_metadata (h'\<lparr>record_count := record_count h' + of_nat (length rs)\<rparr>))
      in case write_all fc (attribute_types h) rs [] of
           (buf, Some e) \<Rightarrow> (if opens h then h1\<lparr>stream := Some buf\<rparr> else h1, Inl e)
         | (buf, None) \<Rightarrow>
             (if opens h then (counted (h1\<lparr>data_file := buf\<rparr>), Inr positions)
              else (counted (heap_close h1), Inr positions)))"

definition heap_read :: "float_conv \<Rightarrow> heap_file \<Rightarrow> int \<Rightarrow> heap_file \<times> db_record io" where
  "heap_read fc h pos =
     (let s = (if \<not> opens h \<or> pos < 0 then None else Some (drop (nat pos) (data_file h)))
      in (heap_close h,
          bind_io (record_read fc (attribute_types h) s empty_record) (\<lambda>(_, r). Inr r)))"

fun read_n :: "nat \<Rightarrow> float_conv \<Rightarrow> db_type list \<Rightarrow> char list option \<Rightarrow> db_record list io" where
  "read_n 0 fc tys s = Inr []"
| "read_n (Suc n) fc tys s =
     bind_io (record_read fc tys s empty_record) (\<lambda>(s', r).
     bind_io (read_n n fc tys s') (\<lambda>rs. Inr (r # rs)))"

definition heap_load :: "float_conv \<Rightarrow> heap_file \<Rightarrow> heap_file \<times> db_record list io" where
  "heap_load fc h =
     (heap_close h,
      read_n (unat (record_count h)) fc (attribute_types h) (if opens h then Some (data_file h) else None))"

text \<open>
  \<open>remove\<close> opens the file for writing only, which truncates it; a read of at least one byte fails then.
\<close>

definition heap_remove :: "float_conv \<Rightarrow> heap_file \<Rightarrow> int \<Rightarrow> heap_file \<times> bool io" where
  "heap_remove fc h pos =
     (let h1 = (if opens h then h\<lparr>data_file := []\<rparr> else h);
          s = (if opens h \<and> record_size (attribute_types h) = 0 then Some [] else None)
      in case record_read fc (attribute_types h) s empty_record of
           Inl e \<Rightarrow> (h1, Inl e)
         | Inr (s', r) \<Rightarrow>
             (case record_write fc (attribute_types h) (r\<lparr>rec_status := DELETED\<rparr>) of
                Inl e \<Rightarrow> (if opens h then h1\<lparr>stream := Some []\<rparr> else h1, Inl e)
              | Inr bs \<Rightarrow> (heap_close h1, Inr (s' \<noteq> None))))"

text \<open>
  The directory of the files is removed: what a stream that is still open writes goes to a file without a name.  Another table
  object that is constructed for the same name makes new files, which the first one then finds.
\<close>

definition heap_unlinked :: "heap_file \<Rightarrow> heap_file" where
  "heap_unlinked h = h\<lparr>data_file := [], metadata_size := 0, stream := map_option (\<lambda>_. []) (stream h), dir_there := False\<rparr>"

definition heap_renewed :: "heap_file \<Rightarrow> heap_file" where
  "heap_renewed h = h\<lparr>data_file := [], metadata_size := sizeof_metadata, dir_there := True\<rparr>"

section \<open>Metadata\<close>

fun find_idx :: "string list \<Rightarrow> string \<Rightarrow> nat \<Rightarrow> nat option" where
  "find_idx [] a n = None"
| "find_idx (x # xs) a n = (if x = a then Some n else find_idx xs a (Suc n))"

definition get_attribute_idx :: "heap_file \<Rightarrow> string \<Rightarrow> 8 word io" where
  "get_attribute_idx h a =
     (case find_idx (attribute_names h) a 0 of None \<Rightarrow> Inl RuntimeError | Some n \<Rightarrow> Inr (of_nat n))"

definition vector_at :: "'a list \<Rightarrow> 8 word \<Rightarrow> 'a io" where
  "vector_at xs i = (if unat i < length xs then Inr (xs ! unat i) else Inl OutOfRange)"

definition get_type :: "heap_file \<Rightarrow> string \<Rightarrow> db_type io" where
  "get_type h a = bind_io (get_attribute_idx h a) (vector_at (attribute_types h))"

definition get_type_attribute :: "heap_file \<Rightarrow> attribute \<Rightarrow> db_type io" where
  "get_type_attribute h a = get_type h (att_name a)"

definition get_key_idx :: "heap_file \<Rightarrow> 8 word io" where
  "get_key_idx h = get_attribute_idx h (primary_key h)"

definition get_key :: "heap_file \<Rightarrow> db_record \<Rightarrow> (db_type \<times> attribute) io" where
  "get_key h r =
     bind_io (get_attribute_idx h (primary_key h)) (\<lambda>i.
     bind_io (vector_at (attribute_types h) i) (\<lambda>ty.
     bind_io (vector_at (attribute_names h) i) (\<lambda>n.
     bind_io (vector_at (m_fields r) i) (\<lambda>v. Inr (ty, Attribute n v)))))"

definition get_key_name :: "heap_file \<Rightarrow> (db_type \<times> string) io" where
  "get_key_name h =
     bind_io (get_attribute_idx h (primary_key h)) (\<lambda>i.
     bind_io (vector_at (attribute_types h) i) (\<lambda>ty.
     bind_io (vector_at (attribute_names h) i) (\<lambda>n. Inr (ty, n))))"

definition get_types :: "heap_file \<Rightarrow> db_type list" where
  "get_types h = attribute_types h"

definition get_attribute_names :: "heap_file \<Rightarrow> string list" where
  "get_attribute_names h = attribute_names h"

definition rec_to_string :: "db_record \<Rightarrow> string" where
  "rec_to_string r = concat (m_fields r)"

text \<open>\<open>string_cast\<close>: the text of a value at the front of some bytes.\<close>

definition string_cast :: "float_conv \<Rightarrow> db_type \<Rightarrow> char list \<Rightarrow> string io" where
  "string_cast fc ty bs =
     (case type_kind ty of
        BOOL_t \<Rightarrow> bind_io (copy_from 1 bs) (\<lambda>b. Inr (if hd b = CHR 0x00 then ''false'' else ''true''))
      | INT_t \<Rightarrow> bind_io (copy_from 4 bs) (\<lambda>b. Inr (int_string (sint (bytes_int b))))
      | FLOAT_t \<Rightarrow> bind_io (copy_from 4 bs) (\<lambda>b. Inr (fl_print fc b))
      | VARCHAR_t \<Rightarrow> copy_from (unat (type_size ty)) bs)"

text \<open>\<open>to_string\<close> of the table.\<close>

definition heap_string :: "heap_file \<Rightarrow> string" where
  "heap_string h = ''Table name: '' @ m_table_name h @ [CHR 0x0A] @ ''Attribute names:'' @ [CHR 0x0A] @
     concat (map (\<lambda>(n, ty). n @ '' '' @ type_string ty @ '' '') (zip (attribute_names h) (attribute_types h))) @
     ''Primary key: '' @ primary_key h @ [CHR 0x0A]"

section \<open>Selecting attributes\<close>

text \<open>\<open>std::binary_search\<close> by \<open>std::lower_bound\<close>, as the library does it, also where the list is not sorted.\<close>

function lower_bound :: "8 word list \<Rightarrow> nat \<Rightarrow> nat \<Rightarrow> nat \<Rightarrow> nat" where
  "lower_bound xs v start len =
     (if len = 0 then start
      else if unat (xs ! (start + len div 2)) < v then lower_bound xs v (start + len div 2 + 1) (len - len div 2 - 1)
      else lower_bound xs v start (len div 2))"
  by pat_completeness auto
termination by (relation "measure (\<lambda>(xs, v, start, len). len)") auto

declare lower_bound.simps [simp del]

definition std_binary_search :: "8 word list \<Rightarrow> nat \<Rightarrow> bool" where
  "std_binary_search xs v =
     (let i = lower_bound xs v 0 (length xs) in i < length xs \<and> \<not> v < unat (xs ! i))"

text \<open>The loop that erases the other fields, from the last one down.\<close>

fun filter_loop :: "8 word list \<Rightarrow> nat \<Rightarrow> string list \<Rightarrow> string list" where
  "filter_loop idxs 0 fs = fs"
| "filter_loop idxs (Suc i) fs =
     filter_loop idxs i (if std_binary_search idxs i then fs else take i fs @ drop (Suc i) fs)"

fun attribute_idxs :: "heap_file \<Rightarrow> string list \<Rightarrow> 8 word list io" where
  "attribute_idxs h [] = Inr []"
| "attribute_idxs h (a # as) =
     bind_io (get_attribute_idx h a) (\<lambda>i. bind_io (attribute_idxs h as) (\<lambda>is. Inr (i # is)))"

definition filter_record :: "8 word list \<Rightarrow> db_record \<Rightarrow> db_record" where
  "filter_record idxs r = r\<lparr>m_fields := filter_loop idxs (length (m_fields r)) (m_fields r)\<rparr>"

definition heap_filter_one ::
  "heap_file \<Rightarrow> db_record \<Rightarrow> string list \<Rightarrow> (string \<times> nat) list \<Rightarrow> query_response io" where
  "heap_filter_one h r selected qtimes =
     bind_io (attribute_idxs h selected) (\<lambda>idxs.
     Inr \<lparr>qr_records = [filter_record idxs r], query_times = qtimes\<rparr>)"

definition heap_filter ::
  "heap_file \<Rightarrow> db_record list \<Rightarrow> string list \<Rightarrow> (string \<times> nat) list \<Rightarrow> query_response io" where
  "heap_filter h rs selected qtimes =
     bind_io (attribute_idxs h selected) (\<lambda>idxs.
     Inr \<lparr>qr_records = map (filter_record idxs) rs, query_times = qtimes\<rparr>)"

end
