(* ===== verification/DbTables.thy ===== *)
theory DbTables
  imports SeqContract AvlModel IsamOps HeapFile
begin

text \<open>
  The state of the database engine (\<open>include/DBEngine/DBEngine.hpp\<close>): its hash tables of tables and
  indexes, and the containers of the indexes (\<open>include/IndexManager/IndexContainer.hpp\<close>).  A
  \<open>std::unordered_map\<close> is the list of its elements in the order in which an iteration meets them;
  the order after an insertion is left to the library: \<open>rank\<close>, a parameter, gives each key its place.
\<close>

section \<open>Hash tables\<close>

text \<open>\<open>at\<close>, \<open>insert\<close> or \<open>emplace\<close>, assignment to an element in place, and \<open>erase\<close> of a key.\<close>

definition ht_at :: "('k \<times> 'v) list \<Rightarrow> 'k \<Rightarrow> 'v io" where
  "ht_at t k = (case map_of t k of None \<Rightarrow> Inl OutOfRange | Some v \<Rightarrow> Inr v)"

definition ht_contains :: "('k \<times> 'v) list \<Rightarrow> 'k \<Rightarrow> bool" where
  "ht_contains t k \<longleftrightarrow> map_of t k \<noteq> None"

definition ht_insert :: "('k list \<Rightarrow> 'k \<Rightarrow> nat) \<Rightarrow> 'k \<Rightarrow> 'v \<Rightarrow> ('k \<times> 'v) list \<Rightarrow> ('k \<times> 'v) list" where
  "ht_insert rank k v t =
     (if ht_contains t k then t else sort_key (\<lambda>(k', _). rank (k # map fst t) k') ((k, v) # t))"

definition ht_put :: "'k \<Rightarrow> 'v \<Rightarrow> ('k \<times> 'v) list \<Rightarrow> ('k \<times> 'v) list" where
  "ht_put k v t = map (\<lambda>(k', v'). (k', if k' = k then v else v')) t"

definition ht_erase :: "'k \<Rightarrow> ('k \<times> 'v) list \<Rightarrow> ('k \<times> 'v) list" where
  "ht_erase k t = filter (\<lambda>(k', _). k' \<noteq> k) t"

text \<open>The interface the engine uses them through: lookups, whatever the order of the elements.\<close>

locale hash_table =
  fixes lookup :: "'t \<Rightarrow> 'k \<Rightarrow> 'v option"
    and insert :: "'k \<Rightarrow> 'v \<Rightarrow> 't \<Rightarrow> 't"
    and put :: "'k \<Rightarrow> 'v \<Rightarrow> 't \<Rightarrow> 't"
    and erase :: "'k \<Rightarrow> 't \<Rightarrow> 't"
  assumes lookup_insert: "lookup (insert k v t) k' =
      (if k' = k \<and> lookup t k = None then Some v else lookup t k')"
    and lookup_put: "lookup (put k v t) k' = (if k' = k \<and> lookup t k \<noteq> None then Some v else lookup t k')"
    and lookup_erase: "lookup (erase k t) k' = (if k' = k then None else lookup t k')"
begin

lemma insert_kept: "lookup t k = Some v' \<Longrightarrow> lookup (insert k v t) = lookup t"
  by (simp add: fun_eq_iff lookup_insert)

lemma erase_insert: "lookup (insert k v (erase k t)) = (lookup t)(k \<mapsto> v)"
  by (simp add: fun_eq_iff lookup_insert lookup_erase)

lemma put_present: "lookup t k = Some v' \<Longrightarrow> lookup (put k v t) = (lookup t)(k \<mapsto> v)"
  by (simp add: fun_eq_iff lookup_put)

end

text \<open>Association lists in the order of the library are hash tables.\<close>

lemma map_of_filter_key: "map_of t k = map_of (filter (\<lambda>(k', _). k' = k) t) k"
  by (induction t) auto

lemma sort_key_const: "\<forall>x\<in>set xs. f x = c \<Longrightarrow> sort_key f xs = xs"
  by (induction xs) (auto simp: insort_is_Cons)

lemma map_of_sort_key: "map_of (sort_key (\<lambda>(k', _). r k') t) k = map_of t k"
proof -
  have "filter (\<lambda>(k', _). k' = k) (sort_key (\<lambda>(k', _). r k') t) = filter (\<lambda>(k', _). k' = k) t"
    unfolding filter_sort by (rule sort_key_const[of _ _ "r k"]) auto
  then show ?thesis by (metis map_of_filter_key)
qed

lemma map_of_ht_insert:
  "map_of (ht_insert rank k v t) k' = (if k' = k \<and> map_of t k = None then Some v else map_of t k')"
  by (auto simp: ht_insert_def ht_contains_def map_of_sort_key simp del: sort_key_simps)

lemma map_of_ht_put: "map_of (ht_put k v t) k' = (if k' = k \<and> map_of t k \<noteq> None then Some v else map_of t k')"
  by (induction t) (auto simp: ht_put_def)

lemma map_of_ht_erase: "map_of (ht_erase k t) k' = (if k' = k then None else map_of t k')"
  by (induction t) (auto simp: ht_erase_def)

interpretation ht: hash_table map_of "ht_insert rank" ht_put ht_erase for rank
  by unfold_locales (rule map_of_ht_insert map_of_ht_put map_of_ht_erase)+

section \<open>Containers of indexes\<close>

text \<open>
  \<open>std::variant<IndexType<int>, IndexType<float>, IndexType<std::string>>\<close>.  The keys of the second
  alternative are the values of floating point numbers, which are a parameter type; numbers that are not
  ordered are left out.  The engine never calls an operation of a container with a string, except a range
  search: \<open>key_cast_and_execute\<close> of a single string does nothing.  An index of strings stays empty, and
  the third alternative has no contents.
\<close>

datatype 'i seq_variant = SeqInt "int seq_index" | SeqFloat "'i seq_index" | SeqString

datatype 'i avl_variant = AvlInt "int avl_index" | AvlFloat "'i avl_index"

datatype 'i isam_variant = IsamInt "int isam" | IsamFloat "'i isam"

record 'i seq_container =
  sc_table :: string
  sc_attribute :: string
  sc_pk :: bool
  sc_idx :: "'i seq_variant"

text \<open>
  What the engine's model takes from outside: the conversions of \<open>float\<close>, the value of four bytes of one, the
  places of the keys in the hash tables, the effect of a header written over a record (one for
  each layout), \<open>std::sort\<close> on pairs and on records, the contents of fresh memory, and the time that is
  measured.
\<close>

record 'i engine_env =
  env_float :: float_conv
  env_key :: "char list \<Rightarrow> 'i"
  env_table_rank :: "string list \<Rightarrow> string \<Rightarrow> nat"
  env_index_rank :: "index_id list \<Rightarrow> index_id \<Rightarrow> nat"
  env_overlay_int :: "seq_header \<Rightarrow> int seq_record \<Rightarrow> int seq_record"
  env_overlay_float :: "seq_header \<Rightarrow> 'i seq_record \<Rightarrow> 'i seq_record"
  env_sort_int :: "(int \<times> physical_pos) list \<Rightarrow> (int \<times> physical_pos) list"
  env_sort_float :: "('i \<times> physical_pos) list \<Rightarrow> ('i \<times> physical_pos) list"
  env_isam_sort_int :: "int isam_record list \<Rightarrow> int isam_record list"
  env_isam_sort_float :: "'i isam_record list \<Rightarrow> 'i isam_record list"
  env_memory_int :: "int list \<times> int isam_record list"
  env_memory_float :: "'i list \<times> 'i isam_record list"
  env_clock :: nat

text \<open>The operations of the container of a sequential index: \<open>std::get\<close> of the alternative of the key's type.\<close>

definition container_search :: "('i :: linorder) engine_env \<Rightarrow> 'i seq_container \<Rightarrow> db_value \<Rightarrow> physical_pos list io" where
  "container_search env c v =
     (case (sc_idx c, v) of
        (SeqInt s, VInt k) \<Rightarrow> seq_search s k
      | (SeqFloat s, VFloat b) \<Rightarrow> seq_search s (env_key env b)
      | _ \<Rightarrow> Inl BadVariantAccess)"

definition container_range_search ::
  "('i :: linorder) engine_env \<Rightarrow> 'i seq_container \<Rightarrow> db_value \<Rightarrow> db_value \<Rightarrow> physical_pos list io" where
  "container_range_search env c lo hi =
     (case (sc_idx c, lo, hi) of
        (SeqInt s, VInt k, VInt k') \<Rightarrow> seq_range_search s k k'
      | (SeqFloat s, VFloat b, VFloat b') \<Rightarrow> seq_range_search s (env_key env b) (env_key env b')
      | (SeqString, VStr _, VStr _) \<Rightarrow> Inr []
      | _ \<Rightarrow> Inl BadVariantAccess)"

text \<open>\<open>add\<close> says whether the index recorded a position.\<close>

definition container_add ::
  "('i :: linorder) engine_env \<Rightarrow> 'i seq_container \<Rightarrow> db_value \<Rightarrow> physical_pos \<Rightarrow> ('i seq_container \<times> bool) io" where
  "container_add env c v pos =
     (case (sc_idx c, v) of
        (SeqInt s, VInt k) \<Rightarrow> bind_io (seq_add (env_overlay_int env) (sc_pk c) s k pos)
           (\<lambda>(s', records). Inr (c\<lparr>sc_idx := SeqInt s'\<rparr>, records \<noteq> []))
      | (SeqFloat s, VFloat b) \<Rightarrow> bind_io (seq_add (env_overlay_float env) (sc_pk c) s (env_key env b) pos)
           (\<lambda>(s', records). Inr (c\<lparr>sc_idx := SeqFloat s'\<rparr>, records \<noteq> []))
      | _ \<Rightarrow> Inl BadVariantAccess)"

text \<open>
  \<open>remove\<close> answers with the first position the index returned; \<open>records.at(0)\<close> throws when there is none, after
  the index was changed.
\<close>

definition container_remove ::
  "('i :: linorder) engine_env \<Rightarrow> 'i seq_container \<Rightarrow> db_value \<Rightarrow> 'i seq_container \<times> physical_pos io" where
  "container_remove env c v =
     (case (sc_idx c, v) of
           (SeqInt s, VInt k) \<Rightarrow>
             (case seq_remove s k of
                Inl e \<Rightarrow> (c, Inl e)
              | Inr (s', records) \<Rightarrow> (c\<lparr>sc_idx := SeqInt s'\<rparr>, case records of [] \<Rightarrow> Inl OutOfRange | p # _ \<Rightarrow> Inr p))
         | (SeqFloat s, VFloat b) \<Rightarrow>
             (case seq_remove s (env_key env b) of
                Inl e \<Rightarrow> (c, Inl e)
              | Inr (s', records) \<Rightarrow> (c\<lparr>sc_idx := SeqFloat s'\<rparr>, case records of [] \<Rightarrow> Inl OutOfRange | p # _ \<Rightarrow> Inr p))
         | _ \<Rightarrow> (c, Inl BadVariantAccess))"

end
