(* ===== verification/DbEngine.thy ===== *)
theory DbEngine
  imports DbTables
begin

text \<open>
  The database engine (\<open>include/DBEngine/DBEngine.hpp\<close>, \<open>src/DBEngine/DBEngine.cpp\<close>): one definition per
  member function.  The state is the object, the directories of the tables on the disk and the static variable
  of \<open>create_index\<close>; a function that can throw returns the state with the exception.  Every
  object of the engine owns its files: the engine starts without index files, and table names are single
  components of a path.
\<close>

section \<open>The state\<close>

datatype comp = EQUAL | GE | LE | G | L

datatype index_kind = AVL | SEQUENTIAL | ISAM

record 'i engine =
  table_dirs :: "string list"
  tables_raw :: "(string \<times> heap_file) list"
  avl_indexes :: "(index_id \<times> 'i avl_variant) list"
  isam_indexes :: "(index_id \<times> 'i isam_variant) list"
  sequential_indexes :: "(index_id \<times> 'i seq_container) list"
  index_map :: "(string \<times> index_kind list) list"
  isam_meta_file :: "isam_metadata option"
  prev_pos :: "int option"

definition hash_pair :: "(string \<Rightarrow> 64 word) \<Rightarrow> index_id \<Rightarrow> 64 word" where
  "hash_pair h i =
     (let hash1 = h (idx_table i); hash2 = h (idx_attribute i) in if hash1 \<noteq> hash2 then xor hash1 hash2 else hash1)"

text \<open>
  The constructor reads the directories on the disk, each with the bytes of its data file and the size of its metadata
  file, into objects that it does not keep.
\<close>

fun read_tables :: "(string \<times> char list \<times> nat) list \<Rightarrow> unit io" where
  "read_tables [] = Inr ()"
| "read_tables ((name, bytes, meta) # dirs) =
     bind_io (heap_construct_path name (TABLES_PATH @ name) bytes meta) (\<lambda>_. read_tables dirs)"

definition engine_construct :: "(string \<times> char list \<times> nat) list \<Rightarrow> 'i engine io" where
  "engine_construct dirs =
     bind_io (read_tables dirs) (\<lambda>_.
     Inr \<lparr>table_dirs = map fst dirs, tables_raw = [], avl_indexes = [], isam_indexes = [], sequential_indexes = [],
          index_map = [], isam_meta_file = None, prev_pos = None\<rparr>)"

definition engine_put :: "string \<Rightarrow> heap_file \<Rightarrow> 'i engine \<Rightarrow> 'i engine" where
  "engine_put name h e = e\<lparr>tables_raw := ht_put name h (tables_raw e)\<rparr>"

section \<open>Tables\<close>

definition table_exists :: "'i engine \<Rightarrow> string \<Rightarrow> bool" where
  "table_exists e name \<longleftrightarrow> name = [] \<or> name \<in> set (table_dirs e)"

text \<open>The index of the primary key; a key of type \<open>BOOL\<close> has none.\<close>

definition insert_pk_index :: "'i engine_env \<Rightarrow> string \<Rightarrow> string \<Rightarrow> types \<Rightarrow> 'i engine \<Rightarrow> 'i engine" where
  "insert_pk_index env name pk k e =
     (let ins = (\<lambda>idx. e\<lparr>sequential_indexes := ht_insert (env_index_rank env) (IndexId name pk)
            \<lparr>sc_table = name, sc_attribute = pk, sc_pk = True, sc_idx = idx\<rparr> (sequential_indexes e)\<rparr>)
      in case k of
           INT_t \<Rightarrow> ins (SeqInt createFile)
         | FLOAT_t \<Rightarrow> ins (SeqFloat createFile)
         | VARCHAR_t \<Rightarrow> ins SeqString
         | BOOL_t \<Rightarrow> e)"

text \<open>
  The new table object makes the files of the table.  An object that is in \<open>m_tables_raw\<close> under the name already (\<open>clean_table\<close>
  leaves it there) stays, and finds the new files.
\<close>

definition renew_table :: "string \<Rightarrow> 'i engine \<Rightarrow> 'i engine" where
  "renew_table name e = e\<lparr>tables_raw := map (\<lambda>(n, h). (n, if n = name then heap_renewed h else h)) (tables_raw e)\<rparr>"

definition create_table ::
  "'i engine_env \<Rightarrow> 'i engine \<Rightarrow> string \<Rightarrow> string \<Rightarrow> db_type list \<Rightarrow> string list \<Rightarrow> 'i engine \<times> bool io" where
  "create_table env e name pk tys names =
     (if table_exists e name then (e, Inr False)
      else let e1 = renew_table name (e\<lparr>table_dirs := name # table_dirs e\<rparr>) in
        case heap_construct name tys names pk [] 0 of
          Inl err \<Rightarrow> (e1, Inl err)
        | Inr h \<Rightarrow>
            (let e2 = e1\<lparr>tables_raw := ht_insert (env_table_rank env) name h (tables_raw e1)\<rparr>
             in case bind_io (ht_at (tables_raw e2) name) (\<lambda>h'. get_type h' pk) of
                  Inl err \<Rightarrow> (e2, Inl err)
                | Inr ty \<Rightarrow> (insert_pk_index env name pk (type_kind ty) e2, Inr True)))"

definition get_table_names :: "'i engine \<Rightarrow> string list" where
  "get_table_names e = map fst (tables_raw e)"

definition is_table :: "'i engine \<Rightarrow> string \<Rightarrow> bool" where
  "is_table e name = ht_contains (tables_raw e) name"

definition get_table_attributes :: "'i engine \<Rightarrow> string \<Rightarrow> string list io" where
  "get_table_attributes e name = bind_io (ht_at (tables_raw e) name) (\<lambda>h. Inr (get_attribute_names h))"

definition get_indexes :: "'i engine \<Rightarrow> string \<Rightarrow> index_kind list io" where
  "get_indexes e name = ht_at (index_map e) name"

definition get_indexes_names :: "'i engine \<Rightarrow> string \<Rightarrow> string list" where
  "get_indexes_names e name =
     (let of_table = (\<lambda>is. map idx_attribute (filter (\<lambda>i. idx_table i = name) is))
      in of_table (map fst (avl_indexes e)) @ of_table (map fst (isam_indexes e)) @
         of_table (map fst (sequential_indexes e)))"

text \<open>\<open>clean_table\<close> removes the directory of a table behind its object.\<close>

definition clean_table :: "'i engine \<Rightarrow> string \<Rightarrow> 'i engine" where
  "clean_table e name =
     e\<lparr>table_dirs := filter (\<lambda>d. d \<noteq> name) (table_dirs e),
       tables_raw := map (\<lambda>(n, h). (n, if n = name then heap_unlinked h else h)) (tables_raw e)\<rparr>"

text \<open>
  \<open>drop_table\<close>.  The first loop erases the element it stands on and goes on from it: that is use of freed
  memory.  The other two loops erase from \<open>m_avl_indexes\<close> as well.
\<close>

definition drop_table :: "'i engine \<Rightarrow> string \<Rightarrow> 'i engine \<times> unit io" where
  "drop_table e name =
     (let of_table = (\<lambda>is. filter (\<lambda>i. idx_table i = name) is);
          e1 = e\<lparr>table_dirs := filter (\<lambda>d. d \<noteq> name) (table_dirs e), tables_raw := ht_erase name (tables_raw e)\<rparr>
      in if of_table (map fst (avl_indexes e1)) \<noteq> [] then (e1, Inl Uninitialised)
         else (e1\<lparr>avl_indexes := fold ht_erase (of_table (map fst (isam_indexes e1)) @
                    of_table (map fst (sequential_indexes e1))) (avl_indexes e1)\<rparr>, Inr ()))"

section \<open>Queries\<close>

text \<open>The rows at some positions, of which \<open>expr\<close> selects.\<close>

fun read_positions ::
  "float_conv \<Rightarrow> heap_file \<Rightarrow> (db_record \<Rightarrow> bool) \<Rightarrow> physical_pos list \<Rightarrow> heap_file \<times> db_record list io" where
  "read_positions fc h expr [] = (h, Inr [])"
| "read_positions fc h expr (p # ps) =
     (case heap_read fc h p of
        (h1, Inl e) \<Rightarrow> (h1, Inl e)
      | (h1, Inr r) \<Rightarrow>
          (case read_positions fc h1 expr ps of
             (h2, Inl e) \<Rightarrow> (h2, Inl e)
           | (h2, Inr rs) \<Rightarrow> (h2, Inr (if expr r then r # rs else rs))))"

definition answer ::
  "'i engine_env \<Rightarrow> 'i engine \<Rightarrow> string \<Rightarrow> heap_file \<Rightarrow> physical_pos list \<Rightarrow> (db_record \<Rightarrow> bool) \<Rightarrow> string list \<Rightarrow>
     (string \<times> nat) list \<Rightarrow> 'i engine \<times> query_response io" where
  "answer env e name h ps expr selected qtimes =
     (case read_positions (env_float env) h expr ps of
        (h1, Inl err) \<Rightarrow> (engine_put name h1 e, Inl err)
      | (h1, Inr rows) \<Rightarrow> (engine_put name h1 e, heap_filter h1 rows selected qtimes))"

text \<open>\<open>search\<close>: the first index that has the name of the attribute, whatever its table, answers.\<close>

definition engine_search ::
  "('i :: linorder) engine_env \<Rightarrow> 'i engine \<Rightarrow> string \<Rightarrow> attribute \<Rightarrow> (db_record \<Rightarrow> bool) \<Rightarrow> string list \<Rightarrow>
     'i engine \<times> query_response io" where
  "engine_search env e name key expr selected =
     (case bind_io (ht_at (tables_raw e) name) (\<lambda>h.
           bind_io (get_type_attribute h key) (\<lambda>ty.
           bind_io (key_cast_value (env_float env) (type_kind ty) (att_value key)) (\<lambda>v.
           case (v, find (\<lambda>(_, c). sc_attribute c = att_name key) (sequential_indexes e)) of
             (Some v, Some (_, c)) \<Rightarrow>
               bind_io (container_search env c v) (\<lambda>ps. Inr (h, ps, [(''SEQUENTIAL_SINGLE_SEARCH'', env_clock env)]))
           | _ \<Rightarrow> Inr (h, [], [])))) of
        Inl err \<Rightarrow> (e, Inl err)
      | Inr (h, ps, qtimes) \<Rightarrow> answer env e name h ps expr selected qtimes)"

definition engine_load :: "'i engine_env \<Rightarrow> 'i engine \<Rightarrow> string \<Rightarrow> string list \<Rightarrow> 'i engine \<times> query_response io" where
  "engine_load env e name selected =
     (case ht_at (tables_raw e) name of
        Inl err \<Rightarrow> (e, Inl err)
      | Inr h \<Rightarrow>
          (case heap_load (env_float env) h of
             (h1, Inl err) \<Rightarrow> (engine_put name h1 e, Inl err)
           | (h1, Inr rows) \<Rightarrow> (engine_put name h1 e, heap_filter h1 rows selected [(''LOAD'', env_clock env)])))"

text \<open>\<open>load\<close> with a condition: the condition sees the selected fields only, and the selection is applied twice.\<close>

definition engine_load_expr ::
  "'i engine_env \<Rightarrow> 'i engine \<Rightarrow> string \<Rightarrow> string list \<Rightarrow> (db_record \<Rightarrow> bool) \<Rightarrow> 'i engine \<times> query_response io" where
  "engine_load_expr env e name selected expr =
     (case engine_load env e name selected of
        (e1, Inl err) \<Rightarrow> (e1, Inl err)
      | (e1, Inr resp) \<Rightarrow>
          (e1, bind_io (ht_at (tables_raw e1) name) (\<lambda>h.
               heap_filter h (filter expr (qr_records resp)) selected (query_times resp))))"

definition KEY_MIN :: attribute where "KEY_MIN = Attribute ''MIN'' ''MIN''"
definition KEY_MAX :: attribute where "KEY_MAX = Attribute ''MAX'' ''MAX''"

text \<open>All the indexes of an attribute are asked, and the last answer stays.\<close>

fun range_positions ::
  "('i :: linorder) engine_env \<Rightarrow> (index_id \<times> 'i seq_container) list \<Rightarrow> string \<Rightarrow> db_value \<Rightarrow> db_value \<Rightarrow>
     physical_pos list \<times> (string \<times> nat) list \<Rightarrow> (physical_pos list \<times> (string \<times> nat) list) io" where
  "range_positions env [] a lo hi r = Inr r"
| "range_positions env ((_, c) # cs) a lo hi r =
     (if sc_attribute c = a then
        bind_io (container_range_search env c lo hi) (\<lambda>ps.
        range_positions env cs a lo hi (ps, [(''SEQUENTIAL_RANGE_SEARCH'', env_clock env)]))
      else range_positions env cs a lo hi r)"

text \<open>
  \<open>range_search\<close>.  Without bounds the table is loaded, but the answer is not used and the function goes on with the
  attribute \<open>MAX\<close>.
\<close>

definition range_limits :: "attribute \<Rightarrow> attribute \<Rightarrow> attribute \<times> attribute" where
  "range_limits b e =
     (let b1 = (if b = KEY_MIN then Attribute (att_name e) (int_string (- (2 ^ 31))) else b);
          e1 = (if e = KEY_MAX then Attribute (att_name b1) (int_string (2 ^ 31 - 1)) else e)
      in (b1, e1))"

definition engine_range_search ::
  "('i :: linorder) engine_env \<Rightarrow> 'i engine \<Rightarrow> string \<Rightarrow> attribute \<Rightarrow> attribute \<Rightarrow> (db_record \<Rightarrow> bool) \<Rightarrow> string list \<Rightarrow>
     'i engine \<times> query_response io" where
  "engine_range_search env e name begin_key end_key expr selected =
     (let (e1, loaded) =
            (if begin_key = KEY_MIN \<and> end_key = KEY_MAX
             then (case engine_load env e name selected of (e', r) \<Rightarrow> (e', bind_io r (\<lambda>_. Inr ())))
             else (e, Inr ()));
          (b1, l1) = range_limits begin_key end_key
      in case bind_io loaded (\<lambda>_.
              bind_io (if att_name begin_key \<noteq> att_name end_key \<and> end_key \<notin> {KEY_MIN, KEY_MAX} \<and>
                         begin_key \<notin> {KEY_MIN, KEY_MAX} then Inl RuntimeError else Inr ()) (\<lambda>_.
              bind_io (ht_at (tables_raw e1) name) (\<lambda>h.
              bind_io (get_type_attribute h b1) (\<lambda>ty.
              bind_io (key_cast_values (env_float env) (type_kind ty) (att_value b1) (att_value l1)) (\<lambda>vs.
              bind_io (case vs of None \<Rightarrow> Inr ([], [])
                 | Some (lo, hi) \<Rightarrow> range_positions env (sequential_indexes e1) (att_name b1) lo hi ([], [])) (\<lambda>r.
              Inr (h, r))))))) of
           Inl err \<Rightarrow> (e1, Inl err)
         | Inr (h, ps, qtimes) \<Rightarrow> answer env e1 name h ps expr selected qtimes)"

section \<open>Changing records\<close>

text \<open>The loop over the indexes: the one of the primary key gets the key and the position.\<close>

fun add_loop ::
  "('i :: linorder) engine_env \<Rightarrow> index_id \<Rightarrow> types \<Rightarrow> string \<Rightarrow> physical_pos \<Rightarrow> (index_id \<times> 'i seq_container) list \<Rightarrow>
     bool \<Rightarrow> (index_id \<times> 'i seq_container) list \<times> bool io" where
  "add_loop env i k v pos [] inserted = ([], Inr inserted)"
| "add_loop env i k v pos ((j, c) # cs) inserted =
     (case (if j = i then bind_io (key_cast_value (env_float env) k v) (\<lambda>key.
                 case key of None \<Rightarrow> Inr (c, inserted) | Some key \<Rightarrow> container_add env c key pos)
            else Inr (c, inserted)) of
        Inl e \<Rightarrow> ((j, c) # cs, Inl e)
      | Inr (c', inserted') \<Rightarrow>
          (case add_loop env i k v pos cs inserted' of (cs', r) \<Rightarrow> ((j, c') # cs', r)))"

definition engine_add :: "('i :: linorder) engine_env \<Rightarrow> 'i engine \<Rightarrow> string \<Rightarrow> string list \<Rightarrow> 'i engine \<times> bool io" where
  "engine_add env e name value =
     (let rec = \<lparr>rec_status = OK, m_fields = value\<rparr> in
      case bind_io (ht_at (tables_raw e) name) (\<lambda>h. bind_io (get_key h rec) (\<lambda>(ty, key). Inr (h, ty, key))) of
        Inl err \<Rightarrow> (e, Inl err)
      | Inr (h, ty, key) \<Rightarrow>
          (case add_loop env (IndexId name (att_name key)) (type_kind ty) (att_value key) (next_pos h)
                  (sequential_indexes e) False of
             (idxs, Inl err) \<Rightarrow> (e\<lparr>sequential_indexes := idxs\<rparr>, Inl err)
           | (idxs, Inr False) \<Rightarrow> (e\<lparr>sequential_indexes := idxs\<rparr>, Inl RuntimeError)
           | (idxs, Inr True) \<Rightarrow>
               (case heap_add (env_float env) h rec of
                  (h1, r) \<Rightarrow> (engine_put name h1 (e\<lparr>sequential_indexes := idxs\<rparr>), bind_io r (\<lambda>_. Inr True)))))"

text \<open>
  \<open>remove\<close>: every index of the table, whatever its attribute, removes the key; the last position stays, and
  without an index it is 0.
\<close>

fun remove_loop ::
  "('i :: linorder) engine_env \<Rightarrow> string \<Rightarrow> heap_file io \<Rightarrow> attribute \<Rightarrow> (index_id \<times> 'i seq_container) list \<Rightarrow> physical_pos \<Rightarrow>
     (index_id \<times> 'i seq_container) list \<times> physical_pos io" where
  "remove_loop env name table key [] raw = ([], Inr raw)"
| "remove_loop env name table key ((i, c) # cs) raw =
     (if idx_table i = name then
        (case bind_io table (\<lambda>h. bind_io (get_type_attribute h key) (\<lambda>ty.
              key_cast_value (env_float env) (type_kind ty) (att_value key))) of
           Inl err \<Rightarrow> ((i, c) # cs, Inl err)
         | Inr None \<Rightarrow> (case remove_loop env name table key cs raw of (cs', r) \<Rightarrow> ((i, c) # cs', r))
         | Inr (Some v) \<Rightarrow>
             (case container_remove env c v of
                (c', Inl err) \<Rightarrow> ((i, c') # cs, Inl err)
              | (c', Inr p) \<Rightarrow> (case remove_loop env name table key cs p of (cs', r) \<Rightarrow> ((i, c') # cs', r))))
      else (case remove_loop env name table key cs raw of (cs', r) \<Rightarrow> ((i, c) # cs', r)))"

definition engine_remove ::
  "('i :: linorder) engine_env \<Rightarrow> 'i engine \<Rightarrow> string \<Rightarrow> attribute \<Rightarrow> 'i engine \<times> bool io" where
  "engine_remove env e name key =
     (case remove_loop env name (ht_at (tables_raw e) name) key (sequential_indexes e) 0 of
        (idxs, Inl err) \<Rightarrow> (e\<lparr>sequential_indexes := idxs\<rparr>, Inl err)
      | (idxs, Inr raw) \<Rightarrow>
          (let e1 = e\<lparr>sequential_indexes := idxs\<rparr> in
           if raw = - 1 then (e1, Inr False)
           else case ht_at (tables_raw e1) name of
                  Inl err \<Rightarrow> (e1, Inl err)
                | Inr h \<Rightarrow> (case heap_remove (env_float env) h raw of
                               (h1, r) \<Rightarrow> (engine_put name h1 e1, bind_io r (\<lambda>_. Inr True)))))"

section \<open>Creating an index\<close>

fun get_sample_value :: "types \<Rightarrow> string" where
  "get_sample_value BOOL_t = ''true''"
| "get_sample_value INT_t = ''0''"
| "get_sample_value FLOAT_t = ''0.0''"
| "get_sample_value VARCHAR_t = ''a''"

text \<open>
  The keys of the rows with their positions.  The variable \<open>prev_pos\<close> of \<open>pos_getter\<close> is static: it starts one record in
  front of the file when it is used for the first time, and each later use, whatever the index, goes on from it.
\<close>

definition pos_getter :: "8 word \<Rightarrow> int option \<Rightarrow> int" where
  "pos_getter rec_size prev = (case prev of None \<Rightarrow> - uint rec_size | Some p \<Rightarrow> p) + uint rec_size"

fun index_pairs ::
  "(string \<Rightarrow> 'k io) \<Rightarrow> 8 word \<Rightarrow> int option \<Rightarrow> db_record list \<Rightarrow> int option \<times> ('k \<times> physical_pos) list io" where
  "index_pairs conv rec_size prev [] = (prev, Inr [])"
| "index_pairs conv rec_size prev (r # rs) =
     (case bind_io (field_at r 0) conv of
        Inl e \<Rightarrow> (prev, Inl e)
      | Inr k \<Rightarrow>
          (let p = pos_getter rec_size prev in
           case index_pairs conv rec_size (Some p) rs of
             (prev', r') \<Rightarrow> (prev', bind_io r' (\<lambda>ps. Inr ((k, p) # ps)))))"

text \<open>\<open>bulk_insert\<close> of the containers, with the alternative of the type of the keys.\<close>

definition seq_bulk ::
  "('i :: linorder) engine_env \<Rightarrow> 'i seq_container \<Rightarrow> (int \<times> physical_pos) list + ('i \<times> physical_pos) list \<Rightarrow> 'i seq_container io" where
  "seq_bulk env c pairs =
     (case (sc_idx c, pairs) of
        (SeqInt s, Inl ps) \<Rightarrow> bind_io (seq_bulk_insert (env_sort_int env) s ps) (\<lambda>(s', _). Inr (c\<lparr>sc_idx := SeqInt s'\<rparr>))
      | (SeqFloat s, Inr ps) \<Rightarrow> bind_io (seq_bulk_insert (env_sort_float env) s ps) (\<lambda>(s', _). Inr (c\<lparr>sc_idx := SeqFloat s'\<rparr>))
      | _ \<Rightarrow> Inl BadVariantAccess)"

definition avl_bulk ::
  "('i :: linorder) avl_variant \<Rightarrow> (int \<times> physical_pos) list + ('i \<times> physical_pos) list \<Rightarrow> 'i avl_variant \<times> unit io" where
  "avl_bulk a pairs =
     (case (a, pairs) of
        (AvlInt s, Inl ps) \<Rightarrow> (case avl_bulk_insert s ps of (s', r) \<Rightarrow> (AvlInt s', bind_io r (\<lambda>_. Inr ())))
      | (AvlFloat s, Inr ps) \<Rightarrow> (case avl_bulk_insert s ps of (s', r) \<Rightarrow> (AvlFloat s', bind_io r (\<lambda>_. Inr ())))
      | _ \<Rightarrow> (a, Inl BadVariantAccess))"

definition isam_bulk ::
  "('i :: linordered_idom) engine_env \<Rightarrow> 'i isam_variant \<Rightarrow> (int \<times> physical_pos) list + ('i \<times> physical_pos) list \<Rightarrow>
     'i isam_variant io" where
  "isam_bulk env a pairs =
     (case (a, pairs) of
        (IsamInt s, Inl ps) \<Rightarrow>
          bind_io (isam_bulk_insert (env_isam_sort_int env) (fst (env_memory_int env)) (snd (env_memory_int env)) s ps)
            (\<lambda>(s', _). Inr (IsamInt s'))
      | (IsamFloat s, Inr ps) \<Rightarrow>
          bind_io (isam_bulk_insert (env_isam_sort_float env) (fst (env_memory_float env)) (snd (env_memory_float env)) s ps)
            (\<lambda>(s', _). Inr (IsamFloat s'))
      | _ \<Rightarrow> Inl BadVariantAccess)"

text \<open>A new AVL index, on files that are not there yet.\<close>

definition new_avl_index :: "'k avl_index" where
  "new_avl_index = avl_initIndex \<lparr>mem_header = \<lparr>rootPointer = 0, lastDelete = 0\<rparr>, file_header = None, node_file = [],
     dup_file = [], is_pk = False, stream_open = False, stream_failed = False\<rparr>"

text \<open>
  The index of the kind that is asked for.  All three branches look for an old index in \<open>m_avl_indexes\<close>; the other
  tables keep an element that is there already.
\<close>

definition insert_index ::
  "('i :: linordered_idom) engine_env \<Rightarrow> 'i engine \<Rightarrow> index_id \<Rightarrow> index_kind \<Rightarrow>
     (int \<times> physical_pos) list + ('i \<times> physical_pos) list \<Rightarrow> 'i engine \<times> unit io" where
  "insert_index env e i kind pairs =
     (if ht_contains (avl_indexes e) i then (e, Inl InvalidArgument)
      else case kind of
        AVL \<Rightarrow>
          (let new = (case pairs of Inl _ \<Rightarrow> AvlInt new_avl_index | Inr _ \<Rightarrow> AvlFloat new_avl_index);
               e1 = e\<lparr>avl_indexes := ht_insert (env_index_rank env) i new (avl_indexes e)\<rparr>
           in case ht_at (avl_indexes e1) i of
                Inl err \<Rightarrow> (e1, Inl err)
              | Inr a \<Rightarrow> (case avl_bulk a pairs of (a', r) \<Rightarrow> (e1\<lparr>avl_indexes := ht_put i a' (avl_indexes e1)\<rparr>, r)))
      | SEQUENTIAL \<Rightarrow>
          (let new = \<lparr>sc_table = idx_table i, sc_attribute = idx_attribute i, sc_pk = False,
                 sc_idx = (case pairs of Inl _ \<Rightarrow> SeqInt createFile | Inr _ \<Rightarrow> SeqFloat createFile)\<rparr>;
               e1 = e\<lparr>sequential_indexes := ht_insert (env_index_rank env) i new (sequential_indexes e)\<rparr>
           in case bind_io (ht_at (sequential_indexes e1) i) (\<lambda>c. seq_bulk env c pairs) of
                Inl err \<Rightarrow> (e1, Inl err)
              | Inr c' \<Rightarrow> (e1\<lparr>sequential_indexes := ht_put i c' (sequential_indexes e1)\<rparr>, Inr ()))
      | ISAM \<Rightarrow>
          (let meta = isam_meta_file e;
               new = (case pairs of Inl _ \<Rightarrow> IsamInt (new_isam meta None False) | Inr _ \<Rightarrow> IsamFloat (new_isam meta None False));
               e1 = e\<lparr>isam_meta_file := snd (metadata_init meta),
                      isam_indexes := ht_insert (env_index_rank env) i new (isam_indexes e)\<rparr>
           in case bind_io (ht_at (isam_indexes e1) i) (\<lambda>a. isam_bulk env a pairs) of
                Inl err \<Rightarrow> (e1, Inl err)
              | Inr a' \<Rightarrow> (e1\<lparr>isam_indexes := ht_put i a' (isam_indexes e1)\<rparr>, Inr ())))"

text \<open>
  \<open>create_index\<close>.  For a column of strings \<open>key_cast_and_execute\<close> does not call the function, and nothing happens.
\<close>

definition create_index ::
  "('i :: linordered_idom) engine_env \<Rightarrow> 'i engine \<Rightarrow> string \<Rightarrow> string \<Rightarrow> index_kind \<Rightarrow> 'i engine \<times> unit io" where
  "create_index env e name column kind =
     (case bind_io (ht_at (tables_raw e) name) (\<lambda>h. bind_io (get_type h column) (\<lambda>ty. Inr (get_record_size h, type_kind ty))) of
        Inl err \<Rightarrow> (e, Inl err)
      | Inr (rec_size, k) \<Rightarrow>
          (if k = BOOL_t then (e, Inl InvalidArgument)
           else case key_cast_value (env_float env) k (get_sample_value k) of
             Inl err \<Rightarrow> (e, Inl err)
           | Inr None \<Rightarrow> (e, Inr ())
           | Inr (Some _) \<Rightarrow>
               (case engine_load env e name [column] of
                  (e1, Inl err) \<Rightarrow> (e1, Inl err)
                | (e1, Inr resp) \<Rightarrow>
                    (let (prev, pairs) =
                       (if k = INT_t then
                          (case index_pairs stoi rec_size (prev_pos e1) (qr_records resp) of (p, r) \<Rightarrow> (p, bind_io r (\<lambda>ps. Inr (Inl ps))))
                        else
                          (case index_pairs (\<lambda>s. bind_io (fl_parse (env_float env) s) (\<lambda>b. Inr (env_key env b))) rec_size
                                  (prev_pos e1) (qr_records resp) of (p, r) \<Rightarrow> (p, bind_io r (\<lambda>ps. Inr (Inr ps)))));
                       e2 = e1\<lparr>prev_pos := prev\<rparr>
                     in case pairs of
                          Inl err \<Rightarrow> (e2, Inl err)
                        | Inr ps \<Rightarrow> insert_index env e2 (IndexId name column) kind ps))))"

section \<open>Conditions and selections\<close>

text \<open>
  \<open>get_comparator\<close>.  The function it returns compares, drops the result and answers whether the operator is
  \<open>EQUAL\<close>.  (It holds references to variables of the call that made it; here it sees their values.)
\<close>

definition get_comparator ::
  "'i engine_env \<Rightarrow> 'i engine \<Rightarrow> string \<Rightarrow> comp \<Rightarrow> string \<Rightarrow> string \<Rightarrow> (db_record \<Rightarrow> bool io) io" where
  "get_comparator env e name cmp column text =
     bind_io (ht_at (tables_raw e) name) (\<lambda>h.
     bind_io (get_type h column) (\<lambda>ty.
     bind_io (get_attribute_idx h column) (\<lambda>i.
     Inr (\<lambda>r. bind_io (vector_at (m_fields r) i) (\<lambda>raw.
              bind_io (cast_values (env_float env) (type_kind ty) text raw) (\<lambda>_.
              Inr (cmp = EQUAL)))))))"

text \<open>
  \<open>sort_attributes\<close>: \<open>std::ranges::sort\<close> by the place of the attributes in the table.  A list of at least two is
  compared, and a comparison with an attribute that is not there throws.
\<close>

definition sort_attributes :: "'i engine \<Rightarrow> string \<Rightarrow> string list \<Rightarrow> string list io" where
  "sort_attributes e name attrs =
     (if length attrs < 2 then Inr attrs
      else bind_io (ht_at (tables_raw e) name) (\<lambda>h.
           bind_io (attribute_idxs h attrs) (\<lambda>idxs.
           Inr (map snd (sort_key fst (zip idxs attrs))))))"

text \<open>The bodies of the two functions for CSV files are commented out.\<close>

definition csv_insert_into :: "'i engine \<Rightarrow> string \<Rightarrow> string \<Rightarrow> 'i engine" where
  "csv_insert_into e name path = e"

definition csv_insert :: "'i engine \<Rightarrow> string \<Rightarrow> 'i engine \<times> bool" where
  "csv_insert e path = (e, False)"

end
