(* ===== verification/HeapTheorems.thy ===== *)
theory HeapTheorems
  imports HeapFile
begin

text \<open>
  What a heap file keeps: while no operation has thrown and nothing was deleted, its data file is the
  records in the order they were added, each one read back in canonical form.  The other properties
  show what breaks this: an exception, \<open>bulk_insert\<close> on a table with records, and \<open>remove\<close>.
\<close>

section \<open>Reading many records\<close>

lemma record_read_append:
  "record_read fc tys (Some bs) r = Inr (Some bs', r') \<Longrightarrow> record_read fc tys (Some (bs @ x)) r = Inr (Some (bs' @ x), r')"
  by (auto simp: record_read_def Let_def bind_io_eq_Inr split: if_splits)

lemma record_read_Some:
  "record_read fc tys (Some bs) r = Inr (s, r') \<Longrightarrow> unat (record_size tys) \<le> length bs \<Longrightarrow>
     s = Some (drop (unat (record_size tys)) bs)"
  by (auto simp: record_read_def Let_def bind_io_eq_Inr)

lemma read_n_append:
  assumes "read_n n fc tys (Some bs) = Inr rows" "length bs = n * unat (record_size tys)"
    "record_read fc tys s empty_record = Inr (s', row)" "s = Some x"
  shows "read_n (Suc n) fc tys (Some (bs @ x)) = Inr (rows @ [row])"
  using assms(1,2)
proof (induction n arbitrary: bs rows)
  case 0
  then show ?case using assms(3,4) by (simp add: bind_io_eq_Inr)
next
  case (Suc n)
  from Suc.prems(1) obtain t r rs where t: "record_read fc tys (Some bs) empty_record = Inr (t, r)"
    "read_n n fc tys t = Inr rs" "rows = r # rs"
    by (auto simp: bind_io_eq_Inr)
  have "unat (record_size tys) \<le> length bs" using Suc.prems(2) by simp
  note d = record_read_Some[OF t(1) this]
  have "read_n (Suc n) fc tys (Some (drop (unat (record_size tys)) bs @ x)) = Inr (rs @ [row])"
    using t(2) Suc.prems(2) d by (intro Suc.IH) simp_all
  then show ?case using record_read_append[OF t(1)[unfolded d], of x] t(3)
    by (subst read_n.simps) simp
qed

lemma read_n_nth:
  assumes "read_n n fc tys (Some bs) = Inr rows" "n * unat (record_size tys) \<le> length bs" "i < n"
  shows "\<exists>s. record_read fc tys (Some (drop (i * unat (record_size tys)) bs)) empty_record = Inr (s, rows ! i)"
  using assms
proof (induction n arbitrary: bs rows i)
  case (Suc n)
  from Suc.prems(1) obtain t r rs where t: "record_read fc tys (Some bs) empty_record = Inr (t, r)"
    "read_n n fc tys t = Inr rs" "rows = r # rs"
    by (auto simp: bind_io_eq_Inr)
  have "unat (record_size tys) \<le> length bs" using Suc.prems(2) by simp
  note d = record_read_Some[OF t(1) this]
  show ?case
  proof (cases i)
    case (Suc j)
    have "\<exists>s. record_read fc tys (Some (drop (j * unat (record_size tys)) (drop (unat (record_size tys)) bs))) empty_record =
        Inr (s, rs ! j)"
      using t(2) Suc Suc.prems d by (intro Suc.IH) simp_all
    then show ?thesis using Suc t(3) by (simp add: add.commute)
  qed (use t in auto)
qed simp

lemma read_n_failed: "read_n n fc tys None = Inr (replicate n empty_record)"
  by (induction n) (simp_all add: record_read_def)

lemma read_n_length: "read_n n fc tys s = Inr rows \<Longrightarrow> length rows = n"
  by (induction n arbitrary: s rows) (auto simp: bind_io_eq_Inr)

lemma read_n_add: "read_n (m + n) fc tys (Some bs) = Inr (rows @ rows') \<longleftrightarrow> read_n m fc tys (Some bs) = Inr rows \<and>
    read_n n fc tys (Some (drop (m * unat (record_size tys)) bs)) = Inr rows'"
  if "length rows = m" "m * unat (record_size tys) \<le> length bs"
  using that
proof (induction m arbitrary: bs rows)
  case (Suc m)
  then obtain r rs where r: "rows = r # rs" "length rs = m" by (cases rows) auto
  have "unat (record_size tys) \<le> length bs" using Suc.prems(2) by simp
  note d = record_read_Some[OF _ this]
  show ?case
  proof (cases "record_read fc tys (Some bs) empty_record")
    case (Inr p)
    then obtain s q where p: "p = (s, q)" "s = Some (drop (unat (record_size tys)) bs)" using d by (cases p) auto
    show ?thesis using Suc.IH[of rs "drop (unat (record_size tys)) bs"] Suc.prems r Inr p
      by (auto simp: bind_io_eq_Inr add.commute)
  qed simp
qed simp

section \<open>The contents of a heap file\<close>

text \<open>
  The stream is closed, the columns have the sizes of their types and at most 255 bytes together, and the
  file is the rows, one after another.
\<close>

definition heap_repr :: "float_conv \<Rightarrow> heap_file \<Rightarrow> db_record list \<Rightarrow> bool" where
  "heap_repr fc h rows \<longleftrightarrow> opens h \<and> float_ok fc \<and> (\<forall>ty\<in>set (attribute_types h). type_ok ty) \<and>
     total_size (attribute_types h) < 256 \<and> unat (record_count h) = length rows \<and>
     length (data_file h) = length rows * total_size (attribute_types h) \<and>
     read_n (length rows) fc (attribute_types h) (Some (data_file h)) = Inr rows"

lemma heap_repr_size: "heap_repr fc h rows \<Longrightarrow> unat (record_size (attribute_types h)) = total_size (attribute_types h)"
  by (simp add: heap_repr_def record_size_mod)

lemma heap_repr_next_pos: "heap_repr fc h rows \<Longrightarrow> next_pos h = int (length (data_file h))"
  by (simp add: heap_repr_def next_pos_def)

text \<open>The row a record comes back as.\<close>

definition row_of :: "float_conv \<Rightarrow> db_type list \<Rightarrow> db_record \<Rightarrow> db_record \<Rightarrow> bool" where
  "row_of fc tys r row \<longleftrightarrow> rec_status row = OK \<and> length (m_fields row) = length tys \<and>
     (\<forall>i<length tys. stored_as fc (tys ! i) (m_fields r ! i) (m_fields row ! i))"

lemma row_of_written:
  assumes "float_ok fc" "\<forall>ty\<in>set tys. type_ok ty" "record_write fc tys r = Inr bs"
  obtains row where "row_of fc tys r row" "\<And>rest. record_read fc tys (Some (bs @ rest)) empty_record = Inr (Some rest, row)"
proof -
  from record_roundtrip_fields[OF assms] obtain ss where ss: "length ss = length tys"
    "\<forall>i<length tys. stored_as fc (tys ! i) (m_fields r ! i) (ss ! i)"
    "\<And>rest r0. record_read fc tys (Some (bs @ rest)) r0 = Inr (Some rest, r0\<lparr>m_fields := ss\<rparr>)" by blast
  show thesis
    using ss by (intro that[of "empty_record\<lparr>m_fields := ss\<rparr>"]) (simp_all add: row_of_def empty_record_def)
qed

lemma heap_repr_add:
  assumes "heap_repr fc h rows" "record_write fc (attribute_types h) r = Inr bs" "length rows < 2 ^ 64 - 1"
  obtains h' row where "heap_add fc h r = (h', Inr (int (length (data_file h))))" "heap_repr fc h' (rows @ [row])"
    "row_of fc (attribute_types h) r row" "attribute_types h' = attribute_types h"
proof -
  note rp = assms(1)[unfolded heap_repr_def]
  obtain row where row: "row_of fc (attribute_types h) r row"
    "\<And>rest. record_read fc (attribute_types h) (Some (bs @ rest)) empty_record = Inr (Some rest, row)"
    using row_of_written[OF _ _ assms(2)] rp by blast
  have "record_read fc (attribute_types h) (Some bs) empty_record = Inr (Some [], row)" using row(2)[of "[]"] by simp
  from read_n_append[OF _ _ this refl, of "length rows" "data_file h" rows] rp
  have "read_n (Suc (length rows)) fc (attribute_types h) (Some (data_file h @ bs)) = Inr (rows @ [row])"
    using heap_repr_size[OF assms(1)] by simp
  moreover have "unat (record_count h + 1) = Suc (length rows)"
    using rp assms(3) by (simp add: unat_word_ariths)
  moreover have "length bs = total_size (attribute_types h)" using record_write_length[OF assms(2)] by simp
  ultimately show thesis using rp row(1) assms(2)
    by (intro that[of "write_metadata (h\<lparr>data_file := data_file h @ bs, record_count := record_count h + 1\<rparr>)" row])
      (simp_all add: heap_add_def heap_repr_def write_metadata_def next_pos_def del: read_n.simps)
qed

lemma heap_repr_read:
  assumes "heap_repr fc h rows" "i < length rows"
  shows "heap_read fc h (int (i * total_size (attribute_types h))) = (h, Inr (rows ! i))"
proof -
  note rp = assms(1)[unfolded heap_repr_def]
  obtain s where "record_read fc (attribute_types h) (Some (drop (i * total_size (attribute_types h)) (data_file h)))
      empty_record = Inr (s, rows ! i)"
    using read_n_nth[of "length rows" fc "attribute_types h" "data_file h" rows i] rp assms(2) heap_repr_size[OF assms(1)]
    by auto
  moreover have "nat (int (i * t)) = i * t" "\<not> int (i * t) < 0" for t by (simp_all only: nat_int of_nat_less_0_iff not_False_eq_True)
  ultimately show ?thesis using rp by (simp add: heap_read_def heap_close_def del: of_nat_mult)
qed

lemma heap_repr_load: "heap_repr fc h rows \<Longrightarrow> heap_load fc h = (h, Inr rows)"
  by (simp add: heap_repr_def heap_load_def heap_close_def)

lemma heap_repr_construct:
  assumes "heap_construct name tys names pk [] 0 = Inr h" "float_ok fc" "\<forall>ty\<in>set tys. type_ok ty" "total_size tys < 256"
  shows "heap_repr fc h [] \<and> attribute_types h = tys"
  using assms by (auto simp: heap_construct_def read_metadata_def Let_def bind_io_eq_Inr sizeof_metadata_def
      heap_repr_def update_first_deleted_def write_metadata_def)

section \<open>Bulk insertion\<close>

lemma write_all_read:
  assumes "float_ok fc" "\<forall>ty\<in>set tys. type_ok ty" "write_all fc tys rs buf = (out, None)"
  shows "\<exists>bs rows. out = buf @ bs \<and> length bs = length rs * total_size tys \<and> list_all2 (row_of fc tys) rs rows \<and>
     read_n (length rs) fc tys (Some bs) = Inr rows \<and> (rs \<noteq> [] \<longrightarrow> total_size tys < 256)"
  using assms(3)
proof (induction rs arbitrary: buf)
  case (Cons r rs)
  then obtain b where b: "record_write fc tys r = Inr b" "write_all fc tys rs (buf @ b) = (out, None)"
    by (auto split: sum.splits)
  obtain bs rows where bs: "out = (buf @ b) @ bs" "length bs = length rs * total_size tys"
    "list_all2 (row_of fc tys) rs rows" "read_n (length rs) fc tys (Some bs) = Inr rows"
    using Cons.IH[OF b(2)] by blast
  obtain row where row: "row_of fc tys r row"
    "\<And>rest. record_read fc tys (Some (b @ rest)) empty_record = Inr (Some rest, row)"
    using row_of_written[OF assms(1,2) b(1)] by blast
  show ?case using bs row record_write_length[OF b(1)]
    by (intro exI[of _ "b @ bs"] exI[of _ "row # rows"]) simp
qed simp

lemma read_n_past_end:
  assumes "0 < unat (record_size tys)"
  shows "read_n n fc tys (Some []) = Inr (replicate n empty_record)"
proof (cases n)
  case (Suc m)
  have "record_read fc tys (Some []) empty_record = Inr (None, empty_record)"
    using assms by (simp add: record_read_def)
  then show ?thesis using Suc read_n_failed[of m fc tys] by simp
qed simp

lemma read_n_beyond:
  assumes "read_n m fc tys (Some bs) = Inr rows" "length bs = m * unat (record_size tys)" "0 < unat (record_size tys)"
  shows "read_n (m + n) fc tys (Some bs) = Inr (rows @ replicate n empty_record)"
  using read_n_add[of rows m tys bs n fc "replicate n empty_record"] read_n_length[OF assms(1)] assms
    read_n_past_end[OF assms(3), of n fc] by simp

section \<open>Selection\<close>

lemma lower_bound_spec:
  assumes "sorted (map unat xs)" "start + len \<le> length xs" "\<forall>j < start. unat (xs ! j) < v"
    "\<forall>j<length xs. start + len \<le> j \<longrightarrow> v \<le> unat (xs ! j)"
  shows "lower_bound xs v start len \<le> length xs \<and> (\<forall>j<lower_bound xs v start len. unat (xs ! j) < v) \<and>
     (\<forall>j<length xs. lower_bound xs v start len \<le> j \<longrightarrow> v \<le> unat (xs ! j))"
  using assms
proof (induction xs v start len rule: lower_bound.induct)
  case (1 xs v start len)
  have mono: "unat (xs ! j) \<le> unat (xs ! k)" if "j \<le> k" "k < length xs" for j k
    using sorted_nth_mono[OF "1.prems"(1) that(1)] that by simp
  show ?case
  proof (cases "len = 0")
    case True
    then have "lower_bound xs v start len = start" by (subst lower_bound.simps) simp
    then show ?thesis using True "1.prems" by auto
  next
    case False
    show ?thesis
    proof (cases "unat (xs ! (start + len div 2)) < v")
      case True
      have eq: "lower_bound xs v start len = lower_bound xs v (start + len div 2 + 1) (len - len div 2 - 1)"
        using False True by (subst lower_bound.simps) simp
      have "\<forall>j < start + len div 2 + 1. unat (xs ! j) < v"
      proof (intro allI impI)
        fix j assume "j < start + len div 2 + 1"
        then have "unat (xs ! j) \<le> unat (xs ! (start + len div 2))" using False "1.prems"(2) by (intro mono) auto
        then show "unat (xs ! j) < v" using True by simp
      qed
      then show ?thesis unfolding eq using False True "1.prems" by (intro "1.IH"(1)) auto
    next
      case nless: False
      have eq: "lower_bound xs v start len = lower_bound xs v start (len div 2)"
        using False nless by (subst lower_bound.simps) simp
      have "\<forall>j<length xs. start + len div 2 \<le> j \<longrightarrow> v \<le> unat (xs ! j)"
        using nless mono by (meson le_trans not_less)
      then show ?thesis unfolding eq using False nless "1.prems" by (intro "1.IH"(2)) auto
    qed
  qed
qed

lemma std_binary_search_sorted:
  assumes "sorted (map unat xs)"
  shows "std_binary_search xs v \<longleftrightarrow> v \<in> unat ` set xs"
proof -
  let ?i = "lower_bound xs v 0 (length xs)"
  have i: "?i \<le> length xs" "\<forall>j<?i. unat (xs ! j) < v" "\<forall>j<length xs. ?i \<le> j \<longrightarrow> v \<le> unat (xs ! j)"
    using lower_bound_spec[OF assms, of 0 "length xs" v] by auto
  show ?thesis
  proof
    assume "std_binary_search xs v"
    then have "?i < length xs" "unat (xs ! ?i) \<le> v" by (auto simp: std_binary_search_def Let_def)
    then have "unat (xs ! ?i) = v" using i(3) by (simp add: le_antisym)
    then show "v \<in> unat ` set xs" using \<open>?i < length xs\<close> by (metis image_eqI nth_mem)
  next
    assume "v \<in> unat ` set xs"
    then obtain j where j: "j < length xs" "unat (xs ! j) = v" by (auto simp: in_set_conv_nth)
    then have "?i \<le> j" using i(2) by (metis less_irrefl not_le)
    moreover have "unat (xs ! ?i) \<le> unat (xs ! j)"
      using sorted_nth_mono[OF assms calculation] j(1) calculation by simp
    ultimately show "std_binary_search xs v" using j by (simp add: std_binary_search_def Let_def)
  qed
qed

lemma filter_loop_nths:
  "n \<le> length fs \<Longrightarrow> filter_loop idxs n fs = nths (take n fs) {i. std_binary_search idxs i} @ drop n fs"
proof (induction n arbitrary: fs)
  case (Suc n)
  have n: "n < length fs" using Suc.prems by simp
  have t: "nths (take (Suc n) fs) A = nths (take n fs) A @ (if n \<in> A then [fs ! n] else [])" for A
    using n by (simp add: take_Suc_conv_app_nth nths_append)
  show ?case
  proof (cases "std_binary_search idxs n")
    case True
    then show ?thesis using Suc.IH[of fs] n t by (simp add: Cons_nth_drop_Suc)
  next
    case False
    then have "filter_loop idxs (Suc n) fs = filter_loop idxs n (take n fs @ drop (Suc n) fs)" by simp
    also have "\<dots> = nths (take n fs) {i. std_binary_search idxs i} @ drop (Suc n) fs"
      using n by (subst Suc.IH) (simp_all add: min_def)
    finally show ?thesis using False t by simp
  qed
qed simp

lemma filter_record_nths:
  "filter_record idxs r = r\<lparr>m_fields := nths (m_fields r) {i. std_binary_search idxs i}\<rparr>"
  by (simp add: filter_record_def filter_loop_nths)

lemma find_idx_at:
  "distinct xs \<Longrightarrow> i < length xs \<Longrightarrow> find_idx xs (xs ! i) n = Some (n + i)"
proof (induction xs arbitrary: i n)
  case (Cons x xs)
  then show ?case by (cases i) auto
qed simp

lemma attribute_idxs_at:
  assumes "distinct (attribute_names h)" "\<forall>i\<in>set is. i < length (attribute_names h)"
  shows "attribute_idxs h (map (\<lambda>i. attribute_names h ! i) is) = Inr (map of_nat is)"
  using assms(2) by (induction "is") (simp_all add: get_attribute_idx_def find_idx_at[OF assms(1)])

section \<open>Properties\<close>

text \<open>A table of two columns with no rows, for the examples.\<close>

definition demo_heap :: heap_file where
  "demo_heap = \<lparr>c_record_size = record_size demo_types, m_table_name = ''t'', m_table_path = ''DB_FILES/Tables/t/'',
     attribute_names = [''id'', ''name'', ''flag''], attribute_types = demo_types, primary_key = ''id'',
     first_deleted = - 1, record_count = 0, data_file = [], metadata_size = 104, stream = None, dir_there = True\<rparr>"

lemma demo_total: "total_size demo_types = 8" "length demo_types = 3" "unat (record_size demo_types) = 8"
  by (simp_all add: demo_types_def record_size_mod)

lemma demo_heap_constructed:
  "heap_construct ''t'' demo_types [''id'', ''name'', ''flag''] ''id'' [] 0 = Inr demo_heap"
  by (simp add: heap_construct_def read_metadata_def demo_heap_def sizeof_metadata_def update_first_deleted_def
      write_metadata_def)

lemma demo_heap_repr: "heap_repr demo_float demo_heap []"
  using heap_repr_construct[OF demo_heap_constructed demo_types_ok] by (simp add: demo_total)

lemma demo_heap_types: "attribute_types demo_heap = demo_types"
  by (simp add: demo_heap_def)

text \<open>
  C39: A table that was constructed on an empty file has no rows; \<open>add\<close> of a record that can be written returns the
  end of the data file, and from then on the table has one more row: reading at that position gives the
  record in canonical form, reading at the position of an earlier row gives that row, and \<open>load\<close> gives
  all the rows in the order they were added.
\<close>

theorem heap_add_correct:
  assumes "heap_repr fc h rows" "record_write fc (attribute_types h) r = Inr bs" "length rows < 2 ^ 64 - 1"
  shows "\<exists>h' row. heap_add fc h r = (h', Inr (int (length (data_file h)))) \<and>
     row_of fc (attribute_types h) r row \<and> heap_repr fc h' (rows @ [row]) \<and>
     heap_read fc h' (int (length (data_file h))) = (h', Inr row) \<and>
     (\<forall>i<length rows. heap_read fc h' (int (i * total_size (attribute_types h))) = (h', Inr (rows ! i))) \<and>
     heap_load fc h' = (h', Inr (rows @ [row]))"
proof -
  obtain h' row where h': "heap_add fc h r = (h', Inr (int (length (data_file h))))" "heap_repr fc h' (rows @ [row])"
    "row_of fc (attribute_types h) r row" "attribute_types h' = attribute_types h"
    using heap_repr_add[OF assms] by blast
  have pos: "length (data_file h) = length rows * total_size (attribute_types h')"
    using assms(1) h'(4) by (simp add: heap_repr_def)
  have "heap_read fc h' (int (length (data_file h))) = (h', Inr row)"
    using heap_repr_read[OF h'(2), of "length rows"] unfolding pos by simp
  moreover have "heap_read fc h' (int (i * total_size (attribute_types h))) = (h', Inr (rows ! i))" if "i < length rows" for i
    using heap_repr_read[OF h'(2), of i] that h'(4) by (simp add: nth_append)
  ultimately show ?thesis using h' heap_repr_load[OF h'(2)] by blast
qed

lemma heap_add_correct_witness:
  "\<exists>h' row. heap_add demo_float demo_heap demo_record = (h', Inr 0) \<and>
     heap_load demo_float h' = (h', Inr [row]) \<and> row_of demo_float demo_types demo_record row"
proof -
  obtain bs where bs: "record_write demo_float (attribute_types demo_heap) demo_record = Inr bs"
    using demo_record_written by (auto simp: demo_heap_types)
  have "length ([] :: db_record list) < 2 ^ 64 - 1" by simp
  from heap_add_correct[OF demo_heap_repr bs this] obtain h' row where
    h': "heap_add demo_float demo_heap demo_record = (h', Inr (int (length (data_file demo_heap))))"
      "row_of demo_float (attribute_types demo_heap) demo_record row" "heap_load demo_float h' = (h', Inr ([] @ [row]))"
    by (elim exE conjE) (rule that)
  have "data_file demo_heap = []" by (simp add: demo_heap_def)
  with h' show ?thesis by (intro exI[of _ h'] exI[of _ row]) (simp add: demo_heap_types)
qed

lemma demo_heap_row:
  obtains h row where "heap_repr demo_float h [row]" "attribute_types h = demo_types"
    "row_of demo_float demo_types demo_record row"
proof -
  obtain bs where bs: "record_write demo_float (attribute_types demo_heap) demo_record = Inr bs"
    using demo_record_written by (auto simp: demo_heap_types)
  obtain h row where h: "heap_repr demo_float h ([] @ [row])" "row_of demo_float (attribute_types demo_heap) demo_record row"
    "attribute_types h = attribute_types demo_heap"
    by (rule heap_repr_add[OF demo_heap_repr bs]) auto
  from h show thesis by (intro that[of h row]) (simp_all add: demo_heap_types)
qed

text \<open>
  \<open>bulk_insert\<close> on a table opens the data file in a way that truncates it: the positions it returns start at 0
  and the new records are there, but every earlier row is lost, and because the record count is
  increased all the same, \<open>load\<close> returns one empty record for each row that was lost.
\<close>

lemma heap_bulk_insert_overwrites:
  assumes "heap_repr fc h rows" "write_all fc (attribute_types h) rs [] = (out, None)"
    "0 < total_size (attribute_types h)" "length rows + length rs < 2 ^ 64"
  shows "\<exists>h' new. heap_bulk_insert fc h rs =
       (h', Inr (map (\<lambda>i. int i * uint (c_record_size h)) [0..<length rs])) \<and>
     list_all2 (row_of fc (attribute_types h)) rs new \<and>
     heap_load fc h' = (h', Inr (new @ replicate (length rows) empty_record))"
proof -
  let ?h = "write_metadata (h\<lparr>data_file := out, record_count := record_count h + of_nat (length rs)\<rparr>)"
  note rp = assms(1)[unfolded heap_repr_def]
  obtain new where new: "length out = length rs * total_size (attribute_types h)"
    "list_all2 (row_of fc (attribute_types h)) rs new" "read_n (length rs) fc (attribute_types h) (Some out) = Inr new"
    using write_all_read[OF _ _ assms(2)] rp by auto
  have load: "read_n (length rs + length rows) fc (attribute_types h) (Some out) = Inr (new @ replicate (length rows) empty_record)"
    using new heap_repr_size[OF assms(1)] assms(3) by (intro read_n_beyond) simp_all
  have "unat (record_count h + of_nat (length rs)) = (length rows + length rs) mod 2 ^ 64"
    using rp by (simp only: unat_word_ariths(1) unat_of_nat take_bit_eq_mod) (simp add: mod_simps)
  then have "unat (record_count h + of_nat (length rs)) = length rs + length rows"
    using assms(4) by simp
  then have "heap_load fc ?h = (?h, Inr (new @ replicate (length rows) empty_record))"
    using load rp by (simp add: heap_load_def heap_close_def write_metadata_def)
  moreover have "heap_bulk_insert fc h rs = (?h, Inr (map (\<lambda>i. int i * uint (c_record_size h)) [0..<length rs]))"
    using rp assms(2) by (simp add: heap_bulk_insert_def write_metadata_def get_record_size_def next_pos_def)
  ultimately show ?thesis using new(2) by blast
qed

lemma heap_bulk_insert_overwrites_witness:
  "\<exists>h row h' new. heap_repr demo_float h [row] \<and> snd (heap_bulk_insert demo_float h [demo_record]) = Inr [0] \<and>
     heap_load demo_float h' = (h', Inr [new, empty_record])"
proof -
  obtain h row where h: "heap_repr demo_float h [row]" "attribute_types h = demo_types" by (rule demo_heap_row)
  obtain bs where bs: "record_write demo_float demo_types demo_record = Inr bs" using demo_record_written by blast
  have w: "write_all demo_float (attribute_types h) [demo_record] [] = (bs, None)" using bs h(2) by simp
  have len: "0 < total_size (attribute_types h)" "length [row] + length [demo_record] < 2 ^ 64"
    using h(2) demo_total(1) by simp_all
  from heap_bulk_insert_overwrites[OF h(1) w len] obtain h' new where
    h': "heap_bulk_insert demo_float h [demo_record] = (h', Inr (map (\<lambda>i. int i * uint (c_record_size h)) [0..<length [demo_record]]))"
      "list_all2 (row_of demo_float (attribute_types h)) [demo_record] new"
      "heap_load demo_float h' = (h', Inr (new @ replicate (length [row]) empty_record))"
    by (elim exE conjE) (rule that)
  obtain n where "new = [n]" using h'(2) by (auto simp: list_all2_Cons1)
  with h h' show ?thesis by (intro exI[of _ h] exI[of _ row] exI[of _ h'] exI[of _ n]) simp
qed

text \<open>
  \<open>remove\<close> opens the data file for writing only, which truncates it: every row of the table is lost, the
  record cannot be read, writing it back throws, and the stream stays open.
\<close>

lemma heap_remove_truncates:
  assumes "opens h" "record_size (attribute_types h) \<noteq> 0"
  shows "\<exists>e. heap_remove fc h pos = (h\<lparr>data_file := [], stream := Some []\<rparr>, Inl e)"
proof -
  have "attribute_types h \<noteq> []" using assms(2) by (auto simp: record_size_def)
  then obtain ty tys where t: "attribute_types h = ty # tys" by (cases "attribute_types h") auto
  have "\<exists>e. record_write fc (ty # tys) (empty_record\<lparr>rec_status := DELETED\<rparr>) = Inl e"
    by (simp add: record_write_def field_at_def empty_record_def)
  then show ?thesis using assms t by (auto simp: heap_remove_def record_read_def)
qed

lemma heap_remove_truncates_witness:
  "\<exists>e. heap_remove demo_float (demo_heap\<lparr>data_file := ''12345678''\<rparr>) 0 = (demo_heap\<lparr>stream := Some []\<rparr>, Inl e)"
proof -
  have n: "record_size demo_types \<noteq> 0" using demo_total(3) by auto
  have "(demo_heap\<lparr>data_file := ''12345678''\<rparr>)\<lparr>data_file := [], stream := Some []\<rparr> = demo_heap\<lparr>stream := Some []\<rparr>"
    by (simp add: demo_heap_def)
  then show ?thesis
    using heap_remove_truncates[of "demo_heap\<lparr>data_file := ''12345678''\<rparr>" demo_float 0] n
    by (simp add: demo_heap_types) (simp add: demo_heap_def)
qed

text \<open>
  An exception leaves the stream of the table open: the next record that is added, although it can be
  written, is lost without an error.  \<open>add\<close> returns a position and counts the record, the data file does
  not change, and \<open>load\<close> returns an empty record in its place.
\<close>

lemma heap_add_after_error:
  assumes "heap_repr fc h rows" "record_write fc (attribute_types h) bad = Inl e"
    "record_write fc (attribute_types h) good = Inr bs" "length rows < 2 ^ 64 - 1" "0 < total_size (attribute_types h)"
  shows "\<exists>h1 h2. heap_add fc h bad = (h1, Inl e) \<and> heap_add fc h1 good = (h2, Inr (int (length (data_file h)))) \<and>
     data_file h2 = data_file h \<and> heap_load fc h2 = (h2, Inr (rows @ [empty_record]))"
proof -
  note rp = assms(1)[unfolded heap_repr_def]
  have "read_n (length rows + 1) fc (attribute_types h) (Some (data_file h)) = Inr (rows @ replicate 1 empty_record)"
    using rp heap_repr_size[OF assms(1)] assms(5) by (intro read_n_beyond) simp_all
  moreover have "unat (record_count h + 1) = length rows + 1"
    using rp assms(4) by (simp add: unat_word_ariths)
  ultimately show ?thesis using rp assms(2,3)
    by (intro exI[of _ "h\<lparr>stream := Some []\<rparr>"]
        exI[of _ "write_metadata (h\<lparr>record_count := record_count h + 1\<rparr>)"])
      (simp add: heap_add_def heap_load_def heap_close_def write_metadata_def next_pos_def del: read_n.simps)
qed

lemma heap_add_after_error_witness:
  "\<exists>e h1 h2. heap_add demo_float demo_heap empty_record = (h1, Inl e) \<and>
     heap_add demo_float h1 demo_record = (h2, Inr 0) \<and> heap_load demo_float h2 = (h2, Inr [empty_record])"
proof -
  obtain bs where good: "record_write demo_float (attribute_types demo_heap) demo_record = Inr bs"
    using demo_record_written by (auto simp: demo_heap_types)
  have "\<nexists>bs. record_write demo_float demo_types empty_record = Inr bs"
    unfolding record_write_Inr using write_fields_needs[of demo_float empty_record _ 0 demo_types "[]"]
    by (fastforce simp: demo_total demo_types_def empty_record_def)
  then obtain e where bad: "record_write demo_float (attribute_types demo_heap) empty_record = Inl e"
    by (cases "record_write demo_float demo_types empty_record") (auto simp: demo_heap_types)
  have len: "length ([] :: db_record list) < 2 ^ 64 - 1" "0 < total_size (attribute_types demo_heap)"
    by (simp_all add: demo_heap_types demo_total)
  from heap_add_after_error[OF demo_heap_repr bad good len] obtain h1 h2 where
    h: "heap_add demo_float demo_heap empty_record = (h1, Inl e)"
      "heap_add demo_float h1 demo_record = (h2, Inr (int (length (data_file demo_heap))))"
      "heap_load demo_float h2 = (h2, Inr ([] @ [empty_record]))"
    by (elim exE conjE) (rule that)
  have "data_file demo_heap = []" by (simp add: demo_heap_def)
  with h show ?thesis by (intro exI[of _ e] exI[of _ h1] exI[of _ h2]) simp
qed

text \<open>
  C40: \<open>filter\<close> with attributes that are selected in the order of the table keeps exactly these fields of every
  record.
\<close>

theorem heap_filter_in_order:
  assumes "distinct (attribute_names h)" "length (attribute_names h) \<le> 256" "sorted is"
    "\<forall>i\<in>set is. i < length (attribute_names h)"
  shows "heap_filter h rs (map (\<lambda>i. attribute_names h ! i) is) qtimes =
     Inr \<lparr>qr_records = map (\<lambda>r. r\<lparr>m_fields := nths (m_fields r) (set is)\<rparr>) rs, query_times = qtimes\<rparr>"
proof -
  have u: "map unat (map of_nat is :: 8 word list) = is"
    using assms(2,4) by (auto simp: unat_of_nat take_bit_eq_mod intro!: map_idI)
  have img: "unat ` set (map of_nat is :: 8 word list) = set is" using arg_cong[OF u, of set] by (simp add: image_image)
  have "std_binary_search (map of_nat is) v \<longleftrightarrow> v \<in> set is" for v
    using std_binary_search_sorted[of "map of_nat is" v] u img assms(3) by simp
  then show ?thesis by (simp add: heap_filter_def attribute_idxs_at[OF assms(1,4)] filter_record_nths)
qed

lemma heap_filter_in_order_witness:
  "heap_filter demo_heap [demo_record] [''id'', ''flag''] [] =
     Inr \<lparr>qr_records = [demo_record\<lparr>m_fields := ['' +42'', ''Si'']\<rparr>], query_times = []\<rparr>"
  using heap_filter_in_order[of demo_heap "[0, 2]" "[demo_record]" "[]"]
  by (simp add: demo_heap_def demo_record_def nths_Cons)

text \<open>
  The search among the selected attributes needs them in the order of the table: selecting the first two
  attributes of a table in the opposite order removes every field of the record.
\<close>

lemma heap_filter_swapped:
  assumes "attribute_names h = a # b # ns" "a \<noteq> b"
  shows "heap_filter_one h r [b, a] qtimes = Inr \<lparr>qr_records = [r\<lparr>m_fields := []\<rparr>], query_times = qtimes\<rparr>"
proof -
  have "\<not> std_binary_search [1, 0] v" for v
  proof -
    note step = lower_bound.simps[of "[1, 0]" v]
    have "lower_bound [1, 0] v n 0 = n" for n by (simp add: step)
    then have 2: "lower_bound [1, 0] v 0 2 = (if 0 < v then 2 else 0)"
      using step[of 0 1] step[of 0 2] by (cases "v = 0") simp_all
    show ?thesis using 2 by (simp add: std_binary_search_def numeral_2_eq_2)
  qed
  then have none: "{i. std_binary_search [1, 0] i} = {}" by blast
  have "nths fs {i. std_binary_search [1, 0] i} = []" for fs :: "string list" by (simp only: none nths_empty)
  then show ?thesis using assms by (simp add: heap_filter_one_def get_attribute_idx_def filter_record_nths)
qed

lemma heap_filter_swapped_witness:
  "heap_filter_one demo_heap demo_record [''name'', ''id''] [] =
     Inr \<lparr>qr_records = [demo_record\<lparr>m_fields := []\<rparr>], query_times = []\<rparr>"
  using heap_filter_swapped[of demo_heap "''id''" "''name''" "[''flag'']" demo_record "[]"] by (simp add: demo_heap_def)

end
