(* ===== verification/DbInvariant.thy ===== *)
theory DbInvariant
  imports DbEngine HeapTheorems
begin

text \<open>
  What the engine keeps about a table with an integer key: the rows of its heap file, the entries of the index of
  its primary key, and that the index finds each row by its key.
\<close>

section \<open>Lookups in the tables of the engine\<close>

lemma ht_at_Some [simp]: "map_of t k = Some v \<Longrightarrow> ht_at t k = Inr v"
  by (simp add: ht_at_def)

lemma ht_put_same:
  assumes "distinct (map fst t)" "map_of t k = Some v"
  shows "ht_put k v t = t"
  unfolding ht_put_def
proof (rule map_idI)
  fix x
  assume "x \<in> set t"
  moreover obtain k' v' where "x = (k', v')" by (cases x)
  ultimately show "(case x of (k', v') \<Rightarrow> (k', if k' = k then v else v')) = x"
    using map_of_eq_Some_iff[OF assms(1), of k v'] assms(2) by auto
qed

lemma ht_put_absent: "k \<notin> fst ` set t \<Longrightarrow> ht_put k v t = t"
  by (force simp: ht_put_def intro!: map_idI)

lemma ht_put_keys [simp]: "map fst (ht_put k v t) = map fst t"
  by (auto simp: ht_put_def)

lemma add_loop_absent: "i \<notin> fst ` set cs \<Longrightarrow> add_loop env i k v pos cs b = (cs, Inr b)"
  by (induction cs arbitrary: b) auto

text \<open>The loop of \<open>add\<close> reaches exactly the index of the primary key.\<close>

lemma add_loop_at:
  assumes "distinct (map fst cs)" "map_of cs i = Some c" "key_cast_value (env_float env) k v = Inr (Some key)"
  shows "add_loop env i k v pos cs b =
     (case container_add env c key pos of Inl e \<Rightarrow> (cs, Inl e) | Inr (c', b') \<Rightarrow> (ht_put i c' cs, Inr b'))"
  using assms(1,2)
proof (induction cs arbitrary: b)
  case (Cons jd cs)
  obtain j d where jd: "jd = (j, d)" by (cases jd)
  show ?case
  proof (cases "j = i")
    case True
    with Cons.prems jd have "d = c" "i \<notin> fst ` set cs" by auto
    then show ?thesis using True assms(3) jd ht_put_absent[of i cs]
      by (auto simp: add_loop_absent ht_put_def split: sum.split)
  next
    case False
    with Cons.prems jd have "map_of cs i = Some c" "distinct (map fst cs)" by auto
    from Cons.IH[OF this(2,1)] show ?thesis using False jd
      by (auto simp: ht_put_def split: sum.split)
  qed
qed simp

section \<open>Rows and positions\<close>

text \<open>The rows at their positions, of which \<open>expr\<close> selects.\<close>

lemma read_positions_rows:
  assumes "heap_repr fc h rows" "\<forall>i\<in>set is. i < length rows"
  shows "read_positions fc h expr (map (\<lambda>i. int (i * total_size (attribute_types h))) is) =
     (h, Inr (filter expr (map ((!) rows) is)))"
  using assms(2)
proof (induction "is")
  case (Cons i "is")
  have "heap_read fc h (int (i * total_size (attribute_types h))) = (h, Inr (rows ! i))"
    using heap_repr_read[OF assms(1), of i] Cons.prems by simp
  with Cons show ?case by (simp del: of_nat_mult)
qed simp

lemma map_nth_filter: "map ((!) xs) (filter (\<lambda>i. P (xs ! i)) [0..<length xs]) = filter P xs"
  using filter_map[of P "(!) xs" "[0..<length xs]"] by (simp add: map_nth comp_def)

text \<open>
  The entries find the rows: the positions of a key are those of the rows that have its text in column \<open>ki\<close>.
\<close>

definition indexed_rows :: "nat \<Rightarrow> nat \<Rightarrow> db_record list \<Rightarrow> int entries \<Rightarrow> bool" where
  "indexed_rows ki sz rows m \<longleftrightarrow>
     (\<forall>k. - (2 ^ 31) \<le> k \<and> k < 2 ^ 31 \<longrightarrow>
        lookup_entry k m = map (\<lambda>i. int (i * sz)) (filter (\<lambda>i. m_fields (rows ! i) ! ki = int_string k) [0..<length rows]))"

lemma indexed_rows_empty: "indexed_rows ki sz [] []"
  by (simp add: indexed_rows_def)

lemma int_string_inject:
  assumes "- (2 ^ 31) \<le> k" "k < 2 ^ 31" "- (2 ^ 31) \<le> k'" "k' < 2 ^ 31" "int_string k = int_string k'"
  shows "k = k'"
proof -
  have "Inr k = stoi (int_string k)" by (rule stoi_int_string[OF assms(1,2), symmetric])
  also have "\<dots> = stoi (int_string k')" by (rule arg_cong[OF assms(5)])
  also have "\<dots> = Inr k'" by (rule stoi_int_string[OF assms(3,4)])
  finally show ?thesis by (rule Inr_inject)
qed

lemma indexed_rows_add:
  assumes ok: "indexed_rows ki sz rows m" and row: "m_fields row ! ki = int_string k"
    and k: "- (2 ^ 31) \<le> k" "k < 2 ^ 31" "k \<notin> fst ` set m"
  shows "indexed_rows ki sz (rows @ [row]) (insert_entry k (int (length rows * sz)) m)"
  unfolding indexed_rows_def
proof (intro allI impI, elim conjE)
  fix k' :: int
  assume k': "- (2 ^ 31) \<le> k'" "k' < 2 ^ 31"
  let ?sel = "\<lambda>rs. filter (\<lambda>i. m_fields (rs ! i) ! ki = int_string k') [0..<length rs]"
  have "?sel (rows @ [row]) = ?sel rows @ (if int_string k = int_string k' then [length rows] else [])"
  proof -
    have "filter (\<lambda>i. m_fields ((rows @ [row]) ! i) ! ki = int_string k') [0..<length rows] = ?sel rows"
      by (rule filter_cong[OF refl]) (simp add: nth_append)
    then show ?thesis using row by simp
  qed
  moreover have old: "lookup_entry k' m = map (\<lambda>i. int (i * sz)) (?sel rows)"
    using ok k' by (simp add: indexed_rows_def)
  moreover have "int_string k = int_string k' \<longleftrightarrow> k = k'" using int_string_inject[OF k(1,2) k'] by blast
  moreover have "lookup_entry k' (insert_entry k (int (length rows * sz)) m) =
      (if k' = k then [int (length rows * sz)] else lookup_entry k' m)"
    using k(3) by (simp add: lookup_insert_new lookup_insert_other)
  moreover have "k' = k \<longrightarrow> lookup_entry k' m = []" using k(3) by simp
  ultimately show "lookup_entry k' (insert_entry k (int (length rows * sz)) m) = map (\<lambda>i. int (i * sz)) (?sel (rows @ [row]))"
    by (cases "k' = k") auto
qed

section \<open>The invariant of a table\<close>

definition key_column :: "heap_file \<Rightarrow> nat \<Rightarrow> bool" where
  "key_column h ki \<longleftrightarrow> find_idx (attribute_names h) (primary_key h) 0 = Some ki \<and> ki < 256 \<and>
     ki < length (attribute_names h) \<and> ki < length (attribute_types h) \<and> type_kind (attribute_types h ! ki) = INT_t"

definition pk_index :: "heap_file \<Rightarrow> 'i seq_container \<Rightarrow> int seq_index \<Rightarrow> bool" where
  "pk_index h c s \<longleftrightarrow> sc_idx c = SeqInt s \<and> sc_pk c \<and> sc_attribute c = primary_key h"

definition table_open ::
  "'i engine_env \<Rightarrow> 'i engine \<Rightarrow> string \<Rightarrow> nat \<Rightarrow> heap_file \<Rightarrow> int seq_index \<Rightarrow> db_record list \<Rightarrow> int entries \<Rightarrow> bool" where
  "table_open env e name ki h s rows m \<longleftrightarrow>
     distinct (map fst (tables_raw e)) \<and> distinct (map fst (sequential_indexes e)) \<and>
     map_of (tables_raw e) name = Some h \<and> heap_repr (env_float env) h rows \<and> key_column h ki \<and>
     (\<exists>c. map_of (sequential_indexes e) (IndexId name (primary_key h)) = Some c \<and> pk_index h c s) \<and> seq_repr s m"

definition table_ok ::
  "'i engine_env \<Rightarrow> 'i engine \<Rightarrow> string \<Rightarrow> nat \<Rightarrow> heap_file \<Rightarrow> int seq_index \<Rightarrow> db_record list \<Rightarrow> int entries \<Rightarrow> bool" where
  "table_ok env e name ki h s rows m \<longleftrightarrow>
     table_open env e name ki h s rows m \<and> indexed_rows ki (total_size (attribute_types h)) rows m"

text \<open>No other table has an index on an attribute of the same name.\<close>

definition sole_index :: "'i engine \<Rightarrow> index_id \<Rightarrow> bool" where
  "sole_index e i \<longleftrightarrow> (\<forall>(j, c)\<in>set (sequential_indexes e). sc_attribute c = idx_attribute i \<longrightarrow> j = i)"

lemma key_column_type:
  assumes "key_column h ki"
  shows "get_type h (primary_key h) = Inr (attribute_types h ! ki)"
    and "ki < length (m_fields r) \<Longrightarrow>
      get_key h r = Inr (attribute_types h ! ki, Attribute (primary_key h) (m_fields r ! ki))"
proof -
  have nm: "attribute_names h ! ki = primary_key h"
  proof -
    have "find_idx xs a n = Some i \<Longrightarrow> n \<le> i \<and> xs ! (i - n) = a" for xs a n i
    proof (induction xs a n rule: find_idx.induct)
      case (2 x xs a n)
      then show ?case by (cases "x = a") (auto simp: nth_Cons' Suc_le_eq)
    qed simp
    from this[of "attribute_names h" "primary_key h" 0 ki] show ?thesis using assms by (simp add: key_column_def)
  qed
  have "unat (of_nat ki :: 8 word) = ki"
    using assms by (simp add: key_column_def unat_of_nat take_bit_eq_mod)
  then show "get_type h (primary_key h) = Inr (attribute_types h ! ki)"
    and "ki < length (m_fields r) \<Longrightarrow>
      get_key h r = Inr (attribute_types h ! ki, Attribute (primary_key h) (m_fields r ! ki))"
    using assms nm by (simp_all add: key_column_def get_type_def get_key_def get_attribute_idx_def vector_at_def)
qed

text \<open>Insertion into a table of the engine.\<close>

lemma distinct_ht_insert: "distinct (map fst t) \<Longrightarrow> distinct (map fst (ht_insert rank k v t))"
proof (cases "ht_contains t k")
  case False
  let ?u = "sort_key (\<lambda>(k', _). rank (k # map fst t) k') ((k, v) # t)"
  assume d: "distinct (map fst t)"
  have "mset (map fst ?u) = mset (map fst ((k, v) # t))" by (simp only: mset_map mset_sort)
  moreover have "distinct (map fst ((k, v) # t))"
    using False d by (auto simp: ht_contains_def map_of_eq_None_iff)
  ultimately have "distinct (map fst ?u)" using mset_eq_imp_distinct_iff by blast
  then show ?thesis using False by (simp only: ht_insert_def if_False)
qed (simp add: ht_insert_def)

lemma distinct_ht_erase: "distinct (map fst t) \<Longrightarrow> distinct (map fst (ht_erase k t))"
  unfolding ht_erase_def by (induction t) auto

lemma ht_erase_absent: "k \<notin> fst ` set t \<Longrightarrow> ht_erase k t = t"
  by (force simp: ht_erase_def filter_id_conv)

lemma ht_insert_present: "map_of t k = Some v' \<Longrightarrow> ht_insert rank k v t = t"
  by (simp add: ht_insert_def ht_contains_def)

lemma key_cast_int [simp]: "stoi v = Inr k \<Longrightarrow> key_cast_value fc INT_t v = Inr (Some (VInt k))"
  by (simp add: key_cast_value_def)

end
