(* ===== verification/DbOps.thy ===== *)
theory DbOps
  imports DbInvariant
begin

text \<open>
  The operations of the engine on a table that is kept well: a new key goes to the index and the record to the
  heap file, and a search reads the rows of the key.
\<close>

section \<open>Adding a record\<close>

lemma heap_add_fields:
  "heap_add fc h r = (h', x) \<Longrightarrow> attribute_names h' = attribute_names h \<and> attribute_types h' = attribute_types h \<and>
     primary_key h' = primary_key h"
  by (auto simp: heap_add_def Let_def write_metadata_def heap_close_def split: sum.splits if_splits option.splits)

lemma container_add_pk:
  "pk_index h c s \<Longrightarrow> container_add env c (VInt k) pos =
     bind_io (seq_add (env_overlay_int env) True s k pos) (\<lambda>(s', records). Inr (c\<lparr>sc_idx := SeqInt s'\<rparr>, records \<noteq> []))"
  by (simp add: pk_index_def container_add_def)

lemma container_search_pk: "pk_index h c s \<Longrightarrow> container_search env c (VInt k) = seq_search s k"
  by (simp add: pk_index_def container_search_def)

lemma table_okD: "table_ok env e name ki h s rows m \<Longrightarrow>
    table_open env e name ki h s rows m \<and> indexed_rows ki (total_size (attribute_types h)) rows m"
  by (simp add: table_ok_def)

lemma table_openE:
  assumes "table_open env e name ki h s rows m"
  obtains c where "distinct (map fst (tables_raw e))" "distinct (map fst (sequential_indexes e))"
    "map_of (tables_raw e) name = Some h" "heap_repr (env_float env) h rows" "key_column h ki"
    "map_of (sequential_indexes e) (IndexId name (primary_key h)) = Some c" "pk_index h c s"
    "seq_repr s m"
  using assms by (auto simp: table_open_def)

lemma written_key:
  assumes "record_write fc tys r = Inr bs" "ki < length tys"
  shows "ki < length (m_fields r)"
proof -
  obtain out where "write_fields fc r (int (total_size tys)) 0 tys [] = Inr out"
    using assms(1) record_write_Inr by blast
  from write_fields_needs[OF this] show ?thesis using assms(2) by auto
qed

text \<open>What \<open>add\<close> needs to know of a table: where its object and the index of its primary key are.\<close>

definition pk_linked :: "'i engine \<Rightarrow> string \<Rightarrow> nat \<Rightarrow> heap_file \<Rightarrow> 'i seq_container \<Rightarrow> int seq_index \<Rightarrow> bool" where
  "pk_linked e name ki h c s \<longleftrightarrow>
     distinct (map fst (sequential_indexes e)) \<and> map_of (tables_raw e) name = Some h \<and> key_column h ki \<and>
     map_of (sequential_indexes e) (IndexId name (primary_key h)) = Some c \<and> pk_index h c s"

lemma table_open_linked:
  assumes "table_open env e name ki h s rows m"
  obtains c where "pk_linked e name ki h c s"
  using assms by (elim table_openE) (rule that, simp add: pk_linked_def)

text \<open>\<open>add\<close> up to the heap file: the index decides.\<close>

lemma engine_add_eq:
  assumes ok: "pk_linked e name ki h c s" and i: "ki < length value" and k: "stoi (value ! ki) = Inr k"
  shows "engine_add env e name value =
     (case seq_add (env_overlay_int env) True s k (next_pos h) of
        Inl err \<Rightarrow> (e, Inl err)
      | Inr (s', records) \<Rightarrow>
          (let e1 = e\<lparr>sequential_indexes := ht_put (IndexId name (primary_key h)) (c\<lparr>sc_idx := SeqInt s'\<rparr>) (sequential_indexes e)\<rparr>
           in if records = [] then (e1, Inl RuntimeError)
              else (case heap_add (env_float env) h \<lparr>rec_status = OK, m_fields = value\<rparr> of
                      (h1, r) \<Rightarrow> (engine_put name h1 e1, bind_io r (\<lambda>_. Inr True)))))"
proof -
  have t: "distinct (map fst (sequential_indexes e))" "map_of (tables_raw e) name = Some h" "key_column h ki"
    "map_of (sequential_indexes e) (IndexId name (primary_key h)) = Some c" "pk_index h c s"
    using ok by (auto simp: pk_linked_def)
  have ty: "type_kind (attribute_types h ! ki) = INT_t" using t(3) by (simp add: key_column_def)
  have gk: "get_key h \<lparr>rec_status = OK, m_fields = value\<rparr> = Inr (attribute_types h ! ki, Attribute (primary_key h) (value ! ki))"
    using key_column_type(2)[OF t(3), of "\<lparr>rec_status = OK, m_fields = value\<rparr>"] i by simp
  note loop = add_loop_at[OF t(1,4), of env INT_t "value ! ki" "VInt k" "next_pos h" False]
  show ?thesis
    using loop by (simp add: engine_add_def Let_def t(2) gk ty k container_add_pk[OF t(5)] split: sum.split prod.split)
qed

lemma engine_add_refused:
  assumes "pk_linked e name ki h c s" "ki < length value" "stoi (value ! ki) = Inr k"
    and "seq_repr s m" "front_ok s m k" "k \<in> fst ` set m"
  shows "engine_add env e name value = (e, Inl RuntimeError)"
proof -
  have "seq_add (env_overlay_int env) True s k (next_pos h) = Inl RuntimeError"
    using seq_add_refused[OF assms(4,5) _ assms(6)] by simp
  then show ?thesis using engine_add_eq[OF assms(1-3)] by simp
qed

lemma engine_add_known:
  assumes ok: "table_open env e name ki h s rows m" and i: "ki < length value" and k: "stoi (value ! ki) = Inr k"
    and front: "front_ok s m k" and known: "k \<in> fst ` set m"
  shows "engine_add env e name value = (e, Inl RuntimeError)"
proof -
  obtain c where c: "pk_linked e name ki h c s" by (rule table_open_linked[OF ok])
  have "seq_repr s m" using ok by (simp add: table_open_def)
  from engine_add_refused[OF c i k this front known] show ?thesis .
qed

text \<open>The index takes a new key.\<close>

lemma seq_add_fresh:
  assumes "seq_repr s m" "front_ok s m k" "k \<notin> fst ` set m"
  obtains s' ps where "seq_add ov True s k p = Inr (s', ps)" "ps \<noteq> []" "seq_repr s' (insert_entry k p m)"
proof -
  have "\<not> (True \<and> k \<in> fst ` set m)" using assms(3) by simp
  then obtain s' where "seq_add ov True s k p = Inr (s', if m = [] then [p, p] else [p])" "seq_repr s' (insert_entry k p m)"
    by (rule seq_add_inserted[OF assms(1,2)]) (rule that)
  then show thesis by (cases "m = []") (auto intro: that)
qed

lemma engine_add_new:
  assumes ok: "table_ok env e name ki h s rows m" and w: "record_write (env_float env) (attribute_types h) \<lparr>rec_status = OK, m_fields = value\<rparr> = Inr bs"
    and k: "stoi (value ! ki) = Inr k" and front: "front_ok s m k" and new: "k \<notin> fst ` set m" and n: "length rows < 2 ^ 64 - 1"
  obtains e' h' s' row where "engine_add env e name value = (e', Inr True)"
    "row_of (env_float env) (attribute_types h) \<lparr>rec_status = OK, m_fields = value\<rparr> row"
    "table_ok env e' name ki h' s' (rows @ [row]) (insert_entry k (int (length (data_file h))) m)"
    "primary_key h' = primary_key h" "sole_index e (IndexId name (primary_key h)) \<Longrightarrow> sole_index e' (IndexId name (primary_key h))"
    "attribute_types h' = attribute_types h"
    "\<exists>ps. seq_add (env_overlay_int env) True s k (int (length (data_file h))) = Inr (s', ps)"
proof -
  let ?i = "IndexId name (primary_key h)" and ?r = "\<lparr>rec_status = OK, m_fields = value\<rparr>"
  obtain c where t: "distinct (map fst (tables_raw e))" "distinct (map fst (sequential_indexes e))"
    "map_of (tables_raw e) name = Some h" "heap_repr (env_float env) h rows" "key_column h ki"
    "map_of (sequential_indexes e) ?i = Some c" "pk_index h c s"
    "seq_repr s m" by (rule table_openE[OF conjunct1[OF table_okD[OF ok]]])
  have ix: "indexed_rows ki (total_size (attribute_types h)) rows m" using table_okD[OF ok] by simp
  have lk: "pk_linked e name ki h c s" using t by (simp add: pk_linked_def)
  have "ki < length (m_fields ?r)" using written_key[OF w] t(5) by (simp add: key_column_def)
  then have i: "ki < length value" by simp
  obtain s' ps where s': "seq_add (env_overlay_int env) True s k (int (length (data_file h))) = Inr (s', ps)" "ps \<noteq> []"
    "seq_repr s' (insert_entry k (int (length (data_file h))) m)"
    by (rule seq_add_fresh[OF t(8) front new])
  obtain h' row where h': "heap_add (env_float env) h ?r = (h', Inr (int (length (data_file h))))"
    "heap_repr (env_float env) h' (rows @ [row])" "row_of (env_float env) (attribute_types h) ?r row"
    "attribute_types h' = attribute_types h" by (rule heap_repr_add[OF t(4) w n])
  let ?c' = "c\<lparr>sc_idx := SeqInt s'\<rparr>"
  let ?e' = "engine_put name h' (e\<lparr>sequential_indexes := ht_put ?i ?c' (sequential_indexes e)\<rparr>)"
  have fields: "attribute_names h' = attribute_names h" "primary_key h' = primary_key h"
    using heap_add_fields[OF h'(1)] by simp_all
  have "m_fields row ! ki = int_string k"
    using h'(3) t(5) k by (auto simp: row_of_def key_column_def stored_as_def)
  moreover have "length (data_file h) = length rows * total_size (attribute_types h)"
    using t(4) by (simp add: heap_repr_def)
  ultimately have rows: "indexed_rows ki (total_size (attribute_types h)) (rows @ [row])
      (insert_entry k (int (length (data_file h))) m)"
    using indexed_rows_add[OF ix] stoi_range[OF k] new by (simp del: of_nat_mult)
  show thesis
  proof (rule that)
    show "engine_add env e name value = (?e', Inr True)"
      using engine_add_eq[OF lk i k] s'(1,2) h'(1) heap_repr_next_pos[OF t(4)] by simp
    show "row_of (env_float env) (attribute_types h) ?r row" by (rule h'(3))
    show "table_ok env ?e' name ki h' s' (rows @ [row]) (insert_entry k (int (length (data_file h))) m)"
      using t h' s'(3) rows fields
      by (simp add: table_ok_def table_open_def engine_put_def ht.lookup_put key_column_def pk_index_def)
    show "primary_key h' = primary_key h" by (rule fields)
    show "sole_index ?e' ?i" if "sole_index e ?i"
      using that by (fastforce simp: sole_index_def engine_put_def ht_put_def split: if_splits)
    show "attribute_types h' = attribute_types h" by (rule h'(4))
    show "\<exists>ps. seq_add (env_overlay_int env) True s k (int (length (data_file h))) = Inr (s', ps)" using s'(1) by blast
  qed
qed

lemma engine_add_avl: "engine_add env e name value = (e', r) \<Longrightarrow> avl_indexes e' = avl_indexes e"
  by (auto simp: engine_add_def engine_put_def Let_def split: sum.splits prod.splits bool.splits)

section \<open>Searching\<close>

lemma find_SomeD: "find P xs = Some x \<Longrightarrow> x \<in> set xs \<and> P x"
  by (induction xs) (auto split: if_splits)

lemma find_sole:
  assumes "sole_index e i" "map_of (sequential_indexes e) i = Some c" "sc_attribute c = idx_attribute i"
  shows "\<exists>c'. find (\<lambda>(_, c). sc_attribute c = idx_attribute i) (sequential_indexes e) = Some (i, c') \<and>
    (distinct (map fst (sequential_indexes e)) \<longrightarrow> c' = c)"
proof -
  let ?P = "\<lambda>(_, c). sc_attribute c = idx_attribute i"
  have "(i, c) \<in> set (sequential_indexes e)" using assms(2) by (rule map_of_SomeD)
  then have "find ?P (sequential_indexes e) \<noteq> None" using assms(3) by (auto simp: find_None_iff)
  then obtain j c' where f: "find ?P (sequential_indexes e) = Some (j, c')" by auto
  then have m: "(j, c') \<in> set (sequential_indexes e)" "sc_attribute c' = idx_attribute i"
    using find_SomeD[OF f] by auto
  then have "j = i" using assms(1) by (auto simp: sole_index_def)
  moreover have "c' = c" if "distinct (map fst (sequential_indexes e))"
    using map_of_is_SomeI[OF that] m(1) \<open>j = i\<close> assms(2) by fastforce
  ultimately show ?thesis using f by blast
qed

lemma engine_search_rows:
  assumes ok: "table_ok env e name ki h s rows m" and sole: "sole_index e (IndexId name (primary_key h))"
    and k: "stoi text = Inr k"
  shows "engine_search env e name (Attribute (primary_key h) text) expr selected =
     (e, heap_filter h (filter (\<lambda>r. m_fields r ! ki = int_string k \<and> expr r) rows) selected
          [(''SEQUENTIAL_SINGLE_SEARCH'', env_clock env)])"
proof -
  let ?i = "IndexId name (primary_key h)" and ?sz = "total_size (attribute_types h)"
  obtain c where t: "distinct (map fst (tables_raw e))" "distinct (map fst (sequential_indexes e))"
    "map_of (tables_raw e) name = Some h" "heap_repr (env_float env) h rows" "key_column h ki"
    "map_of (sequential_indexes e) ?i = Some c" "pk_index h c s"
    "seq_repr s m" by (rule table_openE[OF conjunct1[OF table_okD[OF ok]]])
  have ix: "indexed_rows ki ?sz rows m" using table_okD[OF ok] by simp
  have ty: "type_kind (attribute_types h ! ki) = INT_t" using t(5) by (simp add: key_column_def)
  let ?is = "filter (\<lambda>i. m_fields (rows ! i) ! ki = int_string k) [0..<length rows]"
  have find: "find (\<lambda>(_, c). sc_attribute c = primary_key h) (sequential_indexes e) = Some (?i, c)"
    using find_sole[OF sole t(6)] t(2,7) by (auto simp: pk_index_def)
  have "seq_search s k = Inr (map (\<lambda>i. int (i * ?sz)) ?is)"
    using seq_search_repr[OF t(8)] ix stoi_range[OF k] by (simp add: indexed_rows_def del: of_nat_mult)
  moreover have "read_positions (env_float env) h expr (map (\<lambda>i. int (i * ?sz)) ?is) =
      (h, Inr (filter expr (filter (\<lambda>r. m_fields r ! ki = int_string k) rows)))"
    using read_positions_rows[OF t(4), of ?is expr] map_nth_filter[of rows "\<lambda>r. m_fields r ! ki = int_string k"]
    by (simp del: of_nat_mult)
  moreover have "engine_put name h e = e" by (simp add: engine_put_def ht_put_same[OF t(1,3)])
  ultimately show ?thesis
    using container_search_pk[OF t(7), of env k]
    by (simp add: engine_search_def t(3) get_type_attribute_def key_column_type(1)[OF t(5)] ty k find answer_def
        del: of_nat_mult)
qed

section \<open>Creating and dropping a table\<close>

lemma heap_construct_empty:
  "heap_construct name tys names pk [] 0 = Inr h \<Longrightarrow>
     attribute_names h = names \<and> attribute_types h = tys \<and> primary_key h = pk"
  by (auto simp: heap_construct_def read_metadata_def Let_def bind_io_eq_Inr sizeof_metadata_def
      update_first_deleted_def write_metadata_def)

text \<open>Changing the element of one key of a list.\<close>

lemma map_of_map_at: "map_of (map (\<lambda>(n, h). (n, if n = name then f h else h)) t) n =
    (if n = name then map_option f (map_of t n) else map_of t n)"
  by (induction t) auto

lemma map_at_keys [simp]: "fst \<circ> (\<lambda>(n, h). (n, if n = name then f h else h)) = fst"
  by auto

lemma map_at_absent: "map_of t name = None \<Longrightarrow> map (\<lambda>(n, h). (n, if n = name then f h else h)) t = t"
  by (force simp: map_of_eq_None_iff intro: map_idI)

lemma renew_table_absent: "map_of (tables_raw e) name = None \<Longrightarrow> renew_table name e = e"
  by (simp add: renew_table_def map_at_absent)

text \<open>\<open>create_table\<close> on a name that is free, whatever index the engine has under the name.\<close>

lemma create_table_eq:
  assumes free: "\<not> table_exists e name" "map_of (tables_raw e) name = None"
    and h: "heap_construct name tys names pk [] 0 = Inr h" and key: "key_column h ki"
  shows "create_table env e name pk tys names =
     (e\<lparr>table_dirs := name # table_dirs e, tables_raw := ht_insert (env_table_rank env) name h (tables_raw e),
        sequential_indexes := ht_insert (env_index_rank env) (IndexId name pk)
          \<lparr>sc_table = name, sc_attribute = pk, sc_pk = True, sc_idx = SeqInt createFile\<rparr> (sequential_indexes e)\<rparr>, Inr True)"
proof -
  have "ht_at (ht_insert (env_table_rank env) name h (tables_raw e)) name = Inr h"
    using free(2) by (simp add: ht.lookup_insert)
  moreover have "get_type h pk = Inr (attribute_types h ! ki)"
    using key_column_type(1)[OF key] heap_construct_empty[OF h] by simp
  moreover have "type_kind (attribute_types h ! ki) = INT_t" using key by (simp add: key_column_def)
  ultimately show ?thesis using free h by (simp add: create_table_def Let_def insert_pk_index_def renew_table_absent)
qed

lemma create_table_ok:
  assumes free: "\<not> table_exists e name" "map_of (tables_raw e) name = None"
      "map_of (sequential_indexes e) (IndexId name pk) = None"
    and d: "distinct (map fst (tables_raw e))" "distinct (map fst (sequential_indexes e))"
    and h: "heap_construct name tys names pk [] 0 = Inr h" and key: "key_column h ki"
    and tys: "float_ok (env_float env)" "\<forall>ty\<in>set tys. type_ok ty" "total_size tys < 256"
  shows "\<exists>e'. create_table env e name pk tys names = (e', Inr True) \<and> table_ok env e' name ki h createFile [] []"
proof -
  note hc = heap_construct_empty[OF h]
  let ?c = "\<lparr>sc_table = name, sc_attribute = pk, sc_pk = True, sc_idx = SeqInt createFile\<rparr> :: 'a seq_container"
  have "pk_index h ?c createFile" using hc by (simp add: pk_index_def)
  moreover have "heap_repr (env_float env) h []" using heap_repr_construct[OF h tys] by simp
  ultimately show ?thesis
    using free d key hc createFile_repr
    by (simp add: create_table_eq[OF free(1,2) h key] table_ok_def table_open_def ht.lookup_insert distinct_ht_insert
        indexed_rows_empty)
qed

text \<open>Without AVL indexes on the table, \<open>drop_table\<close> removes nothing but the table itself.\<close>

lemma drop_table_eq:
  assumes "\<forall>i\<in>fst ` set (avl_indexes e). idx_table i \<noteq> name"
  shows "drop_table e name =
     (e\<lparr>table_dirs := filter (\<lambda>d. d \<noteq> name) (table_dirs e), tables_raw := ht_erase name (tables_raw e)\<rparr>, Inr ())"
proof -
  have "filter (\<lambda>i. idx_table i = name) (map fst (avl_indexes e)) = []"
    using assms by (auto simp: filter_empty_conv)
  moreover have "fold ht_erase is (avl_indexes e) = avl_indexes e" if "\<forall>i\<in>set is. idx_table i = name" for "is"
    using that
  proof (induction "is")
    case (Cons i "is")
    then have "ht_erase i (avl_indexes e) = avl_indexes e" using assms by (intro ht_erase_absent) auto
    with Cons show ?case by simp
  qed simp
  ultimately show ?thesis by (simp add: drop_table_def Let_def)
qed

text \<open>A table that is made again under its name gets the old index.\<close>

lemma recreated_table:
  assumes ok: "table_open env e name ki h s rows m" and name: "name \<noteq> []"
    and avl: "\<forall>i\<in>fst ` set (avl_indexes e). idx_table i \<noteq> name"
    and h': "heap_construct name tys names (primary_key h) [] 0 = Inr h'" and key: "key_column h' ki'"
    and tys: "\<forall>ty\<in>set tys. type_ok ty" "total_size tys < 256"
  shows "\<exists>e1 e2. drop_table e name = (e1, Inr ()) \<and> create_table env e1 name (primary_key h) tys names = (e2, Inr True) \<and>
     table_open env e2 name ki' h' s [] m"
proof -
  let ?e1 = "e\<lparr>table_dirs := filter (\<lambda>d. d \<noteq> name) (table_dirs e), tables_raw := ht_erase name (tables_raw e)\<rparr>"
  from ok obtain c where t: "distinct (map fst (tables_raw e))" "distinct (map fst (sequential_indexes e))"
    "heap_repr (env_float env) h rows" "map_of (sequential_indexes e) (IndexId name (primary_key h)) = Some c" "pk_index h c s"
    "seq_repr s m" by (elim table_openE) (rule that)
  note hc = heap_construct_empty[OF h']
  have free: "\<not> table_exists ?e1 name" "map_of (tables_raw ?e1) name = None"
    using name by (simp_all add: table_exists_def ht.lookup_erase)
  have "float_ok (env_float env)" using t(3) by (simp add: heap_repr_def)
  from heap_repr_construct[OF h' this tys] have "heap_repr (env_float env) h' []" by simp
  moreover have "pk_index h' c s" using t(5) hc by (simp add: pk_index_def)
  ultimately show ?thesis
    using t(1,2,4,6) hc key
    by (simp add: drop_table_eq[OF avl] create_table_eq[OF free h' key] ht_insert_present[OF t(4)] table_open_def
        ht.lookup_insert ht.lookup_erase distinct_ht_insert distinct_ht_erase)
qed

end
