(* ===== verification/DbQueries.thy ===== *)
theory DbQueries
  imports DbOps
begin

text \<open>
  Selections of one attribute, loads with a condition, and the positions that \<open>create_index\<close> gives to the rows.
\<close>

section \<open>One selected attribute\<close>

lemma nths_single: "nths fs {j} = (if j < length fs then [fs ! j] else [])"
proof (induction fs arbitrary: j)
  case (Cons f fs)
  then show ?case by (cases j) (simp_all add: nths_Cons)
qed simp

definition one_field :: "nat \<Rightarrow> db_record \<Rightarrow> db_record" where
  "one_field j r = r\<lparr>m_fields := if j < length (m_fields r) then [m_fields r ! j] else []\<rparr>"

lemma filter_record_single:
  assumes "j < 256"
  shows "filter_record [of_nat j] r = one_field j r"
proof -
  have u: "unat (of_nat j :: 8 word) = j" using assms by (simp add: unat_of_nat take_bit_eq_mod)
  have "{i. std_binary_search [of_nat j] i} = {j}"
    using std_binary_search_sorted[of "[of_nat j]"] u by auto
  then show ?thesis by (simp add: filter_record_nths nths_single one_field_def)
qed

lemma heap_filter_single:
  assumes "find_idx (attribute_names h) a 0 = Some j" "j < 256"
  shows "heap_filter h rs [a] qtimes =
     Inr \<lparr>qr_records = map (one_field j) rs, query_times = qtimes\<rparr>"
  using assms by (simp add: heap_filter_def get_attribute_idx_def filter_record_single)

lemma engine_load_eq:
  assumes "distinct (map fst (tables_raw e))" "map_of (tables_raw e) name = Some h" "heap_repr (env_float env) h rows"
  shows "engine_load env e name selected = (e, heap_filter h rows selected [(''LOAD'', env_clock env)])"
  using assms(2) heap_repr_load[OF assms(3)] by (simp add: engine_load_def engine_put_def ht_put_same[OF assms(1,2)])

text \<open>
  \<open>engine_loads env e name h e' rs\<close>: whichever columns of \<open>h\<close> are selected, a load returns these columns of the records \<open>rs\<close>,
  and leaves the engine \<open>e'\<close>.
\<close>

definition engine_loads ::
  "'i engine_env \<Rightarrow> 'i engine \<Rightarrow> string \<Rightarrow> heap_file \<Rightarrow> 'i engine \<Rightarrow> db_record list \<Rightarrow> bool" where
  "engine_loads env e name h e' rs \<longleftrightarrow> (\<forall>selected idxs. attribute_idxs h selected = Inr idxs \<longrightarrow>
     engine_load env e name selected =
       (e', Inr \<lparr>qr_records = map (filter_record idxs) rs, query_times = [(''LOAD'', env_clock env)]\<rparr>))"

lemma attribute_idxs_names: "attribute_names h' = attribute_names h \<Longrightarrow> attribute_idxs h' selected = attribute_idxs h selected"
  by (induction selected) (simp_all add: get_attribute_idx_def)

lemma engine_loadsI:
  assumes "map_of (tables_raw e) name = Some h'" "heap_load (env_float env) h' = (h'', Inr rs)" "attribute_names h'' = attribute_names h"
  shows "engine_loads env e name h (engine_put name h'' e) rs"
  using assms attribute_idxs_names[OF assms(3)] by (simp add: engine_loads_def engine_load_def heap_filter_def)

lemma engine_loads_rows:
  assumes "distinct (map fst (tables_raw e))" "map_of (tables_raw e) name = Some h" "heap_repr (env_float env) h rows"
  shows "engine_loads env e name h e rows"
  by (simp add: engine_loads_def engine_load_eq[OF assms] heap_filter_def)

lemma filter_empty_record [simp]: "filter_record idxs empty_record = empty_record"
  by (simp add: filter_record_def empty_record_def)

section \<open>The positions of a new index\<close>

text \<open>Where \<open>pos_getter\<close> starts, and the positions it gives.\<close>

definition first_pos_from :: "nat \<Rightarrow> int option \<Rightarrow> int" where
  "first_pos_from sz prev = (case prev of None \<Rightarrow> 0 | Some p \<Rightarrow> p + int sz)"

lemma pos_getter_first: "pos_getter sz prev = first_pos_from (unat sz) prev"
  by (simp add: pos_getter_def first_pos_from_def split: option.split)

lemma index_pairs_positions:
  "index_pairs conv sz prev rs = (prev', Inr ps) \<Longrightarrow>
     map snd ps = map (\<lambda>i. first_pos_from (unat sz) prev + int (i * unat sz)) [0..<length rs] \<and>
     prev' = (if rs = [] then prev else Some (first_pos_from (unat sz) prev + int ((length rs - 1) * unat sz))) \<and>
     list_all2 (\<lambda>r p. bind_io (field_at r 0) conv = Inr (fst p)) rs ps"
proof (induction rs arbitrary: prev ps)
  case (Cons r rs)
  let ?p = "first_pos_from (unat sz) prev"
  obtain k ps' where k: "bind_io (field_at r 0) conv = Inr k" "ps = (k, ?p) # ps'"
    "index_pairs conv sz (Some ?p) rs = (prev', Inr ps')"
    using Cons.prems by (auto simp: pos_getter_first Let_def bind_io_eq_Inr split: sum.splits prod.splits)
  have step: "first_pos_from (unat sz) (Some ?p) + int (i * unat sz) = ?p + int (Suc i * unat sz)" for i
    by (simp add: first_pos_from_def algebra_simps)
  have "map (\<lambda>i. ?p + int (i * unat sz)) [0..<length (r # rs)] = ?p # map (\<lambda>i. ?p + int (Suc i * unat sz)) [0..<length rs]"
    by (simp add: upt_conv_Cons map_Suc_upt[symmetric] comp_def algebra_simps del: upt_Suc)
  moreover note Cons.IH[OF k(3)]
  moreover have "first_pos_from (unat sz) (Some ?p) + int ((length rs - 1) * unat sz) = ?p + int ((length (r # rs) - 1) * unat sz)"
    if "rs \<noteq> []" using step[of "length rs - 1"] that by (cases rs) auto
  ultimately show ?case using k(1,2) unfolding step by (auto split: if_splits)
qed simp

text \<open>Reading behind the last row gives an empty record.\<close>

lemma heap_read_behind:
  assumes "heap_repr fc h rows" "int (length (data_file h)) \<le> p" "attribute_types h \<noteq> []" "0 < total_size (attribute_types h)"
  shows "heap_read fc h p = (h, Inr empty_record)"
proof -
  note rp = assms(1)[unfolded heap_repr_def]
  have "record_read fc (attribute_types h) (Some []) empty_record = Inr (None, empty_record)"
    using assms(4) heap_repr_size[OF assms(1)] by (simp add: record_read_def Let_def)
  moreover have "drop (nat p) (data_file h) = []" "\<not> p < 0" using assms(2) by auto
  ultimately show ?thesis using rp by (simp add: heap_read_def heap_close_def)
qed

text \<open>\<open>create_index\<close> of an AVL index on an integer column.\<close>

lemma create_avl_index_eq:
  assumes t: "distinct (map fst (tables_raw e))" "map_of (tables_raw e) name = Some h" "heap_repr (env_float env) h rows"
    and col: "find_idx (attribute_names h) column 0 = Some j" "j < 256" "j < length (attribute_types h)"
      "type_kind (attribute_types h ! j) = INT_t"
    and sz: "get_record_size h = record_size (attribute_types h)"
  shows "create_index env e name column AVL =
     (case index_pairs stoi (record_size (attribute_types h)) (prev_pos e) (map (one_field j) rows) of
        (prev, Inl err) \<Rightarrow> (e\<lparr>prev_pos := prev\<rparr>, Inl err)
      | (prev, Inr ps) \<Rightarrow> insert_index env (e\<lparr>prev_pos := prev\<rparr>) (IndexId name column) AVL (Inl ps))"
proof -
  have "unat (of_nat j :: 8 word) = j" using col(2) by (simp add: unat_of_nat take_bit_eq_mod)
  then have ty: "get_type h column = Inr (attribute_types h ! j)"
    using col by (simp add: get_type_def get_attribute_idx_def vector_at_def)
  have zero: "stoi ''0'' = Inr 0" by code_simp
  obtain prev res where ip: "index_pairs stoi (record_size (attribute_types h)) (prev_pos e) (map (one_field j) rows) = (prev, res)"
    by fastforce
  show ?thesis
    using t(2) col(4) ty zero engine_load_eq[OF t, of "[column]"]
    by (cases res) (simp_all add: create_index_def sz heap_filter_single[OF col(1,2)] ip)
qed

lemma insert_avl_index:
  assumes "map_of (avl_indexes e) i = None"
  shows "insert_index env e i AVL (Inl ps) =
     (e\<lparr>avl_indexes := ht_put i (AvlInt (fst (avl_bulk_insert new_avl_index ps)))
          (ht_insert (env_index_rank env) i (AvlInt new_avl_index) (avl_indexes e))\<rparr>,
      bind_io (snd (avl_bulk_insert new_avl_index ps)) (\<lambda>_. Inr ()))"
  using assms by (simp add: insert_index_def ht_contains_def Let_def avl_bulk_def ht.lookup_insert split: prod.split)

lemma create_avl_index:
  assumes t: "distinct (map fst (tables_raw e))" "map_of (tables_raw e) name = Some h" "heap_repr (env_float env) h rows"
    and col: "find_idx (attribute_names h) column 0 = Some j" "j < 256" "j < length (attribute_types h)"
      "type_kind (attribute_types h ! j) = INT_t"
    and sz: "get_record_size h = record_size (attribute_types h)"
    and r: "create_index env e name column AVL = (e', Inr ())"
  obtains pairs where
    "map snd pairs = map (\<lambda>i. first_pos_from (total_size (attribute_types h)) (prev_pos e) + int (i * total_size (attribute_types h))) [0..<length rows]"
    "list_all2 (\<lambda>r p. bind_io (vector_at (m_fields r) (of_nat j)) stoi = Inr (fst p)) rows pairs"
    "map_of (avl_indexes e') (IndexId name column) = Some (AvlInt (fst (avl_bulk_insert new_avl_index pairs)))"
    "prev_pos e' = (if rows = [] then prev_pos e
       else Some (first_pos_from (total_size (attribute_types h)) (prev_pos e) + int ((length rows - 1) * total_size (attribute_types h))))"
proof -
  let ?i = "IndexId name column" and ?sz = "record_size (attribute_types h)"
  have u: "unat (of_nat j :: 8 word) = j" using col(2) by (simp add: unat_of_nat take_bit_eq_mod)
  have size: "unat ?sz = total_size (attribute_types h)" by (rule heap_repr_size[OF t(3)])
  obtain prev res where ip: "index_pairs stoi ?sz (prev_pos e) (map (one_field j) rows) = (prev, res)" by fastforce
  obtain ps where ps: "res = Inr ps" "insert_index env (e\<lparr>prev_pos := prev\<rparr>) ?i AVL (Inl ps) = (e', Inr ())"
    using r create_avl_index_eq[OF t col sz] ip by (auto split: sum.splits)
  have none: "map_of (avl_indexes (e\<lparr>prev_pos := prev\<rparr>)) ?i = None"
    using ps(2) by (auto simp: insert_index_def ht_contains_def split: if_splits)
  note e' = ps(2)[unfolded insert_avl_index[OF none]]
  note pos = index_pairs_positions[OF ip[unfolded ps(1)], unfolded size]
  show thesis
  proof (rule that)
    show "map snd ps = map (\<lambda>i. first_pos_from (total_size (attribute_types h)) (prev_pos e) + int (i * total_size (attribute_types h))) [0..<length rows]"
      using pos by simp
    show "list_all2 (\<lambda>r p. bind_io (vector_at (m_fields r) (of_nat j)) stoi = Inr (fst p)) rows ps"
      using pos u by (auto simp: list.rel_map one_field_def field_at_def vector_at_def list_all2_conv_all_nth split: if_splits)
    show "map_of (avl_indexes e') ?i = Some (AvlInt (fst (avl_bulk_insert new_avl_index ps)))"
      using e' none by (auto simp: ht.lookup_put ht.lookup_insert)
    show "prev_pos e' = (if rows = [] then prev_pos e
       else Some (first_pos_from (total_size (attribute_types h)) (prev_pos e) + int ((length rows - 1) * total_size (attribute_types h))))"
      using pos e' by auto
  qed
qed

end
