(* ===== verification/DbReach.thy ===== *)
theory DbReach
  imports DbQueries
begin

text \<open>
  Sequences of additions to a table that the engine made, a record that cannot be written, and the removal of a record.
\<close>

section \<open>Reachable tables\<close>

text \<open>
  \<open>engine_reach env name ki e rows m\<close>: \<open>create_table\<close> on an engine without the table, and then additions of records that
  can be written and whose key is not in front of all others, lead to \<open>e\<close>.  \<open>rows\<close> and \<open>m\<close> are what the specification has
  after the same additions: the records that were new, in canonical form, and their keys with the positions.
\<close>

definition writable :: "'i engine_env \<Rightarrow> heap_file \<Rightarrow> string list \<Rightarrow> bool" where
  "writable env h value \<longleftrightarrow> (\<exists>bs. record_write (env_float env) (attribute_types h) \<lparr>rec_status = OK, m_fields = value\<rparr> = Inr bs)"

definition new_table :: "'i engine_env \<Rightarrow> 'i engine \<Rightarrow> string \<Rightarrow> string \<Rightarrow> db_type list \<Rightarrow> string list \<Rightarrow> nat \<Rightarrow> bool" where
  "new_table env e name pk tys names ki \<longleftrightarrow>
     \<not> table_exists e name \<and> map_of (tables_raw e) name = None \<and> map_of (sequential_indexes e) (IndexId name pk) = None \<and>
     distinct (map fst (tables_raw e)) \<and> distinct (map fst (sequential_indexes e)) \<and>
     (\<exists>h. heap_construct name tys names pk [] 0 = Inr h \<and> key_column h ki) \<and>
     float_ok (env_float env) \<and> (\<forall>ty\<in>set tys. type_ok ty) \<and> total_size tys < 256"

inductive engine_reach ::
  "('i :: linorder) engine_env \<Rightarrow> string \<Rightarrow> nat \<Rightarrow> 'i engine \<Rightarrow> db_record list \<Rightarrow> int entries \<Rightarrow> bool"
  for env name ki where
  created: "new_table env e0 name pk tys names ki \<Longrightarrow> create_table env e0 name pk tys names = (e, Inr True) \<Longrightarrow>
    engine_reach env name ki e [] []"
| added: "engine_reach env name ki e rows m \<Longrightarrow> map_of (tables_raw e) name = Some h \<Longrightarrow> writable env h value \<Longrightarrow>
    stoi (value ! ki) = Inr k \<Longrightarrow> m = [] \<or> fst (hd m) \<le> k \<Longrightarrow> length rows < 2 ^ 64 - 1 \<Longrightarrow>
    engine_add env e name value = (e', Inr True) \<Longrightarrow>
    row_of (env_float env) (attribute_types h) \<lparr>rec_status = OK, m_fields = value\<rparr> row \<Longrightarrow>
    engine_reach env name ki e' (rows @ [row]) (insert_entry k (int (length (data_file h))) m)"
| refused: "engine_reach env name ki e rows m \<Longrightarrow> engine_add env e name value = (e', Inl RuntimeError) \<Longrightarrow>
    map_of (tables_raw e) name = Some h \<Longrightarrow> writable env h value \<Longrightarrow>
    stoi (value ! ki) = Inr k \<Longrightarrow> m = [] \<or> fst (hd m) \<le> k \<Longrightarrow> length rows < 2 ^ 64 - 1 \<Longrightarrow> engine_reach env name ki e' rows m"

definition table_inv :: "'i engine_env \<Rightarrow> 'i engine \<Rightarrow> string \<Rightarrow> nat \<Rightarrow> heap_file \<Rightarrow> db_record list \<Rightarrow> int entries \<Rightarrow> bool" where
  "table_inv env e name ki h rows m \<longleftrightarrow> (\<exists>s. table_ok env e name ki h s rows m \<and> seq_inv s m)"

lemma table_inv_table: "table_inv env e name ki h rows m \<Longrightarrow> map_of (tables_raw e) name = Some h"
  by (auto simp: table_inv_def table_ok_def table_open_def)

text \<open>One addition: refused exactly for a key that is there, and otherwise the specification takes the row.\<close>

lemma stored_as_unique: "stored_as fc ty s t \<Longrightarrow> stored_as fc ty s t' \<Longrightarrow> t = t'"
  by (auto simp: stored_as_def split: types.splits)

lemma row_of_unique:
  assumes "row_of fc tys r row" "row_of fc tys r row'"
  shows "row = row'"
proof -
  have "m_fields row ! i = m_fields row' ! i" if "i < length tys" for i
    using assms that stored_as_unique[of fc "tys ! i" "m_fields r ! i"] by (simp add: row_of_def)
  then have "m_fields row = m_fields row'" using assms by (auto simp: row_of_def intro: nth_equalityI)
  then show ?thesis using assms by (cases row; cases row') (simp add: row_of_def)
qed

lemma table_inv_add:
  assumes inv: "table_inv env e name ki h rows m" and w: "writable env h value" and k: "stoi (value ! ki) = Inr k"
    and front: "m = [] \<or> fst (hd m) \<le> k" and n: "length rows < 2 ^ 64 - 1"
  shows "if k \<in> fst ` set m then engine_add env e name value = (e, Inl RuntimeError)
     else \<exists>e' h' row. engine_add env e name value = (e', Inr True) \<and>
       row_of (env_float env) (attribute_types h) \<lparr>rec_status = OK, m_fields = value\<rparr> row \<and>
       table_inv env e' name ki h' (rows @ [row]) (insert_entry k (int (length (data_file h))) m)"
proof -
  obtain s bs where s: "table_ok env e name ki h s rows m" "seq_inv s m"
    and bs: "record_write (env_float env) (attribute_types h) \<lparr>rec_status = OK, m_fields = value\<rparr> = Inr bs"
    using inv w by (auto simp: table_inv_def writable_def)
  have op: "table_open env e name ki h s rows m" using table_okD[OF s(1)] by simp
  have ok: "front_ok s m k" using seq_inv_guards[OF s(2)] by simp
  show ?thesis
  proof (cases "k \<in> fst ` set m")
    case True
    have "key_column h ki" using op by (simp add: table_open_def)
    then have "ki < length value" using written_key[OF bs] by (simp add: key_column_def)
    from engine_add_known[OF op this k ok True] True show ?thesis by simp
  next
    case False
    obtain e' h' s' row where r: "engine_add env e name value = (e', Inr True)"
      "row_of (env_float env) (attribute_types h) \<lparr>rec_status = OK, m_fields = value\<rparr> row"
      "table_ok env e' name ki h' s' (rows @ [row]) (insert_entry k (int (length (data_file h))) m)"
      "\<exists>ps. seq_add (env_overlay_int env) True s k (int (length (data_file h))) = Inr (s', ps)"
      by (rule engine_add_new[OF s(1) bs k ok False n]) (rule that)
    have "seq_inv s' (insert_entry k (int (length (data_file h))) m)" using r(4) seq_inv_add[OF s(2) front] by blast
    with r False show ?thesis by (auto simp: table_inv_def)
  qed
qed

lemma new_table_inv:
  assumes "new_table env e0 name pk tys names ki" "create_table env e0 name pk tys names = (e, Inr True)"
  shows "\<exists>h. table_inv env e name ki h [] []"
proof -
  obtain h where h: "heap_construct name tys names pk [] 0 = Inr h" "key_column h ki"
    using assms(1) by (auto simp: new_table_def)
  have "table_ok env e name ki h createFile [] []"
    using create_table_ok[OF _ _ _ _ _ h, of e0 env] assms by (auto simp: new_table_def)
  moreover have "seq_inv createFile ([] :: int entries)"
    using createFile_repr by (simp add: seq_inv_def createFile_def)
  ultimately show ?thesis by (auto simp: table_inv_def)
qed

lemma engine_reach_inv: "engine_reach env name ki e rows m \<Longrightarrow> \<exists>h. table_inv env e name ki h rows m"
proof (induction rule: engine_reach.induct)
  case (created e0 pk tys names e)
  then show ?case by (rule new_table_inv)
next
  case (added e rows m h v k e' row)
  then obtain h0 where inv: "table_inv env e name ki h0 rows m" by blast
  then have "h0 = h" using table_inv_table[OF inv] added.hyps(2) by simp
  with inv have inv: "table_inv env e name ki h rows m" by simp
  note step = table_inv_add[OF inv added.hyps(3-6)]
  then have "k \<notin> fst ` set m" using added.hyps(7) by (auto split: if_splits)
  with step added.hyps(7) obtain h' row' where
    "row_of (env_float env) (attribute_types h) \<lparr>rec_status = OK, m_fields = v\<rparr> row'"
    "table_inv env e' name ki h' (rows @ [row']) (insert_entry k (int (length (data_file h))) m)"
    by auto
  moreover from this(1) added.hyps(8) have "row' = row" by (rule row_of_unique)
  ultimately show ?case by blast
next
  case (refused e rows m v e' h k)
  then obtain h0 where inv: "table_inv env e name ki h0 rows m" by blast
  then have "h0 = h" using table_inv_table[OF inv] refused.hyps(3) by simp
  with inv table_inv_add[of env e name ki h rows m v k] refused.hyps
  show ?case by (auto split: if_splits)
qed

section \<open>A record that cannot be written\<close>

text \<open>The index takes the key before the record is written; the exception leaves the key in the index.\<close>

lemma engine_add_unwritable_state:
  assumes ok: "table_open env e name ki h s rows m" and i: "ki < length value" and k: "stoi (value ! ki) = Inr k"
    and front: "front_ok s m k" and new: "k \<notin> fst ` set m"
    and w: "record_write (env_float env) (attribute_types h) \<lparr>rec_status = OK, m_fields = value\<rparr> = Inl err"
  obtains e' c' s' where "engine_add env e name value = (e', Inl err)"
    "pk_linked e' name ki (h\<lparr>stream := Some []\<rparr>) c' s'" "seq_repr s' (insert_entry k (int (length (data_file h))) m)"
    "\<exists>ps. seq_add (env_overlay_int env) True s k (int (length (data_file h))) = Inr (s', ps)"
proof -
  obtain c where c: "pk_linked e name ki h c s" by (rule table_open_linked[OF ok])
  have rep: "seq_repr s m" and closed: "opens h" using ok by (auto simp: table_open_def heap_repr_def)
  obtain s' ps where s': "seq_add (env_overlay_int env) True s k (int (length (data_file h))) = Inr (s', ps)" "ps \<noteq> []"
    "seq_repr s' (insert_entry k (int (length (data_file h))) m)"
    by (rule seq_add_fresh[OF rep front new])
  let ?h = "h\<lparr>stream := Some []\<rparr>" and ?c = "c\<lparr>sc_idx := SeqInt s'\<rparr>"
  let ?e = "engine_put name ?h (e\<lparr>sequential_indexes := ht_put (IndexId name (primary_key h)) ?c (sequential_indexes e)\<rparr>)"
  show thesis
  proof (rule that)
    show "engine_add env e name value = (?e, Inl err)"
      using engine_add_eq[OF c i k, of env] s'(1,2) closed w by (simp add: heap_add_def next_pos_def)
    show "pk_linked ?e name ki ?h ?c s'"
      using c by (simp add: pk_linked_def engine_put_def ht.lookup_put key_column_def pk_index_def)
    show "seq_repr s' (insert_entry k (int (length (data_file h))) m)" by (rule s'(3))
    show "\<exists>ps. seq_add (env_overlay_int env) True s k (int (length (data_file h))) = Inr (s', ps)" using s'(1) by blast
  qed
qed

section \<open>Removing a record\<close>

definition only_index :: "'i engine \<Rightarrow> index_id \<Rightarrow> bool" where
  "only_index e i \<longleftrightarrow> (\<forall>j\<in>fst ` set (sequential_indexes e). idx_table j = idx_table i \<longrightarrow> j = i)"

lemma add_loop_keys: "add_loop env i k v pos cs b = (cs', r) \<Longrightarrow> map fst cs' = map fst cs"
proof (induction cs arbitrary: b cs' r)
  case (Cons jd cs)
  then show ?case by (cases jd) (auto split: sum.splits prod.splits)
qed simp

lemma engine_add_index_keys:
  "engine_add env e name value = (e', r) \<Longrightarrow> map fst (sequential_indexes e') = map fst (sequential_indexes e)"
  by (auto simp: engine_add_def engine_put_def Let_def dest: add_loop_keys split: sum.splits prod.splits bool.splits)

lemma seq_repr_positions:
  assumes "seq_repr s m" "k \<in> fst ` set m"
  shows "lookup_entry k m \<noteq> []"
proof -
  obtain L where L: "seq_wf s L" "m = entries s L" using assms(1) by (auto simp: seq_repr_def)
  obtain ps where ps: "map_of m k = Some ps" using assms(2) by (metis map_of_eq_None_iff option.exhaust)
  then have "(k, ps) \<in> set m" by (rule map_of_SomeD)
  then obtain r where r: "r \<in> set L" "ps = positions s r" using L(2) by (auto simp: entry_def)
  then have "has_dups s r" using L(1) by (auto simp: seq_wf_def seq_links_def)
  then have "ps \<noteq> []" using r(2) by (auto simp: has_dups_def positions_chain)
  then show ?thesis by (simp add: lookup_entry_def ps)
qed

lemma remove_loop_others:
  "\<forall>j\<in>fst ` set cs. idx_table j \<noteq> name \<Longrightarrow> remove_loop env name t key cs raw = (cs, Inr raw)"
  by (induction cs arbitrary: raw) auto

lemma remove_loop_at:
  assumes "distinct (map fst cs)" "map_of cs i = Some c" "\<forall>j\<in>fst ` set cs. idx_table j = idx_table i \<longrightarrow> j = i"
    and "get_type_attribute h key = Inr ty" "key_cast_value (env_float env) (type_kind ty) (att_value key) = Inr (Some v)"
    and "container_remove env c v = (c', Inr p)"
  shows "remove_loop env (idx_table i) (Inr h) key cs raw = (ht_put i c' cs, Inr p)"
  using assms(1-3)
proof (induction cs arbitrary: raw)
  case (Cons jd cs)
  obtain j d where jd: "jd = (j, d)" by (cases jd)
  show ?case
  proof (cases "j = i")
    case True
    with Cons.prems jd have "d = c" "i \<notin> fst ` set cs" by auto
    moreover from this(2) Cons.prems(3) have "\<forall>j\<in>fst ` set cs. idx_table j \<noteq> idx_table i"
      by (metis image_insert insertCI list.simps(15))
    ultimately show ?thesis using True assms(4-6) jd ht_put_absent[of i cs]
      by (simp add: remove_loop_others ht_put_def)
  next
    case False
    with Cons.prems jd have "map_of cs i = Some c" "distinct (map fst cs)" "idx_table j \<noteq> idx_table i"
      "\<forall>j\<in>fst ` set cs. idx_table j = idx_table i \<longrightarrow> j = i" by auto
    then show ?thesis using Cons.IH[of raw] False jd by (simp add: ht_put_def)
  qed
qed simp

lemma engine_remove_eq:
  assumes ok: "table_ok env e name ki h s rows m" and only: "only_index e (IndexId name (primary_key h))"
    and k: "stoi text = Inr k" and known: "k \<in> fst ` set m" and rm: "removable s k"
  obtains e1 c' s' p where "engine_remove env e name (Attribute (primary_key h) text) =
      (case heap_remove (env_float env) h p of (h1, r) \<Rightarrow> (engine_put name h1 e1, bind_io r (\<lambda>_. Inr True)))"
    "pk_linked e1 name ki h c' s'" "seq_repr s' (delete_entry k m)" "p \<in> set (lookup_entry k m)"
proof -
  let ?i = "IndexId name (primary_key h)" and ?key = "Attribute (primary_key h) text"
  have op: "table_open env e name ki h s rows m" using table_okD[OF ok] by simp
  obtain c where c: "pk_linked e name ki h c s" by (rule table_open_linked[OF op])
  have rep: "seq_repr s m" using op by (simp add: table_open_def)
  obtain s' where s': "seq_remove s k = Inr (s', [hd (lookup_entry k m)])" "seq_repr s' (delete_entry k m)"
    using seq_remove_repr[OF rep rm] known by auto
  let ?p = "hd (lookup_entry k m)" and ?c = "c\<lparr>sc_idx := SeqInt s'\<rparr>"
  have p: "?p \<in> set (lookup_entry k m)" using seq_repr_positions[OF rep known] by simp
  then have "0 \<le> ?p" using table_okD[OF ok] stoi_range[OF k] by (auto simp: indexed_rows_def)
  then have np: "?p \<noteq> - 1" by simp
  have key: "key_column h ki" using c by (simp add: pk_linked_def)
  have ty: "type_kind (attribute_types h ! ki) = INT_t" using key by (simp add: key_column_def)
  have crm: "container_remove env c (VInt k) = (?c, Inr ?p)"
    using c s'(1) by (simp add: pk_linked_def pk_index_def container_remove_def)
  have d: "distinct (map fst (sequential_indexes e))" "map_of (sequential_indexes e) ?i = Some c"
    using c by (simp_all add: pk_linked_def)
  have o: "\<forall>j\<in>fst ` set (sequential_indexes e). idx_table j = idx_table ?i \<longrightarrow> j = ?i"
    using only unfolding only_index_def .
  have g: "get_type_attribute h ?key = Inr (attribute_types h ! ki)"
    using key_column_type(1)[OF key] by (simp add: get_type_attribute_def)
  have v: "key_cast_value (env_float env) (type_kind (attribute_types h ! ki)) (att_value ?key) = Inr (Some (VInt k))"
    by (simp add: ty k)
  have loop: "remove_loop env name (Inr h) ?key (sequential_indexes e) 0 = (ht_put ?i ?c (sequential_indexes e), Inr ?p)"
    using remove_loop_at[OF d o g v crm, of 0] by simp
  let ?e1 = "e\<lparr>sequential_indexes := ht_put ?i ?c (sequential_indexes e)\<rparr>"
  show thesis
  proof (rule that)
    show "engine_remove env e name ?key =
        (case heap_remove (env_float env) h ?p of (h1, r) \<Rightarrow> (engine_put name h1 ?e1, bind_io r (\<lambda>_. Inr True)))"
      using c loop np by (simp add: engine_remove_def pk_linked_def)
    show "pk_linked ?e1 name ki h ?c s'"
      using c by (simp add: pk_linked_def ht.lookup_put pk_index_def)
  qed (use s' p in auto)
qed

end
