(* ===== verification/DbTheorems.thy ===== *)
theory DbTheorems
  imports DbReach SeqExample
begin

text \<open>
  The properties of the engine, which span its tables and their indexes, and the engine that their examples are
  stated on: it starts on an empty disk and makes the table \<open>t\<close>.
\<close>

section \<open>An example\<close>

definition demo_env :: "int engine_env" where
  "demo_env = \<lparr>env_float = demo_float, env_key = (\<lambda>_. 0), env_table_rank = (\<lambda>_ _. 0), env_index_rank = (\<lambda>_ _. 0),
     env_overlay_int = demo_overlay, env_overlay_float = demo_overlay, env_sort_int = id, env_sort_float = id,
     env_isam_sort_int = id, env_isam_sort_float = id, env_memory_int = ([], []), env_memory_float = ([], []), env_clock = 0\<rparr>"

definition demo_engine :: "int engine" where
  "demo_engine = \<lparr>table_dirs = [''t''], tables_raw = [(''t'', demo_heap)], avl_indexes = [], isam_indexes = [],
     sequential_indexes = [(IndexId ''t'' ''id'', \<lparr>sc_table = ''t'', sc_attribute = ''id'', sc_pk = True, sc_idx = SeqInt createFile\<rparr>)],
     index_map = [], isam_meta_file = None, prev_pos = None\<rparr>"

lemma demo_key_column: "key_column demo_heap 0"
  by (simp add: key_column_def demo_heap_def demo_types_def)

lemma demo_engine_created:
  "\<exists>e0. engine_construct [] = Inr e0 \<and>
     create_table demo_env e0 ''t'' ''id'' demo_types [''id'', ''name'', ''flag''] = (demo_engine, Inr True)"
proof -
  let ?e0 = "\<lparr>table_dirs = [], tables_raw = [], avl_indexes = [], isam_indexes = [], sequential_indexes = [],
    index_map = [], isam_meta_file = None, prev_pos = None\<rparr> :: int engine"
  have "create_table demo_env ?e0 ''t'' ''id'' demo_types [''id'', ''name'', ''flag''] = (demo_engine, Inr True)"
    using create_table_eq[of ?e0 "''t''", OF _ _ demo_heap_constructed demo_key_column, of demo_env]
    by (simp add: table_exists_def demo_engine_def ht_insert_def ht_contains_def)
  then show ?thesis by (simp add: engine_construct_def)
qed

lemma demo_engine_ok: "table_ok demo_env demo_engine ''t'' 0 demo_heap createFile [] []"
  using demo_heap_repr demo_key_column createFile_repr
  by (simp add: table_ok_def table_open_def demo_engine_def demo_env_def pk_index_def demo_heap_def indexed_rows_empty)

lemma demo_engine_sole: "sole_index demo_engine (IndexId ''t'' ''id'')"
  by (simp add: sole_index_def demo_engine_def)

definition demo_value :: "string list" where
  "demo_value = ['' +42'', ''a'', ''Si'']"

lemma demo_value_written: "\<exists>bs. record_write (env_float demo_env) (attribute_types demo_heap) \<lparr>rec_status = OK, m_fields = demo_value\<rparr> = Inr bs"
  using demo_record_written by (simp add: demo_env_def demo_heap_types demo_value_def demo_record_def)

lemma demo_value_key: "stoi (demo_value ! 0) = Inr 42"
  by code_simp

text \<open>The example table after the addition of its first row.\<close>

lemma demo_row_table:
  obtains e h s row where "engine_add demo_env demo_engine ''t'' demo_value = (e, Inr True)"
    "table_ok demo_env e ''t'' 0 h s [row] [(42, [0])]" "primary_key h = ''id''" "attribute_types h = demo_types"
    "seq_inv s [(42, [0])]" "attribute_idxs h [''id''] = Inr [0]" "filter_record [0] row = \<lparr>rec_status = OK, m_fields = [''42'']\<rparr>"
proof -
  obtain bs where bs: "record_write (env_float demo_env) (attribute_types demo_heap) \<lparr>rec_status = OK, m_fields = demo_value\<rparr> = Inr bs"
    using demo_value_written by blast
  have pk: "primary_key demo_heap = ''id''" and entry: "insert_entry 42 (int (length (data_file demo_heap))) [] = [(42 :: int, [0])]"
    by (simp_all add: demo_heap_def)
  have front: "front_ok createFile [] (42 :: int)" and n: "length ([] :: db_record list) < 2 ^ 64 - 1"
    and new: "(42 :: int) \<notin> fst ` set ([] :: int entries)" by (simp_all add: front_ok_def)
  obtain e h s row where e: "engine_add demo_env demo_engine ''t'' demo_value = (e, Inr True)"
    "table_ok demo_env e ''t'' 0 h s ([] @ [row]) (insert_entry 42 (int (length (data_file demo_heap))) [])"
    "primary_key h = primary_key demo_heap" "attribute_types h = attribute_types demo_heap"
    "\<exists>ps. seq_add (env_overlay_int demo_env) True createFile 42 (int (length (data_file demo_heap))) = Inr (s, ps)"
    "row_of (env_float demo_env) (attribute_types demo_heap) \<lparr>rec_status = OK, m_fields = demo_value\<rparr> row"
    by (rule engine_add_new[OF demo_engine_ok bs demo_value_key front new n]) (rule that)
  have "seq_inv createFile ([] :: int entries)" using createFile_repr by (simp add: seq_inv_def createFile_def)
  then have inv: "seq_inv s (insert_entry 42 (int (length (data_file demo_heap))) [])" using e(5) seq_inv_add by blast
  have "int_string 42 = ''42''" by code_simp
  then have "length (m_fields row) = 3" "m_fields row ! 0 = ''42''" "rec_status row = OK"
    using e(6) demo_value_key by (auto simp: row_of_def demo_heap_types demo_types_def stored_as_def dest: spec[of _ 0])
  then have row: "filter_record [0] row = \<lparr>rec_status = OK, m_fields = [''42'']\<rparr>"
    using filter_record_single[of 0 row] by (simp add: one_field_def)
  have "key_column h 0" using e(2) by (simp add: table_ok_def table_open_def)
  then have "attribute_idxs h [''id''] = Inr [0]" by (simp add: key_column_def e(3) pk get_attribute_idx_def)
  then show thesis using e(1-4) inv row unfolding entry pk demo_heap_types by (intro that) simp_all
qed

section \<open>Properties\<close>

text \<open>
  C4: On a table with an integer key whose index finds every row, \<open>add\<close> of a record that can be written, where the header of the
  index points into its index file or the key is not in front of all others (\<open>front_ok\<close>), refuses a key that is there: it throws
  and changes nothing.  A new key gets its record to the end of the heap file and its position into the index; the index
  still finds every row, and a search of any key by its text returns exactly the rows with that key, in
  canonical form, provided no other table has an index on an attribute of the same name.
\<close>

theorem engine_add_then_search:
  assumes "table_ok env e name ki h s rows m"
    and "record_write (env_float env) (attribute_types h) \<lparr>rec_status = OK, m_fields = value\<rparr> = Inr bs"
    and "stoi (value ! ki) = Inr k" "front_ok s m k" "length rows < 2 ^ 64 - 1"
    and "sole_index e (IndexId name (primary_key h))"
  shows "if k \<in> fst ` set m then engine_add env e name value = (e, Inl RuntimeError)
     else \<exists>e' h' s' row. engine_add env e name value = (e', Inr True) \<and>
       row_of (env_float env) (attribute_types h) \<lparr>rec_status = OK, m_fields = value\<rparr> row \<and>
       table_ok env e' name ki h' s' (rows @ [row]) (insert_entry k (int (length (data_file h))) m) \<and>
       (\<forall>text k' expr selected. stoi text = Inr k' \<longrightarrow>
          engine_search env e' name (Attribute (primary_key h) text) expr selected =
            (e', heap_filter h' (filter (\<lambda>r. m_fields r ! ki = int_string k' \<and> expr r) (rows @ [row])) selected
                   [(''SEQUENTIAL_SINGLE_SEARCH'', env_clock env)]))"
proof (cases "k \<in> fst ` set m")
  case True
  have op: "table_open env e name ki h s rows m" using table_okD[OF assms(1)] by simp
  then have "key_column h ki" by (auto elim: table_openE)
  then have "ki < length value" using written_key[OF assms(2)] by (simp add: key_column_def)
  from engine_add_known[OF op this assms(3,4) True] True show ?thesis by simp
next
  case False
  obtain e' h' s' row where r: "engine_add env e name value = (e', Inr True)"
    "row_of (env_float env) (attribute_types h) \<lparr>rec_status = OK, m_fields = value\<rparr> row"
    "table_ok env e' name ki h' s' (rows @ [row]) (insert_entry k (int (length (data_file h))) m)"
    "primary_key h' = primary_key h" "sole_index e' (IndexId name (primary_key h))"
    using engine_add_new[OF assms(1-4) False assms(5)] assms(6) by metis
  have "sole_index e' (IndexId name (primary_key h'))" using r(4,5) by simp
  from engine_search_rows[OF r(3) this, unfolded r(4)] r(1-3) False show ?thesis by (simp only: if_False) blast
qed

lemma engine_add_then_search_witness:
  "\<exists>e' h' s' row. engine_add demo_env demo_engine ''t'' demo_value = (e', Inr True) \<and>
     table_ok demo_env e' ''t'' 0 h' s' [row] [(42, [0])]"
proof -
  obtain bs where bs: "record_write (env_float demo_env) (attribute_types demo_heap) \<lparr>rec_status = OK, m_fields = demo_value\<rparr> = Inr bs"
    using demo_value_written by blast
  have pk: "primary_key demo_heap = ''id''" and data: "data_file demo_heap = []" by (simp_all add: demo_heap_def)
  have front: "front_ok createFile [] (42 :: int)" by (simp add: front_ok_def)
  have n: "length ([] :: db_record list) < 2 ^ 64 - 1" by simp
  have sole: "sole_index demo_engine (IndexId ''t'' (primary_key demo_heap))" unfolding pk by (rule demo_engine_sole)
  have "(42 :: int) \<notin> fst ` set ([] :: int entries)" by simp
  with engine_add_then_search[OF demo_engine_ok bs demo_value_key front n sole] obtain e' h' s' row where
    "engine_add demo_env demo_engine ''t'' demo_value = (e', Inr True)"
    "table_ok demo_env e' ''t'' 0 h' s' ([] @ [row]) (insert_entry 42 (int (length (data_file demo_heap))) [])"
    by (auto simp only: if_False)
  then show ?thesis unfolding data by auto
qed

text \<open>
  C35: \<open>drop_table\<close> keeps the index of the primary key.  A table that is made again under the same name, even with
  other columns, has no rows, but a record with a key of the dropped table is refused as already there, and
  nothing changes.
\<close>

theorem engine_recreated_table_refuses:
  assumes "table_ok env e name ki h s rows m" "name \<noteq> []" "\<forall>i\<in>fst ` set (avl_indexes e). idx_table i \<noteq> name"
    and "heap_construct name tys names (primary_key h) [] 0 = Inr h'" "key_column h' ki'"
    and "\<forall>ty\<in>set tys. type_ok ty" "total_size tys < 256"
    and "ki' < length value" "stoi (value ! ki') = Inr k" "front_ok s m k" "k \<in> fst ` set m"
  shows "\<exists>e1 e2. drop_table e name = (e1, Inr ()) \<and> is_table e1 name = False \<and>
     create_table env e1 name (primary_key h) tys names = (e2, Inr True) \<and>
     engine_load env e2 name [] = (e2, Inr \<lparr>qr_records = [], query_times = [(''LOAD'', env_clock env)]\<rparr>) \<and>
     engine_add env e2 name value = (e2, Inl RuntimeError)"
proof -
  have op: "table_open env e name ki h s rows m" using table_okD[OF assms(1)] by simp
  obtain e1 e2 where e: "drop_table e name = (e1, Inr ())"
    "create_table env e1 name (primary_key h) tys names = (e2, Inr True)" "table_open env e2 name ki' h' s [] m"
    using recreated_table[OF op assms(2-7)] by blast
  have "is_table e1 name = False"
    using e(1) by (auto simp: drop_table_eq[OF assms(3)] is_table_def ht_contains_def ht.lookup_erase)
  moreover have "engine_load env e2 name [] = (e2, Inr \<lparr>qr_records = [], query_times = [(''LOAD'', env_clock env)]\<rparr>)"
    using e(3) by (auto simp: engine_load_eq heap_filter_def elim!: table_openE)
  moreover have "engine_add env e2 name value = (e2, Inl RuntimeError)"
    by (rule engine_add_known[OF e(3) assms(8-11)])
  ultimately show ?thesis using e(1,2) by blast
qed

lemma engine_recreated_table_refuses_witness:
  "\<exists>e e1 e2. engine_add demo_env demo_engine ''t'' demo_value = (e, Inr True) \<and>
     drop_table e ''t'' = (e1, Inr ()) \<and>
     create_table demo_env e1 ''t'' ''id'' demo_types [''id'', ''name'', ''flag''] = (e2, Inr True) \<and>
     engine_add demo_env e2 ''t'' demo_value = (e2, Inl RuntimeError)"
proof -
  obtain e h s row where e: "engine_add demo_env demo_engine ''t'' demo_value = (e, Inr True)"
    "table_ok demo_env e ''t'' 0 h s [row] [(42, [0])]" "primary_key h = ''id''" "seq_inv s [(42, [0])]"
    by (rule demo_row_table)
  have avl: "\<forall>i\<in>fst ` set (avl_indexes e). idx_table i \<noteq> ''t''"
    using engine_add_avl[OF e(1)] by (simp add: demo_engine_def)
  have h': "heap_construct ''t'' demo_types [''id'', ''name'', ''flag''] (primary_key h) [] 0 = Inr demo_heap"
    using demo_heap_constructed by (simp add: e(3))
  have len: "0 < length demo_value" by (simp add: demo_value_def)
  have known: "front_ok s [(42, [0])] 42" "42 \<in> fst ` set [(42 :: int, [0 :: int])]" by (simp_all add: front_ok_def)
  have total: "total_size demo_types < 256" by (simp add: demo_total)
  from engine_recreated_table_refuses[OF e(2) _ avl h' demo_key_column demo_types_ok(2) total len demo_value_key known]
  show ?thesis using e(1) by (auto simp: e(3))
qed

text \<open>
  C37: \<open>create_index\<close> of an AVL index on an integer column gives the rows of a table the positions from the one where its
  static variable stands, whatever the table.  The first index that is created gets the positions of the
  rows.  Where an index was created before and the static variable stands at \<open>p\<close>, the positions start one record of this table
  behind \<open>p\<close>; if the rows end there or before, every position lies behind the rows, and reading at it gives an empty
  record.
\<close>

theorem create_index_positions:
  assumes "distinct (map fst (tables_raw e))" "map_of (tables_raw e) name = Some h" "heap_repr (env_float env) h rows"
    and "find_idx (attribute_names h) column 0 = Some j" "j < 256" "j < length (attribute_types h)"
      "type_kind (attribute_types h ! j) = INT_t" "get_record_size h = record_size (attribute_types h)"
    and "0 < total_size (attribute_types h)" "create_index env e name column AVL = (e', Inr ())"
  shows "\<exists>pairs. map_of (avl_indexes e') (IndexId name column) = Some (AvlInt (fst (avl_bulk_insert new_avl_index pairs))) \<and>
     list_all2 (\<lambda>r p. bind_io (vector_at (m_fields r) (of_nat j)) stoi = Inr (fst p)) rows pairs \<and>
     (prev_pos e = None \<longrightarrow> map snd pairs = map (\<lambda>i. int (i * total_size (attribute_types h))) [0..<length rows] \<and>
        (\<forall>i<length rows. heap_read (env_float env) h (snd (pairs ! i)) = (h, Inr (rows ! i))) \<and>
        (rows \<noteq> [] \<longrightarrow> prev_pos e' = Some (int (length (data_file h)) - int (total_size (attribute_types h))))) \<and>
     (\<forall>p. prev_pos e = Some p \<longrightarrow> map snd pairs = map (\<lambda>i. p + int (Suc i * total_size (attribute_types h))) [0..<length rows]) \<and>
     (\<forall>p. prev_pos e = Some p \<longrightarrow> int (length (data_file h)) \<le> p + int (total_size (attribute_types h)) \<longrightarrow>
        (\<forall>q\<in>set (map snd pairs). heap_read (env_float env) h q = (h, Inr empty_record)))"
proof -
  let ?sz = "total_size (attribute_types h)"
  obtain pairs where p: "map snd pairs = map (\<lambda>i. first_pos_from ?sz (prev_pos e) + int (i * ?sz)) [0..<length rows]"
    "list_all2 (\<lambda>r p. bind_io (vector_at (m_fields r) (of_nat j)) stoi = Inr (fst p)) rows pairs"
    "map_of (avl_indexes e') (IndexId name column) = Some (AvlInt (fst (avl_bulk_insert new_avl_index pairs)))"
    "prev_pos e' = (if rows = [] then prev_pos e else Some (first_pos_from ?sz (prev_pos e) + int ((length rows - 1) * ?sz)))"
    using create_avl_index[OF assms(1-8,10)] by metis
  have len: "length pairs = length rows" using p(2) by (simp add: list_all2_lengthD)
  have size: "int (length (data_file h)) = int (length rows) * int ?sz" using assms(3) by (simp add: heap_repr_def)
  have first: "map snd pairs = map (\<lambda>i. int (i * ?sz)) [0..<length rows]" if "prev_pos e = None"
    using p(1) that by (simp add: first_pos_from_def)
  have later: "map snd pairs = map (\<lambda>i. p0 + int (Suc i * ?sz)) [0..<length rows]" if "prev_pos e = Some p0" for p0
    using p(1) that by (simp add: first_pos_from_def add.assoc)
  have reads: "heap_read (env_float env) h (snd (pairs ! i)) = (h, Inr (rows ! i))" if "prev_pos e = None" "i < length rows" for i
  proof -
    have "snd (pairs ! i) = map snd pairs ! i" using that len by simp
    also have "\<dots> = int (i * ?sz)" using p(1) that by (simp add: first_pos_from_def)
    finally show ?thesis using heap_repr_read[OF assms(3) that(2)] by simp
  qed
  have last: "prev_pos e' = Some (int (length (data_file h)) - int ?sz)" if "prev_pos e = None" "rows \<noteq> []"
    using p(4) that size by (cases rows) (auto simp: first_pos_from_def algebra_simps)
  have behind: "heap_read (env_float env) h q = (h, Inr empty_record)"
    if "prev_pos e = Some p0" "int (length (data_file h)) \<le> p0 + int ?sz" "q \<in> set (map snd pairs)" for p0 q
  proof -
    have "p0 + int ?sz \<le> q" using that(1,3) unfolding p(1) by (auto simp: first_pos_from_def)
    then show ?thesis using heap_read_behind[OF assms(3), of q] that(2) assms(9) by fastforce
  qed
  show ?thesis
    by (intro exI[of _ pairs] conjI impI allI ballI)
      (rule p(2,3) first later reads last behind, assumption+ | rule p(2,3) | erule first)+
qed

lemma demo_avl_one: "snd (avl_bulk_insert (new_avl_index :: int avl_index) [(42, 0)]) = Inr ([], [])"
  by code_simp

text \<open>The example table with one row.\<close>

lemma demo_one_row:
  obtains h row where "heap_repr demo_float h [row]" "attribute_types h = demo_types"
    "attribute_names h = [''id'', ''name'', ''flag'']" "c_record_size h = record_size demo_types"
    "length (m_fields row) = 3" "m_fields row ! 0 = ''42''" "m_fields row ! 2 = ''true''"
proof -
  obtain bs where bs: "record_write demo_float (attribute_types demo_heap) demo_record = Inr bs"
    using demo_record_written by (auto simp: demo_heap_types)
  have n: "length ([] :: db_record list) < 2 ^ 64 - 1" by simp
  obtain h row where h: "heap_add demo_float demo_heap demo_record = (h, Inr (int (length (data_file demo_heap))))"
    "heap_repr demo_float h ([] @ [row])" "row_of demo_float (attribute_types demo_heap) demo_record row"
    "attribute_types h = attribute_types demo_heap"
    by (rule heap_repr_add[OF demo_heap_repr bs n])
  have nm: "attribute_names h = [''id'', ''name'', ''flag'']" "c_record_size h = record_size demo_types"
    using h(1) bs by (auto simp: heap_add_def Let_def write_metadata_def demo_heap_def split: if_splits)
  have cast: "stoi '' +42'' = Inr 42" "int_string 42 = ''42''" "stob ''Si''" by code_simp+
  have "length (m_fields row) = 3" "m_fields row ! 0 = ''42''" "m_fields row ! 2 = ''true''"
    using h(3) cast by (auto simp: row_of_def demo_heap_types demo_types_def demo_record_def stored_as_def
        dest: spec[of _ 0] spec[of _ "2 :: nat"])
  with h nm show thesis by (intro that[of h row]) (simp_all add: demo_heap_types)
qed

lemma demo_row_engine:
  assumes "heap_repr demo_float h rows"
  shows "distinct (map fst (tables_raw (demo_engine\<lparr>tables_raw := [(''t'', h)]\<rparr>)))"
    "map_of (tables_raw (demo_engine\<lparr>tables_raw := [(''t'', h)]\<rparr>)) ''t'' = Some h" "heap_repr (env_float demo_env) h rows"
  using assms by (simp_all add: demo_env_def)

lemma create_index_positions_witness:
  "\<exists>h e' pairs. map_of (avl_indexes e') (IndexId ''t'' ''id'') = Some (AvlInt (fst (avl_bulk_insert new_avl_index pairs))) \<and>
     map snd pairs = [0] \<and> create_index demo_env (demo_engine\<lparr>tables_raw := [(''t'', h)]\<rparr>) ''t'' ''id'' AVL = (e', Inr ())"
proof -
  obtain h row where h: "heap_repr demo_float h [row]" "attribute_types h = demo_types"
    "attribute_names h = [''id'', ''name'', ''flag'']" "c_record_size h = record_size demo_types"
    "length (m_fields row) = 3" "m_fields row ! 0 = ''42''"
    by (rule demo_one_row)
  let ?e = "demo_engine\<lparr>tables_raw := [(''t'', h)]\<rparr>"
  note t = demo_row_engine[OF h(1)]
  have col: "find_idx (attribute_names h) ''id'' 0 = Some 0" "(0 :: nat) < 256" "0 < length (attribute_types h)"
    "type_kind (attribute_types h ! 0) = INT_t" "get_record_size h = record_size (attribute_types h)"
    "0 < total_size (attribute_types h)"
    using h by (simp_all add: demo_types_def get_record_size_def)
  have key: "stoi ''42'' = Inr 42" by code_simp
  have "index_pairs stoi (record_size (attribute_types h)) (prev_pos ?e) (map (one_field 0) [row]) = (Some 0, Inr [(42, 0)])"
    using h(5,6) key by (simp add: one_field_def field_at_def demo_engine_def pos_getter_def)
  moreover have none: "map_of (avl_indexes (?e\<lparr>prev_pos := Some 0\<rparr>)) (IndexId ''t'' ''id'') = None" by (simp add: demo_engine_def)
  ultimately obtain e' where e': "create_index demo_env ?e ''t'' ''id'' AVL = (e', Inr ())"
    using create_avl_index_eq[OF t col(1-5)] insert_avl_index[OF none, of demo_env "[(42, 0)]"] demo_avl_one by simp
  have "prev_pos ?e = None" by (simp add: demo_engine_def)
  with create_index_positions[OF t col e'] obtain pairs where
    "map_of (avl_indexes e') (IndexId ''t'' ''id'') = Some (AvlInt (fst (avl_bulk_insert new_avl_index pairs)))" "map snd pairs = [0]"
    by auto
  with e' show ?thesis by (intro exI[of _ h] exI[of _ e'] exI[of _ pairs] conjI)
qed

text \<open>
  C38: \<open>load\<close> with a condition applies the selection twice.  With one selected attribute that is not the first one of the
  table, the condition sees records of one field, and the rows it selects come back without any field.
\<close>

theorem engine_load_expr_loses_fields:
  assumes "distinct (map fst (tables_raw e))" "map_of (tables_raw e) name = Some h" "heap_repr (env_float env) h rows"
    and "find_idx (attribute_names h) a 0 = Some j" "0 < j" "j < 256" "\<forall>r\<in>set rows. j < length (m_fields r)"
  shows "engine_load_expr env e name [a] expr =
     (e, Inr \<lparr>qr_records = map (\<lambda>r. r\<lparr>m_fields := []\<rparr>) (filter (\<lambda>r. expr (r\<lparr>m_fields := [m_fields r ! j]\<rparr>)) rows),
              query_times = [(''LOAD'', env_clock env)]\<rparr>)"
proof -
  have "filter expr (map (one_field j) rows) = map (one_field j) (filter (\<lambda>r. expr (r\<lparr>m_fields := [m_fields r ! j]\<rparr>)) rows)"
    using assms(7) by (induction rows) (auto simp: one_field_def)
  moreover have "\<forall>r\<in>set rows. one_field j (one_field j r) = r\<lparr>m_fields := []\<rparr>"
    using assms(5,7) by (simp add: one_field_def)
  ultimately show ?thesis
    by (simp add: engine_load_expr_def engine_load_eq[OF assms(1-3)] assms(2) heap_filter_single[OF assms(4,6)])
qed

lemma engine_load_expr_loses_fields_witness:
  "\<exists>h row. snd (engine_load_expr demo_env (demo_engine\<lparr>tables_raw := [(''t'', h)]\<rparr>) ''t'' [''flag''] (\<lambda>r. m_fields r = [''true''])) =
     Inr \<lparr>qr_records = [row\<lparr>m_fields := []\<rparr>], query_times = [(''LOAD'', 0)]\<rparr> \<and> m_fields row ! 2 = ''true''"
proof -
  obtain h row where h: "heap_repr demo_float h [row]" "attribute_types h = demo_types"
    "attribute_names h = [''id'', ''name'', ''flag'']" "c_record_size h = record_size demo_types"
    "length (m_fields row) = 3" "m_fields row ! 0 = ''42''" "m_fields row ! 2 = ''true''"
    by (rule demo_one_row)
  have "find_idx (attribute_names h) ''flag'' 0 = Some 2" "(0 :: nat) < 2" "(2 :: nat) < 256" "\<forall>r\<in>set [row]. 2 < length (m_fields r)"
    using h by simp_all
  from engine_load_expr_loses_fields[OF demo_row_engine[OF h(1)] this, of "\<lambda>r. m_fields r = [''true'']"] h(7)
  show ?thesis by (intro exI[of _ h] exI[of _ row]) (simp add: demo_env_def)
qed

text \<open>
  C1: From \<open>create_table\<close> on, whatever records with integer keys are added, as long as they can be written and no key is in
  front of all others: the table holds exactly the rows of the specification, its index has their keys in
  order and finds each row, \<open>load\<close> returns the rows in the order they were added, and the next record, if it also can be
  written and its key is not in front of all others, is refused with an exception if its key is there, and is taken
  otherwise, to a table that is reachable again.
\<close>

theorem engine_reachable:
  assumes "engine_reach env name ki e rows m"
  shows "\<exists>h. table_inv env e name ki h rows m \<and> ordered m \<and>
     (\<forall>selected. engine_load env e name selected = (e, heap_filter h rows selected [(''LOAD'', env_clock env)])) \<and>
     (\<forall>v k. writable env h v \<longrightarrow> stoi (v ! ki) = Inr k \<longrightarrow> m = [] \<or> fst (hd m) \<le> k \<longrightarrow> length rows < 2 ^ 64 - 1 \<longrightarrow>
        (if k \<in> fst ` set m then engine_add env e name v = (e, Inl RuntimeError)
         else \<exists>e' row. engine_add env e name v = (e', Inr True) \<and>
           engine_reach env name ki e' (rows @ [row]) (insert_entry k (int (length (data_file h))) m)))"
proof -
  obtain h where inv: "table_inv env e name ki h rows m" using engine_reach_inv[OF assms] by blast
  then obtain s where s: "table_ok env e name ki h s rows m" "seq_inv s m" by (auto simp: table_inv_def)
  then have t: "distinct (map fst (tables_raw e))" "map_of (tables_raw e) name = Some h" "heap_repr (env_float env) h rows"
    by (auto simp: table_ok_def table_open_def)
  have "ordered m" using s(2) seq_repr_ordered by (auto simp: seq_inv_def)
  moreover have "if k \<in> fst ` set m then engine_add env e name v = (e, Inl RuntimeError)
      else \<exists>e' row. engine_add env e name v = (e', Inr True) \<and>
        engine_reach env name ki e' (rows @ [row]) (insert_entry k (int (length (data_file h))) m)"
    if v: "writable env h v" "stoi (v ! ki) = Inr k" "m = [] \<or> fst (hd m) \<le> k" "length rows < 2 ^ 64 - 1" for v k
    using table_inv_add[OF inv v] engine_reach.added[OF assms t(2) v] by (auto split: if_splits)
  ultimately show ?thesis
    by (intro exI[of _ h] conjI allI impI) (rule inv engine_load_eq[OF t] | assumption)+
qed

lemma demo_reach_new: "\<exists>e0. new_table demo_env e0 ''t'' ''id'' demo_types [''id'', ''name'', ''flag''] 0 \<and>
    create_table demo_env e0 ''t'' ''id'' demo_types [''id'', ''name'', ''flag''] = (demo_engine, Inr True)"
proof -
  obtain e0 where e0: "engine_construct [] = Inr e0"
    "create_table demo_env e0 ''t'' ''id'' demo_types [''id'', ''name'', ''flag''] = (demo_engine, Inr True)"
    using demo_engine_created by blast
  have "new_table demo_env e0 ''t'' ''id'' demo_types [''id'', ''name'', ''flag''] 0"
    using e0(1) demo_heap_constructed demo_key_column demo_types_ok
    by (auto simp: new_table_def engine_construct_def table_exists_def demo_env_def demo_total)
  with e0 show ?thesis by blast
qed

lemma engine_reachable_witness:
  "\<exists>e' row. engine_add demo_env demo_engine ''t'' demo_value = (e', Inr True) \<and>
     engine_reach demo_env ''t'' 0 e' [row] [(42, [0])]"
proof -
  have "engine_reach demo_env ''t'' 0 demo_engine [] []"
    using demo_reach_new engine_reach.created by blast
  from engine_reachable[OF this] obtain h where h: "table_inv demo_env demo_engine ''t'' 0 h [] []"
    "\<forall>v k. writable demo_env h v \<longrightarrow> stoi (v ! 0) = Inr k \<longrightarrow> ([] :: int entries) = [] \<or> fst (hd ([] :: int entries)) \<le> k \<longrightarrow>
        length ([] :: db_record list) < 2 ^ 64 - 1 \<longrightarrow>
        (if k \<in> fst ` set ([] :: int entries) then engine_add demo_env demo_engine ''t'' v = (demo_engine, Inl RuntimeError)
         else \<exists>e' row. engine_add demo_env demo_engine ''t'' v = (e', Inr True) \<and>
           engine_reach demo_env ''t'' 0 e' ([] @ [row]) (insert_entry k (int (length (data_file h))) []))"
    by (elim exE conjE) (rule that)
  have "h = demo_heap" using table_inv_table[OF h(1)] by (simp add: demo_engine_def)
  then have w: "writable demo_env h demo_value" using demo_value_written by (simp add: writable_def)
  have n: "([] :: int entries) = [] \<or> fst (hd ([] :: int entries)) \<le> 42" "length ([] :: db_record list) < 2 ^ 64 - 1" by simp_all
  show ?thesis
    using h(2)[rule_format, OF w demo_value_key n] by (simp add: \<open>h = demo_heap\<close> demo_heap_def)
qed

text \<open>
  C34: \<open>add\<close> of a record that cannot be written throws after the index took its key: the heap file gets no row and its
  stream stays open, and from then on every record with that key is refused as already there.
\<close>

theorem engine_add_unwritable:
  assumes "table_inv env e name ki h rows m" "ki < length value" "stoi (value ! ki) = Inr k"
    and "m = [] \<or> fst (hd m) \<le> k" "k \<notin> fst ` set m"
    and "record_write (env_float env) (attribute_types h) \<lparr>rec_status = OK, m_fields = value\<rparr> = Inl err"
  shows "\<exists>e'. engine_add env e name value = (e', Inl err) \<and> map_of (tables_raw e') name = Some (h\<lparr>stream := Some []\<rparr>) \<and>
     (\<forall>value'. ki < length value' \<longrightarrow> stoi (value' ! ki) = Inr k \<longrightarrow> engine_add env e' name value' = (e', Inl RuntimeError))"
proof -
  obtain s where s: "table_open env e name ki h s rows m" "seq_inv s m"
    using assms(1) by (auto simp: table_inv_def dest: table_okD)
  have front: "front_ok s m k" using seq_inv_guards[OF s(2)] by simp
  let ?m = "insert_entry k (int (length (data_file h))) m"
  obtain e' c' s' where e': "engine_add env e name value = (e', Inl err)"
    "pk_linked e' name ki (h\<lparr>stream := Some []\<rparr>) c' s'" "seq_repr s' ?m"
    "\<exists>ps. seq_add (env_overlay_int env) True s k (int (length (data_file h))) = Inr (s', ps)"
    by (rule engine_add_unwritable_state[OF s(1) assms(2,3) front assms(5,6)])
  have "seq_inv s' ?m" using e'(4) seq_inv_add[OF s(2) assms(4)] by blast
  then have "front_ok s' ?m k" using seq_inv_guards by blast
  moreover have "k \<in> fst ` set ?m" by (simp add: insert_entry_keys)
  ultimately have "engine_add env e' name value' = (e', Inl RuntimeError)" if "ki < length value'" "stoi (value' ! ki) = Inr k" for value'
    using engine_add_refused[OF e'(2) that e'(3)] by blast
  with e'(1,2) show ?thesis by (auto simp: pk_linked_def)
qed

lemma engine_add_unwritable_witness:
  "\<exists>e'. engine_add demo_env demo_engine ''t'' [''42''] = (e', Inl OutOfRange) \<and>
     engine_add demo_env e' ''t'' demo_value = (e', Inl RuntimeError)"
proof -
  have inv: "table_inv demo_env demo_engine ''t'' 0 demo_heap [] []"
    using demo_engine_ok createFile_repr by (auto simp: table_inv_def seq_inv_def createFile_def)
  have key: "stoi ([''42''] ! 0) = Inr 42" by code_simp
  then have w: "record_write (env_float demo_env) (attribute_types demo_heap) \<lparr>rec_status = OK, m_fields = [''42'']\<rparr> = Inl OutOfRange"
    using demo_total by (simp add: record_write_def demo_heap_types uint_nat demo_env_def) (simp add: demo_types_def field_at_def field_bytes_def copy_from_def)
  have i: "0 < length [''42'']" "([] :: int entries) = [] \<or> fst (hd []) \<le> (42 :: int)" "(42 :: int) \<notin> fst ` set ([] :: int entries)"
    "0 < length demo_value" by (simp_all add: demo_value_def)
  from engine_add_unwritable[OF inv i(1) key i(2,3) w] i(4) demo_value_key show ?thesis by blast
qed



end
