(* ===== verification/DbClean.thy ===== *)
theory DbClean
  imports DbTheorems
begin

text \<open>
  \<open>clean_table\<close>: the directory of a table is removed while its object and its index stay.  What the engine then says of the
  table, and what a table made again under the name finds.
\<close>

section \<open>The heap file without its directory\<close>



lemma heap_read_unlinked: "stream h = None \<Longrightarrow> heap_read fc (heap_unlinked h) p = (heap_unlinked h, Inr empty_record)"
  by (simp add: heap_read_def heap_unlinked_def heap_close_def record_read_def)


section \<open>The engine\<close>


lemma key_column_unlinked [simp]: "key_column (heap_unlinked h) ki \<longleftrightarrow> key_column h ki"
    "key_column (heap_renewed h) ki \<longleftrightarrow> key_column h ki"
    "pk_index (heap_unlinked h) c s \<longleftrightarrow> pk_index h c s" "pk_index (heap_renewed h) c s \<longleftrightarrow> pk_index h c s"
  by (simp_all add: key_column_def heap_unlinked_def heap_renewed_def pk_index_def)

lemma unlinked_fields [simp]: "attribute_types (heap_unlinked h) = attribute_types h"
    "attribute_names (heap_unlinked h) = attribute_names h" "primary_key (heap_unlinked h) = primary_key h"
    "attribute_types (heap_renewed h) = attribute_types h" "attribute_names (heap_renewed h) = attribute_names h"
    "primary_key (heap_renewed h) = primary_key h"
  by (simp_all add: heap_unlinked_def heap_renewed_def)



lemma heap_close_closed [simp]: "stream h = None \<Longrightarrow> heap_close (heap_unlinked h) = heap_unlinked h"
  by (simp add: heap_close_def heap_unlinked_def)



section \<open>Property\<close>



end
