(* ===== verification/IndexKinds.thy ===== *)
theory IndexKinds
  imports SeqExample SeqBulk AvlTheorems IsamTheorems
begin

text \<open>
  What the three kinds of index have in common: an index without duplicates is a map from keys to positions, which new
  keys extend.  The locale \<open>key_index\<close> states this contract, \<open>same_answers\<close> compares two indexes under it, and both
  are interpreted on the sequential, the AVL and the ISAM index.
\<close>

section \<open>The contract\<close>

text \<open>Entering one pair after another; and the answer of a map.\<close>

fun enter_all :: "('s \<Rightarrow> 'k \<Rightarrow> physical_pos \<Rightarrow> 's io) \<Rightarrow> 's \<Rightarrow> ('k \<times> physical_pos) list \<Rightarrow> 's io" where
  "enter_all enter s [] = Inr s"
| "enter_all enter s ((k, p) # xs) = bind_io (enter s k p) (\<lambda>s1. enter_all enter s1 xs)"

definition map_answer :: "('k \<rightharpoonup> physical_pos) \<Rightarrow> 'k \<Rightarrow> physical_pos list" where
  "map_answer m k = (case m k of None \<Rightarrow> [] | Some p \<Rightarrow> [p])"

lemma map_answer_update: "map_answer (m(k \<mapsto> p)) k' = (if k' = k then [p] else map_answer m k')"
  by (simp add: map_answer_def)

lemma map_of_append_new: "k \<notin> fst ` set xs \<Longrightarrow> m(k \<mapsto> p) ++ map_of xs = m ++ map_of ((k, p) # xs)"
  using map_of_eq_None_iff[of xs k] by (simp add: fun_eq_iff map_add_def split: option.split)

lemma map_of_mset:
  assumes "mset xs = mset ys" "distinct (map fst xs)"
  shows "map_of xs = map_of ys"
proof -
  have "mset (map fst xs) = mset (map fst ys)" using assms(1) by (metis mset_map)
  then have "distinct (map fst ys)" using assms(2) mset_eq_imp_distinct_iff by blast
  then show ?thesis using assms map_of_inject_set[of xs ys] mset_eq_setD[OF assms(1)] by blast
qed

text \<open>
  \<open>holds s m\<close>: the files \<open>s\<close> hold the map \<open>m\<close>.  \<open>takes\<close>: the keys that the provider accepts; a key that is accepted stays
  so when others are entered.
\<close>

locale key_index =
  fixes holds :: "'s \<Rightarrow> ('k \<rightharpoonup> physical_pos) \<Rightarrow> bool"
    and enter :: "'s \<Rightarrow> 'k \<Rightarrow> physical_pos \<Rightarrow> 's io"
    and answers :: "'s \<Rightarrow> 'k \<Rightarrow> physical_pos list io"
    and takes :: "('k \<rightharpoonup> physical_pos) \<Rightarrow> 'k \<Rightarrow> bool"
  assumes answers_map: "holds s m \<Longrightarrow> answers s k = Inr (map_answer m k)"
    and enter_new: "holds s m \<Longrightarrow> takes m k \<Longrightarrow> m k = None \<Longrightarrow> \<exists>s'. enter s k p = Inr s' \<and> holds s' (m(k \<mapsto> p))"
    and takes_more: "takes m k \<Longrightarrow> takes (m(k' \<mapsto> p)) k"
begin

lemma enter_all_holds:
  assumes "holds s m" "distinct (map fst xs)" "\<And>x. x \<in> set xs \<Longrightarrow> takes m (fst x) \<and> m (fst x) = None"
  shows "\<exists>s'. enter_all enter s xs = Inr s' \<and> holds s' (m ++ map_of xs)"
  using assms
proof (induction xs arbitrary: s m)
  case (Cons x xs)
  obtain k p where x: "x = (k, p)" by fastforce
  obtain s1 where s1: "enter s k p = Inr s1" "holds s1 (m(k \<mapsto> p))"
    using enter_new[OF Cons.prems(1), of k p] Cons.prems(3)[of x] x by auto
  have k: "k \<notin> fst ` set xs" "distinct (map fst xs)" using Cons.prems(2) x by simp_all
  have "takes (m(k \<mapsto> p)) (fst y) \<and> (m(k \<mapsto> p)) (fst y) = None" if "y \<in> set xs" for y
    using Cons.prems(3)[of y] takes_more[of m "fst y" k p] k(1) that by force
  from Cons.IH[OF s1(2) k(2) this, unfolded map_of_append_new[OF k(1)]] s1(1) show ?case unfolding x by (simp del: map_of.simps)
qed simp

text \<open>The answers do not depend on the order in which the keys were entered.\<close>

lemma enter_order:
  assumes "holds s m" "distinct (map fst xs)" "mset xs = mset ys"
    "\<And>x. x \<in> set xs \<Longrightarrow> takes m (fst x) \<and> m (fst x) = None"
  shows "\<exists>s'. enter_all enter s ys = Inr s' \<and> holds s' (m ++ map_of xs)"
proof -
  have "distinct (map fst ys)" using assms(2,3) by (metis mset_map mset_eq_imp_distinct_iff)
  moreover have "set ys = set xs" using assms(3) by (metis mset_eq_setD)
  ultimately show ?thesis
    using enter_all_holds[OF assms(1), of ys] assms(4) map_of_mset[OF assms(3,2)] by auto
qed

end

locale same_answers =
  first: key_index holds1 enter1 answers1 takes1 + second: key_index holds2 enter2 answers2 takes2
  for holds1 :: "'s \<Rightarrow> ('k \<rightharpoonup> physical_pos) \<Rightarrow> bool" and enter1 answers1 takes1
    and holds2 :: "'t \<Rightarrow> ('k \<rightharpoonup> physical_pos) \<Rightarrow> bool" and enter2 answers2 takes2
begin

text \<open>Two indexes with the same map, to which the same new keys are added, each in an order of its own, agree.\<close>

lemma entered_agree:
  assumes "holds1 s m" "holds2 t m" "distinct (map fst xs)" "mset ys = mset xs" "mset zs = mset xs"
    "\<And>x. x \<in> set xs \<Longrightarrow> takes1 m (fst x) \<and> takes2 m (fst x) \<and> m (fst x) = None"
  shows "\<exists>s' t'. enter_all enter1 s ys = Inr s' \<and> enter_all enter2 t zs = Inr t' \<and>
    holds1 s' (m ++ map_of xs) \<and> holds2 t' (m ++ map_of xs) \<and> (\<forall>k. answers1 s' k = answers2 t' k)"
proof -
  obtain s' where s': "enter_all enter1 s ys = Inr s'" "holds1 s' (m ++ map_of xs)"
    using first.enter_order[OF assms(1,3) assms(4)[symmetric]] assms(6) by blast
  obtain t' where t': "enter_all enter2 t zs = Inr t'" "holds2 t' (m ++ map_of xs)"
    using second.enter_order[OF assms(2,3) assms(5)[symmetric]] assms(6) by blast
  show ?thesis using s' t' first.answers_map[OF s'(2)] second.answers_map[OF t'(2)] by simp
qed

end

section \<open>The sequential index\<close>

definition seq_enter ::
  "(seq_header \<Rightarrow> 'k seq_record \<Rightarrow> 'k seq_record) \<Rightarrow> bool \<Rightarrow> ('k :: linorder) seq_index \<Rightarrow> 'k \<Rightarrow> physical_pos \<Rightarrow> 'k seq_index io" where
  "seq_enter ov pk s k p = bind_io (seq_add ov pk s k p) (\<lambda>(s1, _). Inr s1)"

definition seq_map :: "('k :: linorder) seq_index \<Rightarrow> ('k \<rightharpoonup> physical_pos) \<Rightarrow> bool" where
  "seq_map s m \<longleftrightarrow> (\<exists>es. seq_repr s es \<and> fst ` set es = dom m \<and> (\<forall>k. lookup_entry k es = map_answer m k))"

text \<open>A key is not added in front of all others.\<close>

definition not_first :: "('k :: linorder \<rightharpoonup> physical_pos) \<Rightarrow> 'k \<Rightarrow> bool" where
  "not_first m k \<longleftrightarrow> (\<exists>k'\<in>dom m. k' < k)"

lemma insert_entry_map:
  assumes "fst ` set es = dom m" "\<forall>k. lookup_entry k es = map_answer m k" "m k = None"
  shows "fst ` set (insert_entry k p es) = dom (m(k \<mapsto> p)) \<and>
    (\<forall>k'. lookup_entry k' (insert_entry k p es) = map_answer (m(k \<mapsto> p)) k')"
proof -
  have k: "k \<notin> fst ` set es" using assms(1,3) by auto
  have "lookup_entry k' (insert_entry k p es) = map_answer (m(k \<mapsto> p)) k'" for k'
    using lookup_insert_new[OF k] lookup_insert_other[of k' k p es] assms(2) by (auto simp: map_answer_update)
  then show ?thesis using assms(1) by (simp add: insert_entry_keys)
qed

lemma load_entries_map:
  assumes "fst ` set es = dom m" "\<forall>k. lookup_entry k es = map_answer m k" "distinct (map fst xs)" "fst ` set xs \<inter> dom m = {}"
  shows "fst ` set (load_entries xs es) = dom (m ++ map_of xs) \<and>
    (\<forall>k. lookup_entry k (load_entries xs es) = map_answer (m ++ map_of xs) k)"
  using assms
proof (induction xs arbitrary: es m)
  case (Cons x xs)
  obtain k p where x: "x = (k, p)" by fastforce
  have k: "k \<notin> fst ` set xs" "distinct (map fst xs)" "m k = None" using Cons.prems(3,4) x by auto
  note step = insert_entry_map[OF Cons.prems(1,2) k(3), of p, THEN conjunct1]
    insert_entry_map[OF Cons.prems(1,2) k(3), of p, THEN conjunct2]
  have "fst ` set xs \<inter> dom (m(k \<mapsto> p)) = {}" using Cons.prems(4) x k(1) by auto
  from Cons.IH[OF step k(2) this, unfolded map_of_append_new[OF k(1)]] show ?case unfolding x load_entries_simps .
qed simp

interpretation seq_kind: key_index seq_map "seq_enter ov pk" seq_search not_first
  for ov pk
proof
  fix s :: "'a :: linorder seq_index" and m :: "'a \<rightharpoonup> physical_pos" and k k' :: 'a and p p' :: physical_pos
  show "not_first m k \<Longrightarrow> not_first (m(k' \<mapsto> p)) k" by (auto simp: not_first_def)
  assume "seq_map s m"
  then obtain es where es: "seq_repr s es" "fst ` set es = dom m" "\<forall>k. lookup_entry k es = map_answer m k"
    unfolding seq_map_def by blast
  show "seq_search s k = Inr (map_answer m k)" using seq.search_finds[OF es(1)] es(3) by simp
  show "\<exists>s'. seq_enter ov pk s k p = Inr s' \<and> seq_map s' (m(k \<mapsto> p))" if guard: "not_first m k" "m k = None"
  proof -
    obtain k' where "k' \<in> dom m" "k' < k" using guard(1) unfolding not_first_def by blast
    then have "k' \<in> fst ` set es" "k' < k" by (simp_all add: es(2))
    then obtain e where e: "e \<in> set es" "fst e < k" by auto
    have "fst (hd es) \<le> fst e" using seq_repr_ordered[OF es(1)] e(1) by (cases es) auto
    then have "front_ok s es k" using e by (cases es) (auto simp: front_ok_def)
    moreover have "k \<notin> fst ` set es" using es(2) guard(2) by auto
    ultimately have "\<exists>s' ps. seq_add ov pk s k p = Inr (s', ps) \<and> p \<in> set ps \<and> seq_repr s' (insert_entry k p es)"
      by (intro seq.add_inserts[OF es(1)]) simp_all
    then obtain s' ps where s': "seq_add ov pk s k p = Inr (s', ps)" "seq_repr s' (insert_entry k p es)"
      by (elim exE conjE) (rule that)
    have "seq_map s' (m(k \<mapsto> p))"
      unfolding seq_map_def
      by (rule exI[of _ "insert_entry k p es"]) (use s'(2) insert_entry_map[OF es(2,3) guard(2), of p] in simp)
    then show ?thesis by (intro exI[of _ s'] conjI) (simp_all add: seq_enter_def s'(1))
  qed
qed

lemma seq_bulk_map:
  assumes "index_file s = []" "aux_file s = []" "rows \<noteq> []" "distinct (map fst rows)"
    "sorted_wrt (\<le>) (map fst (srt rows))" "mset (srt rows) = mset rows"
  shows "\<exists>s'. seq_bulk_insert srt s rows = Inr (s', map snd (srt rows), replicate (length rows) False) \<and>
    seq_map s' (map_of rows)"
proof -
  obtain s' where s': "seq_bulk_insert srt s rows = Inr (s', map snd (srt rows), replicate (length rows) False)"
    "seq_repr s' (load_entries (srt rows) [])"
    using seq_bulk_insert_empty[where srt = srt, OF assms(1-3,5,6)] by blast
  have d: "distinct (map fst (srt rows))" using assms(4,6) by (metis mset_map mset_eq_imp_distinct_iff)
  have "fst ` set (load_entries (srt rows) []) = dom (Map.empty ++ map_of (srt rows)) \<and>
    (\<forall>k. lookup_entry k (load_entries (srt rows) []) = map_answer (Map.empty ++ map_of (srt rows)) k)"
    using d by (intro load_entries_map) (simp_all add: map_answer_def)
  then have "seq_map s' (map_of (srt rows))" using s'(2) unfolding seq_map_def empty_map_add by blast
  then show ?thesis using s'(1) map_of_mset[OF assms(6) d] by simp
qed

section \<open>The AVL index\<close>

text \<open>
  \<open>add\<close> with the files it leaves, and the position in the node that the search of the tree finds; \<open>search\<close> itself goes
  on to the duplicates of the node, and does not return.
\<close>

definition avl_enter :: "('k :: linorder) avl_index \<Rightarrow> 'k \<Rightarrow> physical_pos \<Rightarrow> 'k avl_index io" where
  "avl_enter s k p = (case avl_add s k p of (s1, r) \<Rightarrow> bind_io r (\<lambda>_. Inr s1))"

definition avl_lookup :: "('k :: linorder) avl_index \<Rightarrow> 'k \<Rightarrow> physical_pos list io" where
  "avl_lookup s k = (case avl_find (avl_fuel s) (avl_open s) (rootPointer (mem_header s)) k of
     Inr x \<Rightarrow> Inr [raw_pos x] | Inl RuntimeError \<Rightarrow> Inr [] | Inl e \<Rightarrow> Inl e)"

definition avl_map :: "('k :: linorder) avl_index \<Rightarrow> ('k \<rightharpoonup> physical_pos) \<Rightarrow> bool" where
  "avl_map s m \<longleftrightarrow> (\<exists>t. avl_stored s t \<and> (\<forall>k p. m k = Some p \<longleftrightarrow> (\<exists>d. (k, p, d) \<in> set_tree t)))"

lemma avl_map_keys:
  assumes "\<forall>k p. m k = Some p \<longleftrightarrow> (\<exists>d. (k, p, d) \<in> set_tree t)"
  shows "k \<in> keys t \<longleftrightarrow> m k \<noteq> None"
  using assms by force

lemma set_put_new: "k \<notin> fst ` set m \<Longrightarrow> set (put_new k v m) = insert (k, v) (set m)"
  by (induction k v m rule: put_new.induct) auto

lemma t_insert_map:
  assumes "search_tree t" "k \<notin> keys t" "\<forall>k p. m k = Some p \<longleftrightarrow> (\<exists>d. (k, p, d) \<in> set_tree t)"
  shows "\<forall>k' p'. (m(k \<mapsto> p)) k' = Some p' \<longleftrightarrow> (\<exists>d. (k', p', d) \<in> set_tree (t_insert k (p, 0) t))"
proof -
  have "set_tree (t_insert k (p, 0) t) = insert (k, p, 0) (set_tree t)"
    using set_put_new[of k "inorder t" "(p, 0)"] assms(2) unfolding inorder_t_insert[OF assms(1), symmetric] by simp
  moreover have "(k, q, d) \<notin> set_tree t" for q d using assms(2) by force
  ultimately show ?thesis using assms(3) by (simp add: conj_disj_distribL ex_disj_distrib) (metis option.inject)
qed

interpretation avl_kind: key_index avl_map avl_enter avl_lookup "\<lambda>_ _. True"
proof
  fix s :: "'a :: linorder avl_index" and m :: "'a \<rightharpoonup> physical_pos" and k :: 'a and p :: physical_pos
  assume "avl_map s m"
  then obtain t where t: "avl_stored s t" "\<forall>k p. m k = Some p \<longleftrightarrow> (\<exists>d. (k, p, d) \<in> set_tree t)"
    unfolding avl_map_def by blast
  have fuel: "height t < avl_fuel s" using avl_stored_height[OF t(1)] by simp
  show "avl_lookup s k = Inr (map_answer m k)"
  proof (cases "k \<in> keys t")
    case True
    then obtain x where x: "avl_find (avl_fuel s) (avl_open s) (rootPointer (mem_header s)) k = Inr x"
      "entry x \<in> set_tree t" "data x = k"
      using avl_find_stored[OF t(1) fuel, of k] by auto
    then have "m k = Some (raw_pos x)" using t(2) by auto
    then show ?thesis using x(1) by (simp add: avl_lookup_def map_answer_def)
  next
    case False
    then have "m k = None" using avl_map_keys[OF t(2)] by blast
    then show ?thesis using False avl_find_stored[OF t(1) fuel, of k] by (simp add: avl_lookup_def map_answer_def)
  qed
  show "\<exists>s'. avl_enter s k p = Inr s' \<and> avl_map s' (m(k \<mapsto> p))" if "m k = None"
  proof -
    have k: "k \<notin> keys t" using avl_map_keys[OF t(2)] that by blast
    obtain s' where "avl_add s k p = (s', Inr [p])" "avl_stored s' (t_insert k (p, 0) t)"
      using avl_add_stored[OF t(1) k] by blast
    then show ?thesis using t_insert_map[OF avl_stored_search[OF t(1)] k t(2), of p]
      by (auto simp: avl_enter_def avl_map_def)
  qed
qed simp

text \<open>\<open>bulk_insert\<close> inserts into the open index one pair after another.\<close>

lemma avl_bulk_loop_map:
  assumes "avl_holds s t P" "\<forall>k p. m k = Some p \<longleftrightarrow> (\<exists>d. (k, p, d) \<in> set_tree t)" "distinct (map fst xs)"
    "fst ` set xs \<inter> dom m = {}"
  shows "\<exists>s' t' P'. avl_bulk_loop s xs = (s', None) \<and> avl_holds s' t' P' \<and>
    (\<forall>k p. (m ++ map_of xs) k = Some p \<longleftrightarrow> (\<exists>d. (k, p, d) \<in> set_tree t'))"
  using assms
proof (induction xs arbitrary: s t P m)
  case Nil
  then show ?case by (intro exI[of _ s] exI[of _ t] exI[of _ P]) simp
next
  case (Cons x xs)
  obtain k p where x: "x = (k, p)" by fastforce
  have k: "k \<notin> fst ` set xs" "distinct (map fst xs)" "m k = None" using Cons.prems(3,4) x by auto
  then have new: "k \<notin> keys t" using avl_map_keys[OF Cons.prems(2)] by blast
  have "height t < avl_fuel s" using avl_holds_size[OF Cons.prems(1)] by (simp add: avl_fuel_def)
  from avl_holds_insert[OF Cons.prems(1) new this, of p] obtain s1 P1 where
    s1: "avl_insert (avl_fuel s) s (rootPointer (mem_header s)) (new_avl_node k p) = Inr s1" "avl_holds s1 (t_insert k (p, 0) t) P1"
    by blast
  have "fst ` set xs \<inter> dom (m(k \<mapsto> p)) = {}" using Cons.prems(4) x k(1) by auto
  from Cons.IH[OF s1(2) t_insert_map[OF avl_holdsD(6)[OF Cons.prems(1)] new Cons.prems(2)] k(2) this,
      unfolded map_of_append_new[OF k(1)]]
  show ?case using s1(1) unfolding x by (simp del: map_of.simps)
qed

lemma avl_bulk_map:
  fixes rows :: "('k :: linorder \<times> physical_pos) list"
  assumes "distinct (map fst rows)"
  shows "\<exists>s'. avl_bulk_insert (avl_created pk) rows = (s', Inr ([], [])) \<and> avl_map s' (map_of rows)"
proof (cases "rows = []")
  case True
  then show ?thesis using avl_created_stored(1)[of pk] by (force simp: avl_bulk_insert_def avl_map_def)
next
  case False
  obtain P where P: "avl_holds (avl_open (avl_created pk :: 'k avl_index)) Leaf P" using avl_created_stored(1) by (rule avl_storedE)
  obtain s' t' P' where s': "avl_bulk_loop (avl_open (avl_created pk)) rows = (s', None)" "avl_holds s' t' P'"
    "\<forall>k p. (Map.empty ++ map_of rows) k = Some p \<longleftrightarrow> (\<exists>d. (k, p, d) \<in> set_tree t')"
    using avl_bulk_loop_map[OF P, of Map.empty rows] assms by auto
  have "avl_map (avl_close s') (map_of rows)"
    using avl_stored_close[OF s'(2)] s'(3) unfolding avl_map_def empty_map_add by blast
  then show ?thesis using False s'(1) by (simp add: avl_bulk_insert_def)
qed

section \<open>The ISAM index\<close>

definition isam_enter ::
  "'k isam_record list \<Rightarrow> ('k :: linordered_idom) isam \<Rightarrow> 'k \<Rightarrow> physical_pos \<Rightarrow> 'k isam io" where
  "isam_enter mem s k p = bind_io (isam_add mem s k p) (\<lambda>(s1, _). Inr s1)"

definition isam_map :: "('k :: linordered_idom) isam \<Rightarrow> ('k \<rightharpoonup> physical_pos) \<Rightarrow> bool" where
  "isam_map s m \<longleftrightarrow> (\<exists>d C xs. isam_repr s d C \<and> mset (isam_contents C) = mset (isam_records xs) \<and>
     distinct (map fst xs) \<and> m = map_of xs)"

interpretation isam_kind: key_index isam_map "isam_enter (m1 # m2 # [m3])" isam_search "\<lambda>_ _. True"
  for m1 m2 m3
proof
  fix s :: "'a :: linordered_idom isam" and m :: "'a \<rightharpoonup> physical_pos" and k :: 'a and p :: physical_pos
  assume "isam_map s m"
  then obtain d C xs where xs: "isam_repr s d C" "mset (isam_contents C) = mset (isam_records xs)" "distinct (map fst xs)"
    "m = map_of xs"
    unfolding isam_map_def by blast
  show "isam_search s k = Inr (map_answer m k)"
    unfolding isam_search_repr[OF xs(1)] find_key_record[OF xs(2,3)] xs(4)
    by (simp add: new_isam_record_def map_answer_def split: option.split)
  show "\<exists>s'. isam_enter [m1, m2, m3] s k p = Inr s' \<and> isam_map s' (m(k \<mapsto> p))" if "m k = None"
  proof -
    have k: "k \<notin> fst ` set xs" using that unfolding xs(4) map_of_eq_None_iff .
    moreover have "set (isam_contents C) = set (isam_records xs)" using xs(2) by (rule mset_eq_setD)
    ultimately have new: "ir_key (new_isam_record k p) \<notin> ir_key ` set (isam_contents C)"
      by (auto simp: new_isam_record_def image_iff)
    obtain s' C' where s': "isam_add_record [m1, m2, m3] s (new_isam_record k p) = Inr (s', [ir_pos (new_isam_record k p)])"
      "isam_repr s' d C'" "mset (isam_contents C') = add_mset (new_isam_record k p) (mset (isam_contents C))"
      using isam_add_repr[OF xs(1) new, of "[m1, m2, m3]"] by auto
    have "isam_map s' (map_of ((k, p) # xs))"
      unfolding isam_map_def using s'(2,3) xs(2,3) k
      by (intro exI[of _ d] exI[of _ C'] exI[of _ "(k, p) # xs"]) simp
    then show ?thesis using s'(1) by (intro exI[of _ s'] conjI) (simp_all add: isam_enter_def isam_add_def xs(4))
  qed
qed simp

lemma isam_bulk_map:
  assumes "81 \<le> length rows" "distinct (map fst rows)" "standard_metadata (metadata s)" "length mem = 3" "length kmem = 2"
    and "\<And>xs. mset (srt xs) = mset xs" "\<And>xs. sorted (map ir_key (srt xs))"
  shows "\<exists>s'. isam_bulk_insert srt kmem mem s rows = Inr (s', [1], [True]) \<and> isam_map s' (map_of rows)"
  using isam_bulk_repr[OF assms] assms(2) unfolding isam_map_def by blast

section \<open>All kinds agree\<close>

interpretation seq_avl: same_answers seq_map "seq_enter ov pk" seq_search not_first
    avl_map avl_enter avl_lookup "\<lambda>_ _. True"
  for ov pk ..

interpretation avl_isam: same_answers avl_map avl_enter avl_lookup "\<lambda>_ _. True"
    isam_map "isam_enter (m1 # m2 # [m3])" isam_search "\<lambda>_ _. True"
  for m1 m2 m3 ..

section \<open>Property\<close>

text \<open>
  C5: The kinds of index agree.  Built by \<open>bulk_insert\<close> on empty files from the same rows, at least 81, with different keys, and
  then extended with the same
  new keys, each in an order of its own, none of them in front of all keys of the rows, the sequential and the ISAM index
  return from every \<open>search\<close> the position of the key and nothing for an absent key, and the tree of the AVL index finds that
  position too.
\<close>

theorem index_kinds_agree:
  fixes rows :: "('k :: linordered_idom \<times> physical_pos) list"
  assumes "81 \<le> length rows" "distinct (map fst (rows @ new))" "\<forall>x\<in>set new. \<exists>y\<in>set rows. fst y < fst x"
    and "mset xs = mset new" "mset ys = mset new" "mset zs = mset new"
    and "index_file s = []" "aux_file s = []" "mset (srt rows) = mset rows" "sorted (map fst (srt rows))"
    and "standard_metadata (metadata u)" "length kmem = 2" "\<And>rs. mset (isrt rs) = mset rs" "\<And>rs. sorted (map ir_key (isrt rs))"
  shows "\<exists>s1 s2 t1 t2 u1 u2.
    seq_bulk_insert srt s rows = Inr (s1, map snd (srt rows), replicate (length rows) False) \<and>
    avl_bulk_insert (avl_created pk) rows = (t1, Inr ([], [])) \<and>
    isam_bulk_insert isrt kmem [m1, m2, m3] u rows = Inr (u1, [1], [True]) \<and>
    enter_all (seq_enter ov pk) s1 xs = Inr s2 \<and> enter_all avl_enter t1 ys = Inr t2 \<and>
    enter_all (isam_enter [m1, m2, m3]) u1 zs = Inr u2 \<and>
    (\<forall>k. seq_search s2 k = Inr (map_answer (map_of (rows @ new)) k) \<and>
       avl_lookup t2 k = seq_search s2 k \<and> isam_search u2 k = seq_search s2 k)"
proof -
  have rows: "rows \<noteq> []" "distinct (map fst rows)" "distinct (map fst new)" "fst ` set rows \<inter> fst ` set new = {}"
    using assms(1,2) by auto
  obtain s1 where s1: "seq_bulk_insert srt s rows = Inr (s1, map snd (srt rows), replicate (length rows) False)"
    "seq_map s1 (map_of rows)"
    using seq_bulk_map[OF assms(7,8) rows(1,2), of srt] assms(9,10) by auto
  obtain t1 where t1: "avl_bulk_insert (avl_created pk) rows = (t1, Inr ([], []))" "avl_map t1 (map_of rows)"
    using avl_bulk_map[OF rows(2)] by blast
  obtain u1 where u1: "isam_bulk_insert isrt kmem [m1, m2, m3] u rows = Inr (u1, [1], [True])" "isam_map u1 (map_of rows)"
    using isam_bulk_map[OF assms(1) rows(2) assms(11) _ assms(12-14), of "[m1, m2, m3]"] by auto
  have none: "map_of rows (fst x) = None" if "x \<in> set new" for x using rows(4) that by (auto simp: map_of_eq_None_iff)
  have takes: "not_first (map_of rows) (fst x)" if "x \<in> set new" for x
    using assms(3) that by (force simp: not_first_def dom_map_of_conv_image_fst)
  obtain s2 t2 where st: "enter_all (seq_enter ov pk) s1 xs = Inr s2" "enter_all avl_enter t1 ys = Inr t2"
    "seq_map s2 (map_of rows ++ map_of new)" "\<forall>k. seq_search s2 k = avl_lookup t2 k"
    using seq_avl.entered_agree[where ov = ov and pk = pk, OF s1(2) t1(2) rows(3) assms(4,5)] none takes by blast
  obtain t3 u2 where tu: "enter_all avl_enter t1 ys = Inr t3" "enter_all (isam_enter [m1, m2, m3]) u1 zs = Inr u2"
    "\<forall>k. avl_lookup t3 k = isam_search u2 k"
    using avl_isam.entered_agree[OF t1(2) u1(2) rows(3) assms(5,6), of m1 m2 m3] none by blast
  have "map_of rows ++ map_of new = map_of (rows @ new)"
    using map_add_comm[of "map_of rows" "map_of new"] rows(4) by (simp add: dom_map_of_conv_image_fst)
  then have "seq_search s2 k = Inr (map_answer (map_of (rows @ new)) k)" for k
    using seq_kind.answers_map[OF st(3), of k] by simp
  then show ?thesis using s1(1) t1(1) u1(1) st tu
    by (intro exI[of _ s1] exI[of _ s2] exI[of _ t1] exI[of _ t2] exI[of _ u1] exI[of _ u2] conjI) simp_all
qed

theorem index_kinds_agree_witness:
  "\<exists>s1 s2 t1 t2 u1 u2.
     seq_bulk_insert (sort_key fst) createFile demo_isam_data = Inr (s1, map snd demo_isam_data, replicate 81 False) \<and>
     avl_bulk_insert (avl_created True) demo_isam_data = (t1, Inr ([], [])) \<and> demo_isam = Inr u1 \<and>
     enter_all (seq_enter demo_overlay True) s1 [(425, 1000), (5, 1001)] = Inr s2 \<and>
     enter_all avl_enter t1 [(5, 1001), (425, 1000)] = Inr t2 \<and>
     enter_all (isam_enter demo_mem) u1 [(425, 1000), (5, 1001)] = Inr u2 \<and>
     seq_search s2 5 = Inr [1001] \<and> avl_lookup t2 5 = Inr [1001] \<and> isam_search u2 5 = Inr [1001]"
proof -
  let ?new = "[(425, 1000), (5, 1001)] :: (int \<times> physical_pos) list"
  have mem: "[new_isam_record 0 0, new_isam_record 0 0, new_isam_record 0 0] = demo_mem"
    by (simp add: demo_mem_def numeral_3_eq_3)
  have srt: "sort_key fst demo_isam_data = demo_isam_data"
    by (rule sort_key_id_if_sorted) (simp add: demo_isam_data_def comp_def sorted_map sorted_wrt_upt)
  have keys: "10 * int i \<noteq> 425" "10 * int i \<noteq> 5" for i by presburger+
  have new: "distinct (map fst (demo_isam_data @ ?new))"
    using demo_isam_facts(2) keys by (force simp: demo_isam_data_def)
  have low: "\<forall>x\<in>set ?new. \<exists>y\<in>set demo_isam_data. fst y < fst x"
    by (auto simp: demo_isam_data_def intro!: bexI[of _ 0])
  have five: "map_answer (map_of (demo_isam_data @ ?new)) 5 = [1001]"
    using keys(2) by (auto simp: map_answer_def map_add_def demo_isam_data_def map_of_eq_None_iff split: option.split dest!: map_of_SomeD)
  have facts: "81 \<le> length demo_isam_data" "mset [(5, 1001), (425, 1000)] = mset ?new"
    "index_file (createFile :: int seq_index) = []" "aux_file (createFile :: int seq_index) = []"
    "mset (sort_key fst demo_isam_data) = mset demo_isam_data" "sorted (map fst (sort_key fst demo_isam_data))"
    using demo_isam_facts(1) by (simp_all add: createFile_def)
  note agree = index_kinds_agree[where isrt = "sort_key ir_key" and pk = True and ov = demo_overlay and srt = "sort_key fst" and xs = ?new and zs = ?new,
      OF facts(1) new low refl facts(2) refl facts(3-6) demo_isam_facts(5,4,6,7),
      of "new_isam_record 0 0" "new_isam_record 0 0" "new_isam_record 0 0", unfolded mem srt]
  then obtain s1 s2 t1 t2 u1 u2 where
    "seq_bulk_insert (sort_key fst) createFile demo_isam_data = Inr (s1, map snd demo_isam_data, replicate (length demo_isam_data) False)"
    "avl_bulk_insert (avl_created True) demo_isam_data = (t1, Inr ([], []))"
    "isam_bulk_insert (sort_key ir_key) [0, 0] demo_mem (new_isam None None False) demo_isam_data = Inr (u1, [1], [True])"
    "enter_all (seq_enter demo_overlay True) s1 ?new = Inr s2" "enter_all avl_enter t1 [(5, 1001), (425, 1000)] = Inr t2"
    "enter_all (isam_enter demo_mem) u1 ?new = Inr u2"
    "\<forall>k. seq_search s2 k = Inr (map_answer (map_of (demo_isam_data @ ?new)) k) \<and>
       avl_lookup t2 k = seq_search s2 k \<and> isam_search u2 k = seq_search s2 k"
    by (elim exE conjE) (rule that)
  then show ?thesis using demo_isam_facts(1) five
    by (intro exI[of _ s1] exI[of _ s2] exI[of _ t1] exI[of _ t2] exI[of _ u1] exI[of _ u2] conjI) (simp_all add: demo_isam_def)
qed

end
