(* ===== verification/DbCsv.thy ===== *)
theory DbCsv
  imports IndexKinds DbEngine
begin

text \<open>
  The helpers of \<open>src/DBEngine/DBEngine.cpp\<close> for loading a file of comma separated values, which \<open>csv_insert\<close> was to call
  (its body is commented out), and the directories of the engine.  The columns of the file are collected by type, and the
  keys of the rows that the primary key accepted go, with their positions, into the other indexes of the column.
\<close>

section \<open>The kinds of indexes of a column\<close>

type_synonym index_option = "8 word"

abbreviation OPTION_NONE :: index_option where "OPTION_NONE \<equiv> 0"

definition OPTION_AVL :: index_option where "OPTION_AVL = push_bit 0 1"
definition OPTION_ISAM :: index_option where "OPTION_ISAM = push_bit 1 1"
definition OPTION_SEQUENTIAL :: index_option where "OPTION_SEQUENTIAL = push_bit 2 1"

text \<open>A combination is printed as the character with its code.\<close>

definition option_string :: "index_option \<Rightarrow> string" where
  "option_string option =
     (if option = OPTION_NONE then ''NONE'' else if option = OPTION_AVL then ''AVL''
      else if option = OPTION_ISAM then ''ISAM'' else if option = OPTION_SEQUENTIAL then ''SEQUENTIAL''
      else [char_of (unat option)])"

definition add_option :: "index_option \<Rightarrow> index_option \<Rightarrow> index_option" where
  "add_option lhs rhs = or lhs rhs"

lemma option_bits:
  "bit (add_option a b) i \<longleftrightarrow> bit a i \<or> bit b i" "bit OPTION_AVL i \<longleftrightarrow> i = 0" "bit OPTION_ISAM i \<longleftrightarrow> i = 1"
  "bit OPTION_SEQUENTIAL i \<longleftrightarrow> i = 2"
  unfolding add_option_def OPTION_AVL_def OPTION_ISAM_def OPTION_SEQUENTIAL_def
  by (auto simp only: bit_or_iff bit_push_bit_iff bit_1_iff possible_bit_word) (simp_all add: not_less)

section \<open>Columns\<close>

text \<open>The variant \<open>IndexInsert::values\<close>; the value of a \<open>float\<close> are its bytes.\<close>

datatype index_insert = IntColumn "int list" | FloatColumn "char list list" | StrColumn "string list"

definition default_insert :: index_insert where
  "default_insert = IntColumn []"

text \<open>\<open>emplace_back<T>\<close>, with \<open>T\<close> the type of the value.\<close>

definition column_emplace_back :: "db_value \<Rightarrow> index_insert \<Rightarrow> index_insert io" where
  "column_emplace_back v c =
     (case (c, v) of
        (IntColumn xs, VInt k) \<Rightarrow> Inr (IntColumn (xs @ [k]))
      | (FloatColumn xs, VFloat b) \<Rightarrow> Inr (FloatColumn (xs @ [b]))
      | (StrColumn xs, VStr s) \<Rightarrow> Inr (StrColumn (xs @ [s]))
      | _ \<Rightarrow> Inl BadVariantAccess)"

text \<open>\<open>at<T>\<close> for all indices: the values of a column as a vector of \<open>T\<close>.\<close>

definition column_values :: "types \<Rightarrow> index_insert \<Rightarrow> db_value list io" where
  "column_values k c =
     (case (k, c) of
        (INT_t, IntColumn xs) \<Rightarrow> Inr (map VInt xs)
      | (FLOAT_t, FloatColumn xs) \<Rightarrow> Inr (map VFloat xs)
      | (VARCHAR_t, StrColumn xs) \<Rightarrow> Inr (map VStr xs)
      | _ \<Rightarrow> Inl BadVariantAccess)"

text \<open>A column of type \<open>BOOL\<close> keeps the default value of the variant.\<close>

fun empty_column :: "types \<Rightarrow> index_insert" where
  "empty_column INT_t = IntColumn []"
| "empty_column FLOAT_t = FloatColumn []"
| "empty_column VARCHAR_t = StrColumn []"
| "empty_column BOOL_t = default_insert"

definition generate_key_output :: "db_type list \<Rightarrow> index_insert list" where
  "generate_key_output field_types = map (\<lambda>ty. empty_column (type_kind ty)) field_types"

definition insert_field ::
  "float_conv \<Rightarrow> string \<Rightarrow> nat \<Rightarrow> db_type list \<Rightarrow> index_insert list \<Rightarrow> index_insert list io" where
  "insert_field fc field curr_field field_types inserted_keys =
     (if curr_field \<ge> length field_types then Inl OutOfRange
      else let k = type_kind (field_types ! curr_field) in
        if k = BOOL_t then Inr inserted_keys
        else if curr_field \<ge> length inserted_keys then Inl OutOfRange
        else bind_io (cast_value fc k field) (\<lambda>v.
             bind_io (column_emplace_back v (inserted_keys ! curr_field)) (\<lambda>c. Inr (inserted_keys[curr_field := c]))))"

section \<open>The other indexes of a column\<close>

text \<open>
  The keys of the rows that the primary key accepted, each with the next position: \<open>get_pos\<close> is called for accepted
  rows only, and its calls are counted, from \<open>n\<close> on.
\<close>

fun accepted_pairs :: "'k list \<Rightarrow> bool list \<Rightarrow> (nat \<Rightarrow> physical_pos) \<Rightarrow> nat \<Rightarrow> ('k \<times> physical_pos) list io" where
  "accepted_pairs [] pk_insertion get_pos n = Inr []"
| "accepted_pairs (k # ks) [] get_pos n = Inl OutOfRange"
| "accepted_pairs (k # ks) (b # bs) get_pos n =
     (if b then bind_io (accepted_pairs ks bs get_pos (Suc n)) (\<lambda>ps. Inr ((k, get_pos n) # ps))
      else accepted_pairs ks bs get_pos n)"

text \<open>An exception that leaves the function of a thread ends the program.\<close>

definition in_thread :: "'a io \<Rightarrow> 'a io" where
  "in_thread r = (case r of Inr x \<Rightarrow> Inr x
     | Inl e \<Rightarrow> Inl (if e \<in> {RuntimeError, InvalidArgument, OutOfRange, BadVariantAccess} then Terminated else e))"

text \<open>
  \<open>handle_option<int>\<close> and \<open>handle_option<float>\<close>, for the column of keys: each index that the option names is filled in a thread
  of its own, which is joined before the next one starts.  A container that is not there is an exception in the thread.
\<close>

definition handle_option ::
  "('i :: linordered_idom) engine_env \<Rightarrow> index_option \<Rightarrow> int list + 'i list \<Rightarrow> bool list \<Rightarrow> 'i avl_variant option \<Rightarrow>
     'i seq_container option \<Rightarrow> 'i isam_variant option \<Rightarrow> (nat \<Rightarrow> physical_pos) \<Rightarrow>
     ('i avl_variant option \<times> 'i seq_container option \<times> 'i isam_variant option) io" where
  "handle_option env option inserted_keys pk_insertion avl sequential isam get_pos =
     bind_io (case inserted_keys of
         Inl ks \<Rightarrow> bind_io (accepted_pairs ks pk_insertion get_pos 0) (\<lambda>ps. Inr (Inl ps))
       | Inr ks \<Rightarrow> bind_io (accepted_pairs ks pk_insertion get_pos 0) (\<lambda>ps. Inr (Inr ps))) (\<lambda>inserted_indexes.
     bind_io (if bit option 0
         then in_thread (case avl of None \<Rightarrow> Inl RuntimeError | Some a \<Rightarrow>
           (case avl_bulk a inserted_indexes of (a', r) \<Rightarrow> bind_io r (\<lambda>_. Inr (Some a'))))
         else Inr avl) (\<lambda>avl1.
     bind_io (if bit option 1
         then in_thread (case isam of None \<Rightarrow> Inl RuntimeError | Some a \<Rightarrow>
           bind_io (isam_bulk env a inserted_indexes) (\<lambda>a'. Inr (Some a')))
         else Inr isam) (\<lambda>isam1.
     bind_io (if bit option 2
         then in_thread (case sequential of None \<Rightarrow> Inl RuntimeError | Some c \<Rightarrow>
           bind_io (seq_bulk env c inserted_indexes) (\<lambda>c'. Inr (Some c')))
         else Inr sequential) (\<lambda>sequential1. Inr (avl1, sequential1, isam1)))))"

text \<open>
  \<open>get_idx\<close>.  The map is a parameter by value: the container is that of a copy, which goes with the parameters of the call,
  so that nothing that is done to it reaches the map.
\<close>

definition get_idx :: "string \<Rightarrow> string \<Rightarrow> (index_id \<times> 'c) list \<Rightarrow> 'c option" where
  "get_idx table_name attribute_name idx_map = map_of idx_map (IndexId table_name attribute_name)"

section \<open>Directories\<close>

text \<open>
  A path is the list of its components, outermost first.  \<open>create_directory\<close> throws when the directory it is to be in does not
  exist, and does nothing when the directory exists.
\<close>

type_synonym path = "string list"

definition create_directory :: "path \<Rightarrow> path list \<Rightarrow> path list io" where
  "create_directory p dirs =
     (if p \<in> set dirs then Inr dirs
      else if butlast p = [] \<or> butlast p \<in> set dirs then Inr (p # dirs) else Inl RuntimeError)"

definition engine_directories :: "path list" where
  "engine_directories = [[''DB_FILES''], [''DB_FILES'', ''Tables''], [''DB_FILES'', ''Metadata''], [''DB_FILES'', ''Indexes''],
     [''DB_FILES'', ''Indexes'', ''ISAM''], [''DB_FILES'', ''Indexes'', ''Sequential''], [''DB_FILES'', ''Indexes'', ''AVL'']]"

fun create_directories :: "path list \<Rightarrow> path list \<Rightarrow> path list io" where
  "create_directories [] dirs = Inr dirs"
| "create_directories (p # ps) dirs = bind_io (create_directory p dirs) (create_directories ps)"

definition generate_directories :: "path list \<Rightarrow> path list io" where
  "generate_directories dirs = create_directories engine_directories dirs"

section \<open>Lemmas\<close>

text \<open>
  The columns of a table: inserting the fields of a row into columns of the types of the table fails only when a field is
  not a text of its type, and adds its value to its column only.
\<close>

definition column_kind :: "index_insert \<Rightarrow> types" where
  "column_kind c = (case c of IntColumn _ \<Rightarrow> INT_t | FloatColumn _ \<Rightarrow> FLOAT_t | StrColumn _ \<Rightarrow> VARCHAR_t)"

definition columns_for :: "db_type list \<Rightarrow> index_insert list \<Rightarrow> bool" where
  "columns_for tys cs \<longleftrightarrow> list_all2 (\<lambda>ty c. type_kind ty = BOOL_t \<or> column_kind c = type_kind ty) tys cs"

lemma generated_columns: "columns_for tys (generate_key_output tys)"
proof -
  have "type_kind ty = BOOL_t \<or> column_kind (empty_column (type_kind ty)) = type_kind ty" for ty
    by (cases "type_kind ty") (simp_all add: column_kind_def)
  then show ?thesis unfolding columns_for_def generate_key_output_def list_all2_conv_all_nth by (intro conjI allI impI) simp_all
qed

lemma emplace_back_typed:
  assumes "cast_value fc k s = Inr v" "column_kind c = k"
  shows "\<exists>c' vs. column_emplace_back v c = Inr c' \<and> column_kind c' = k \<and> column_values k c = Inr vs \<and>
    column_values k c' = Inr (vs @ [v])"
  using assms
  by (cases c) (auto simp: cast_value_def column_kind_def column_emplace_back_def column_values_def bind_io_eq_Inr)

lemma insert_field_column:
  assumes "columns_for tys cs" "i < length tys" "type_kind (tys ! i) \<noteq> BOOL_t" "cast_value fc (type_kind (tys ! i)) s = Inr v"
  shows "\<exists>cs' vs. insert_field fc s i tys cs = Inr cs' \<and> columns_for tys cs' \<and>
    column_values (type_kind (tys ! i)) (cs ! i) = Inr vs \<and> column_values (type_kind (tys ! i)) (cs' ! i) = Inr (vs @ [v]) \<and>
    (\<forall>j. j \<noteq> i \<longrightarrow> cs' ! j = cs ! j)"
proof -
  have len: "length cs = length tys" and kind: "column_kind (cs ! i) = type_kind (tys ! i)"
    using assms(1-3) by (auto simp: columns_for_def list_all2_conv_all_nth)
  obtain c vs where c: "column_emplace_back v (cs ! i) = Inr c" "column_kind c = type_kind (tys ! i)"
    "column_values (type_kind (tys ! i)) (cs ! i) = Inr vs" "column_values (type_kind (tys ! i)) c = Inr (vs @ [v])"
    using emplace_back_typed[OF assms(4) kind] by blast
  have "columns_for tys (cs[i := c])"
    unfolding columns_for_def
  proof (rule list_all2_all_nthI)
    fix j assume "j < length tys"
    then show "type_kind (tys ! j) = BOOL_t \<or> column_kind (cs[i := c] ! j) = type_kind (tys ! j)"
      using assms(1) c(2) len by (cases "j = i") (auto simp: columns_for_def dest: list_all2_nthD)
  qed (simp add: len)
  then show ?thesis using assms(2-4) c len
    by (intro exI[of _ "cs[i := c]"] exI[of _ vs]) (simp add: insert_field_def Let_def)
qed

lemma insert_field_error:
  assumes "columns_for tys cs" "i < length tys" "type_kind (tys ! i) \<noteq> BOOL_t" "cast_value fc (type_kind (tys ! i)) s = Inl e"
  shows "insert_field fc s i tys cs = Inl e"
  using assms by (simp add: insert_field_def Let_def columns_for_def list_all2_lengthD[symmetric])

text \<open>The pairs are the accepted keys, in order, at consecutive positions of \<open>get_pos\<close>.\<close>

lemma accepted_pairs_keys:
  assumes "length ks \<le> length bs"
  shows "accepted_pairs ks bs get_pos n =
    Inr (zip (map fst (filter snd (zip ks bs))) (map get_pos [n..<n + length (filter snd (zip ks bs))]))"
  using assms
proof (induction ks bs get_pos n rule: accepted_pairs.induct)
  case (3 k ks b bs get_pos n)
  then show ?case by (cases b) (simp_all add: upt_conv_Cons del: upt_Suc)
qed simp_all

lemma accepted_pairs_short: "length bs < length ks \<Longrightarrow> accepted_pairs ks bs get_pos n = Inl OutOfRange"
  by (induction ks bs get_pos n rule: accepted_pairs.induct) simp_all

text \<open>
  With all three options set, the indexes of a column of integers are filled with the same pairs, and give the same answers; an
  option whose index is not there ends the program.
\<close>

lemma handle_option_fills:
  fixes env :: "('i :: linordered_idom) engine_env" and kmem :: "int list"
  assumes pairs: "accepted_pairs ks bs get_pos 0 = Inr ps" "81 \<le> length ps" "distinct (map fst ps)"
    and seq: "sc_idx c = SeqInt createFile" "mset (env_sort_int env ps) = mset ps" "sorted (map fst (env_sort_int env ps))"
    and isam: "env_memory_int env = (kmem, mem)" "length kmem = 2" "length mem = 3" "standard_metadata (metadata u)"
      "\<And>rs. mset (env_isam_sort_int env rs) = mset rs" "\<And>rs. sorted (map ir_key (env_isam_sort_int env rs))"
  shows "\<exists>t s u'. handle_option env (add_option OPTION_AVL (add_option OPTION_ISAM OPTION_SEQUENTIAL)) (Inl ks) bs
      (Some (AvlInt (avl_created pk))) (Some c) (Some (IsamInt u)) get_pos =
        Inr (Some (AvlInt t), Some (c\<lparr>sc_idx := SeqInt s\<rparr>), Some (IsamInt u')) \<and>
    (\<forall>k. avl_lookup t k = Inr (map_answer (map_of ps) k) \<and> seq_search s k = Inr (map_answer (map_of ps) k) \<and>
       isam_search u' k = Inr (map_answer (map_of ps) k))"
proof -
  obtain t where t: "avl_bulk_insert (avl_created pk) ps = (t, Inr ([], []))" "avl_map t (map_of ps)"
    using avl_bulk_map[OF pairs(3)] by blast
  obtain s where s: "seq_bulk_insert (env_sort_int env) createFile ps =
      Inr (s, map snd (env_sort_int env ps), replicate (length ps) False)" "seq_map s (map_of ps)"
    using seq_bulk_map[of createFile ps "env_sort_int env"] pairs(2,3) seq(2,3) by (fastforce simp: createFile_def)
  obtain u' where u': "isam_bulk_insert (env_isam_sort_int env) kmem mem u ps = Inr (u', [1], [True])" "isam_map u' (map_of ps)"
    using isam_bulk_map[OF pairs(2,3) isam(4,3,2,5,6)] by blast
  have "handle_option env (add_option OPTION_AVL (add_option OPTION_ISAM OPTION_SEQUENTIAL)) (Inl ks) bs
      (Some (AvlInt (avl_created pk))) (Some c) (Some (IsamInt u)) get_pos =
        Inr (Some (AvlInt t), Some (c\<lparr>sc_idx := SeqInt s\<rparr>), Some (IsamInt u'))"
    using t(1) s(1) u'(1) seq(1) isam(1)
    by (simp add: handle_option_def pairs(1) option_bits avl_bulk_def isam_bulk_def seq_bulk_def in_thread_def)
  then show ?thesis
    using avl_kind.answers_map[OF t(2)] seq_kind.answers_map[OF s(2)] isam_kind.answers_map[OF u'(2)] by blast
qed

lemma handle_option_absent:
  assumes "bit option 0" "accepted_pairs ks bs get_pos 0 = Inr ps"
  shows "handle_option env option (Inl ks) bs None c u get_pos = Inl Terminated"
  using assms by (simp add: handle_option_def in_thread_def)

text \<open>The directories of the engine exist afterwards, and making them again changes nothing.\<close>

lemma generate_directories_empty: "\<exists>dirs. generate_directories [] = Inr dirs \<and> set dirs = set engine_directories"
  by (simp add: generate_directories_def engine_directories_def create_directory_def insert_commute)

lemma create_directories_there: "set ps \<subseteq> set dirs \<Longrightarrow> create_directories ps dirs = Inr dirs"
  by (induction ps) (simp_all add: create_directory_def)

lemma generate_directories_again: "set engine_directories \<subseteq> set dirs \<Longrightarrow> generate_directories dirs = Inr dirs"
  by (simp add: generate_directories_def create_directories_there)

end
