(* ===== verification/Spec2Isabelle.thy ===== *)
theory Spec2Isabelle
  imports SeqTheorems AvlTheorems IsamTheorems DbTheorems DbClean DbCsv
begin

text \<open>
  A verification library for RDBMS-BD2, a relational storage engine in C++.

  \<^bold>\<open>The program.\<close>  A table is a heap file of records of fixed size (\<open>include/DBEngine/HeapFile.hpp\<close>,
  \<open>src/DBEngine/HeapFile.cpp\<close>, \<open>Record/Record.hpp\<close>, \<open>Record/Record.cpp\<close>).  An index maps the keys of a column to
  the positions of the records in that file; there are three kinds, a sequential file with an
  auxiliary file (\<open>libs/Indexes/Sequential\<close>), an AVL tree in a file (\<open>libs/Indexes/AVL\<close>) and a three-level ISAM index
  (\<open>libs/Indexes/ISAM\<close>); the first two share a base class (\<open>libs/Indexes/index.hpp\<close>, \<open>index.tpp\<close>).  The database engine
  (\<open>src/DBEngine/DBEngine.cpp\<close>, \<open>include/DBEngine/DBEngine.hpp\<close>) keeps hash tables of tables and of containers of
  indexes (\<open>IndexManager/IndexContainer.hpp\<close>): it makes a table with a sequential index of its primary key, adds a
  record by entering its key and its future position into that index and then appending it to the
  heap file, searches by asking an index for positions and reading the rows there, and makes
  further indexes from the rows of a table.

  \<^bold>\<open>State and errors.\<close>  A file is the list of its records (indexes) or of its bytes (heap files); positions are
  byte offsets.  An operation returns a value of type \<open>io\<close> (theory \<open>Prelude\<close>): an exception of the code, a use of
  something that C++ leaves undefined, or a result.  Where an exception leaves a changed object behind (an
  open stream, an index that has the key already) the operation returns the state in either case.

  \<^bold>\<open>Theories.\<close>
  \<^item> \<open>Prelude\<close>: outcomes of operations, linked segments of a store.
  \<^item> \<open>RecordFile\<close>, \<open>IndexBase\<close>: files of records and the duplicate file of \<open>index.tpp\<close>; the locale \<open>record_store\<close> is what
    a client knows of such a file, interpreted on the files of all three indexes.
  \<^item> \<open>IndexSpec\<close>: ordered lists of keys with positions, the specification of an index, and the locale
    \<open>ordered_index\<close> with what a client may rely on.
  \<^item> \<open>SeqModel\<close>, \<open>SeqBinarySearch\<close>, \<open>SeqOps\<close>, \<open>SeqQueries\<close>: the sequential index, one definition per member function and
    per loop of one.  \<open>SeqInvariant\<close> to \<open>SeqBulk\<close>: its invariant (one chain of records in key order through two
    files), what each operation does to the chain, the interpretation of \<open>ordered_index\<close> and the
    reachable indexes.  \<open>SeqExample\<close>, \<open>SeqTheorems\<close>: concrete indexes and the properties.
  \<^item> \<open>AvlModel\<close>: the AVL index.  \<open>AvlTree\<close>: the reference definition on trees of HOL.  \<open>AvlStore\<close> to \<open>AvlOps\<close>: which
    tree the files hold, and that each operation of the code does what the reference does.  \<open>AvlTheorems\<close>: the
    properties.
  \<^item> \<open>IsamModel\<close>, \<open>IsamOps\<close>: the ISAM index.  \<open>IsamBuild\<close>: what \<open>build\<close> writes, and the way down the three levels, once
    for all operations (locale \<open>isam_descent\<close>).  \<open>IsamPages\<close>, \<open>IsamChains\<close>, \<open>IsamContract\<close>, \<open>IsamQueries\<close>: pages, chains
    of pages, the contents of the 27 chains and the queries.  \<open>IsamRemove\<close>: a removal cuts a record or a page
    out of a chain.  \<open>IsamTypes\<close>: well-formedness of all pages.  \<open>IsamTheorems\<close>: the properties.
  \<^item> \<open>IndexKinds\<close>: what the three kinds have in common (locale \<open>key_index\<close>, interpreted on each of them; \<open>same_answers\<close>
    extends two copies of it), and that they answer alike.
  \<^item> \<open>RecordCodec\<close>, \<open>RecordTheorems\<close>: types, values as text and as bytes, writing and reading a record.
  \<^item> \<open>HeapFile\<close>, \<open>HeapTheorems\<close>: the heap file with its stream, and what keeps and what breaks its rows.
  \<^item> \<open>DbTables\<close>, \<open>DbEngine\<close>: the hash tables (locale \<open>hash_table\<close>), the containers and the member functions of the
    engine.  \<open>DbInvariant\<close>, \<open>DbOps\<close>, \<open>DbQueries\<close>: the invariant of a table with its index, and what the
    operations make of it.  \<open>DbReach\<close>: the tables that additions reach from \<open>create_table\<close> on, records that cannot be
    written, removal.  \<open>DbTheorems\<close>: the properties that span heap files and indexes.  \<open>DbClean\<close>: tables whose directory
    was removed.
  \<^item> \<open>DbCsv\<close>: the helpers of \<open>csv_insert\<close>, which nothing calls since its body is commented out, and the directories.

  \<^bold>\<open>What is shown.\<close>
  The sequential index refines ordered lists of keys: every index that additions and removals reach from empty
  files, as long as no key is added in front of all others, represents the list the specification has, takes
  every next operation, keeps its auxiliary file logarithmic, and answers searches from that list.
  Adding in front works once and then damages the files, and a key in front of the index file is never removed; two theorems
  show how.
  The AVL index holds a balanced search tree after every addition and removal except that of a root
  with less than two children; insertion is the textbook insertion, the slots of the file are partitioned
  into tree and free list, and a key is found in logarithmically many reads.  A search for a key that is
  there never returns, because of the default value of a link.
  The ISAM index finds what it was built from and what was added since, and answers ranges, as long
  as keys are different; a removal from a sorted chain takes out exactly the record of its key, unless it empties the
  first page or one behind the second; a theorem shows which pages are lost then.  All pages stay well formed in any case.
  A record of at most 255 bytes with texts of the right types is written, and is read back in canonical form; a heap
  file keeps its rows under additions, and loses them under \<open>bulk_insert\<close> and \<open>remove\<close>.
  The three kinds of index, built from the same rows and extended with the same new keys, find the same positions.
  The engine, on a table with an integer key, adds exactly the records with new keys, and then finds exactly
  the rows of a key; a record that cannot be written leaves its key in the index, and a removal loses the
  rows of the table.  Its other properties are about dropped and cleaned tables, the positions of a second
  index and loads with a condition.

  \<^bold>\<open>Fuel.\<close>  The loops and recursions that follow links in a file have a bound: one more than the number of records of the
  files they read (sequential index, duplicates, ISAM pages), and twice the number of nodes plus two (AVL index, where
  \<open>erase\<close> walks twice).  A loop that only reads and visits a record twice never ends, so the bounds lose no
  run that returns; the theorems that an operation returns \<open>Inr\<close> show that the bound is enough where the invariant
  holds, and \<open>avl_search_endless\<close> shows a loop that no bound is enough for.

  \<^bold>\<open>Parameters.\<close>  The conversions between text and \<open>float\<close> and the order of floating point numbers; \<open>std::sort\<close>, whose result
  is only known to be sorted and a permutation; the contents of fresh memory; the effect of a header that is
  written over a record; the places of keys in a hash table; and the time a query takes.  The sizes
  of structures are those of x86-64 for integer keys; the lemmas use only that they are positive.

  \<^bold>\<open>Not modelled.\<close>
  The web interface (\<open>src/Api\<close>, \<open>src/main.cpp\<close>) only hands a query to the SQL parser and its answer to the web server; the
  parser is a submodule that is not part of the repository, and the server (\<open>libs/Crow\<close>) and the log (\<open>libs/SpdLog\<close>) are
  other projects' code.  The experiments and tests (\<open>experimental\<close>, \<open>tests\<close>, \<open>libs/Indexes/ISAM/main.cpp\<close>) are programs of
  their own.  Of the modelled parts, the functions that print files, the timers of the
  queries and the names of files are left out.  The name of a table is taken to be the name of a directory:
  not empty and without separators.  An index of strings writes the bytes of \<open>std::string\<close> objects; the engine never adds a
  string to an index, and the library models none.  The stream of an AVL index is one for all indexes of a key type;
  the model gives each index its own.
\<close>

end
